(* ===== verification/Kessel_Prelude.thy ===== *)
theory Kessel_Prelude
  imports Main "HOL-Library.Word" "HOL-Library.Monad_Syntax" "HOL-Library.Multiset"
begin

text \<open>
  Shared vocabulary of the development: the machine integers and constants of the C code
  (LP64: \<open>size_t\<close> and \<open>uint64_t\<close> are 64 bits wide), the allocator as a parameter,
  weakest preconditions of partial computations, and the generic lemmas on lists, multisets and words that the
  component theories use.

  Conventions used by every component:
  \<^item> a computation of type \<open>'a option\<close> in which a C loop or a memory access occurs
    returns \<open>None\<close> exactly when the C code does not return or reads or writes outside
    an object; \<open>Some r\<close> is a normal return. Code that dereferences a pointer which may be
    \<open>NULL\<close> reads the pointer with a monadic bind, so a \<open>NULL\<close> dereference is \<open>None\<close> too;
  \<^item> a pointer argument that the C code compares with \<open>NULL\<close> is an \<open>option\<close>; the
    receiver of an operation (the table, store, registry or client it works on) is a
    value that is passed in and returned updated.
\<close>

section \<open>Machine integers\<close>

unbundle bit_operations_syntax

type_synonym u64 = "64 word"
type_synonym u16 = "16 word"
type_synonym bytes = "char list"

definition SIZE_MAX :: u64 where
  "SIZE_MAX = - 1"

definition UINT64_MAX :: u64 where
  "UINT64_MAX = - 1"

abbreviation NUL :: char where "NUL \<equiv> CHR 0x00"
abbreviation TAB :: char where "TAB \<equiv> CHR 0x09"
abbreviation LF :: char where "LF \<equiv> CHR 0x0A"
abbreviation CR :: char where "CR \<equiv> CHR 0x0D"
abbreviation SP :: char where "SP \<equiv> CHR 0x20"
abbreviation DQUOTE :: char where "DQUOTE \<equiv> CHR 0x22"
abbreviation BSLASH :: char where "BSLASH \<equiv> CHR 0x5C"

section \<open>The allocator\<close>

text \<open>
  \<open>malloc\<close> and \<open>calloc\<close> may fail at any call. The outcome is a parameter: for the
  allocation made at a given place of the code with a given size in bytes, whether it
  succeeds. No place is passed twice within one operation that takes the parameter.
  \<open>calloc\<close> in addition fails when the product of its arguments does not fit in
  \<open>size_t\<close>.
\<close>

datatype alloc_site =
    Site_ds_entries
  | Site_key_copy
  | Site_value_copy
  | Site_pubsub
  | Site_channel_name
  | Site_new_channel
  | Site_subscriber
  | Site_client_input
  | Site_client_output
  | Site_clients
  | Site_cli_argument
  | Site_cli_unsubscribe

type_synonym allocator = "alloc_site \<Rightarrow> nat \<Rightarrow> bool"

definition c_malloc :: "allocator \<Rightarrow> alloc_site \<Rightarrow> nat \<Rightarrow> bool" where
  "c_malloc al site n \<longleftrightarrow> n \<le> unat SIZE_MAX \<and> al site n"

definition c_calloc :: "allocator \<Rightarrow> alloc_site \<Rightarrow> u64 \<Rightarrow> nat \<Rightarrow> bool" where
  "c_calloc al site n s \<longleftrightarrow> unat n * s \<le> unat SIZE_MAX \<and> al site (unat n * s)"

text \<open>The allocator that always has memory, and the one that never has: used by examples.\<close>

definition mem_ok :: allocator where
  "mem_ok = (\<lambda>_ _. True)"

definition mem_fail :: allocator where
  "mem_fail = (\<lambda>_ _. False)"

section \<open>Total correctness of partial computations\<close>

text \<open>
  \<open>returns m Q\<close>: the computation returns, and its result satisfies \<open>Q\<close>. The rules
  compute weakest preconditions through the constructs of the option monad; the collection
  \<open>wp\<close> holds them.
\<close>

definition returns :: "'a option \<Rightarrow> ('a \<Rightarrow> bool) \<Rightarrow> bool" where
  "returns m Q \<longleftrightarrow> (\<exists>x. m = Some x \<and> Q x)"

named_theorems wp \<open>weakest preconditions of computations that return\<close>

lemma returns_Some [simp, wp]: "returns (Some x) Q \<longleftrightarrow> Q x"
  by (simp add: returns_def)

lemma returns_None [simp, wp]: "\<not> returns None Q"
  by (simp add: returns_def)

lemma returns_bind [simp, wp]: "returns (m \<bind> f) Q \<longleftrightarrow> returns m (\<lambda>x. returns (f x) Q)"
  by (cases m) simp_all

lemma returns_if [simp, wp]: "returns (if b then m else n) Q \<longleftrightarrow> (if b then returns m Q else returns n Q)"
  by simp

lemma returns_prod [simp, wp]: "returns (case p of (a, b) \<Rightarrow> f a b) Q \<longleftrightarrow> (case p of (a, b) \<Rightarrow> returns (f a b) Q)"
  by (simp split: prod.split)

lemma returns_option [wp]:
  "returns (case v of None \<Rightarrow> m | Some x \<Rightarrow> f x) Q \<longleftrightarrow> (case v of None \<Rightarrow> returns m Q | Some x \<Rightarrow> returns (f x) Q)"
  by (simp split: option.split)

lemma returns_map [simp, wp]: "returns (map_option f m) Q \<longleftrightarrow> returns m (\<lambda>x. Q (f x))"
  by (cases m) simp_all

lemma returns_mono: "returns m P \<Longrightarrow> (\<And>x. P x \<Longrightarrow> Q x) \<Longrightarrow> returns m Q"
  by (auto simp: returns_def)

lemma returnsI: "m = Some x \<Longrightarrow> Q x \<Longrightarrow> returns m Q"
  by simp

lemma returnsE: "returns m Q \<Longrightarrow> (\<And>x. m = Some x \<Longrightarrow> Q x \<Longrightarrow> thesis) \<Longrightarrow> thesis"
  by (auto simp: returns_def)

section \<open>Words\<close>

lemma unat_SIZE_MAX [simp]: "unat SIZE_MAX = 2 ^ 64 - 1"
  by (simp add: SIZE_MAX_def unsigned_minus_1_eq_mask mask_eq_exp_minus_1)

lemma unat_UINT64_MAX [simp]: "unat UINT64_MAX = 2 ^ 64 - 1"
  by (simp add: UINT64_MAX_def unsigned_minus_1_eq_mask mask_eq_exp_minus_1)

text \<open>Masking with a power of two minus one is the remainder: the index arithmetic of the table.\<close>

lemma unat_and_mask_pow2:
  fixes x c :: u64
  assumes c: "unat c = 2 ^ n"
  shows "unat (x AND (c - 1)) = unat x mod 2 ^ n"
proof -
  have n: "n < 64"
  proof (rule ccontr)
    assume "\<not> n < 64"
    then have "(2::nat) ^ 64 \<le> 2 ^ n" by (intro power_increasing) auto
    with c have "2 ^ 64 \<le> unat c" by simp
    moreover have "unat c < 2 ^ 64" using unsigned_less [of c, where ?'a = nat] by simp
    ultimately show False by linarith
  qed
  from n have "unat ((2 :: u64) ^ n) = 2 ^ n"
    using unsigned_of_nat [of "2 ^ n", where ?'b = 64 and ?'a = nat]
    by (simp add: take_bit_nat_eq_self)
  with c have "c = 2 ^ n"
    by (simp add: word_unat_eq_iff)
  then have "x AND (c - 1) = take_bit n x"
    by (simp add: take_bit_eq_mask mask_eq_exp_minus_1)
  then have "unat (x AND (c - 1)) = take_bit n (unat x)"
    by (simp only: unsigned_take_bit_eq)
  then show ?thesis
    by (simp add: take_bit_eq_mod)
qed

section \<open>Lists\<close>

lemma length_filter_update:
  assumes "i < length xs"
  shows "length (filter P (xs[i := y])) + (if P (xs ! i) then 1 else 0) =
         length (filter P xs) + (if P y then 1 else 0)"
proof -
  have "filter P xs = filter P (take i xs @ xs ! i # drop (Suc i) xs)"
    using assms by (simp add: id_take_nth_drop [symmetric])
  then show ?thesis
    using assms by (simp add: upd_conv_take_nth_drop)
qed

lemma exists_not_filtered:
  assumes "length (filter P xs) < length xs"
  shows "\<exists>i < length xs. \<not> P (xs ! i)"
proof (rule ccontr)
  assume "\<not> ?thesis"
  then have "filter P xs = xs"
    by (auto simp: filter_id_conv in_set_conv_nth)
  with assms show False by simp
qed

lemma length_filter_imp:
  assumes "\<And>x. P x \<Longrightarrow> Q x"
  shows "length (filter P xs) \<le> length (filter Q xs)"
  using assms by (induction xs) (auto simp: le_SucI)

lemma count_list_distinct: "distinct xs \<Longrightarrow> x \<in> set xs \<Longrightarrow> count_list xs x = 1"
  by (induction xs) (auto simp: count_list_0_iff)

lemma card_filter_split:
  assumes "finite A" shows "card A = card {x \<in> A. \<not> P x} + card {x \<in> A. P x}"
proof -
  have "{x \<in> A. \<not> P x} \<union> {x \<in> A. P x} = A" by blast
  with assms card_Un_disjoint [of "{x \<in> A. \<not> P x}" "{x \<in> A. P x}"] show ?thesis by auto
qed

lemma mset_map_filter_update:
  assumes "i < length xs"
  shows "mset (map f (filter P (xs[i := y]))) + (if P (xs ! i) then {#f (xs ! i)#} else {#}) =
         mset (map f (filter P xs)) + (if P y then {#f y#} else {#})"
proof -
  have "filter P xs = filter P (take i xs @ xs ! i # drop (Suc i) xs)"
    using assms by (simp add: id_take_nth_drop [symmetric])
  then show ?thesis
    using assms by (simp add: upd_conv_take_nth_drop)
qed

end
