(* ===== verification/Kessel_C.thy ===== *)
theory Kessel_C
  imports Kessel_Prelude
begin

text \<open>
  The part of the C standard library the program uses on text, in the C locale: string
  comparison, character classes, decimal output of \<open>printf\<close> and the \<open>strtol\<close> family.
  A NUL-terminated string is modelled by its content, the bytes before the NUL. The main
  lemmas are that \<open>strcmp\<close> decides equality and that the \<open>strtol\<close> family reads back
  what \<open>printf\<close> wrote.
\<close>

section \<open>Comparison\<close>

definition byte :: "char \<Rightarrow> nat" where
  "byte c = of_char c"

text \<open>The C standard fixes the sign of the result of \<open>strcmp\<close>, not its magnitude.\<close>

fun c_strcmp :: "string \<Rightarrow> string \<Rightarrow> int" where
  "c_strcmp [] [] = 0"
| "c_strcmp [] (d # ds) = - int (byte d) - 1"
| "c_strcmp (c # cs) [] = int (byte c) + 1"
| "c_strcmp (c # cs) (d # ds) =
     (if c = d then c_strcmp cs ds else int (byte c) - int (byte d))"

definition c_toupper :: "char \<Rightarrow> char" where
  "c_toupper c = (if 97 \<le> byte c \<and> byte c \<le> 122 then char_of (byte c - 32) else c)"

definition c_tolower :: "char \<Rightarrow> char" where
  "c_tolower c = (if 65 \<le> byte c \<and> byte c \<le> 90 then char_of (byte c + 32) else c)"

definition c_strcasecmp :: "string \<Rightarrow> string \<Rightarrow> int" where
  "c_strcasecmp s t = c_strcmp (map c_tolower s) (map c_tolower t)"

definition c_strncasecmp :: "string \<Rightarrow> string \<Rightarrow> nat \<Rightarrow> int" where
  "c_strncasecmp s t n = c_strcasecmp (take n s) (take n t)"

definition is_space :: "char \<Rightarrow> bool" where
  "is_space c \<longleftrightarrow> byte c = 32 \<or> 9 \<le> byte c \<and> byte c \<le> 13"

definition is_digit :: "char \<Rightarrow> bool" where
  "is_digit c \<longleftrightarrow> 48 \<le> byte c \<and> byte c \<le> 57"

section \<open>Decimal output\<close>

definition digit_char :: "nat \<Rightarrow> char" where
  "digit_char d = char_of (48 + d)"

text \<open>\<open>%zu\<close> and \<open>%llu\<close> print \<open>fmt_nat\<close>, \<open>%lld\<close> prints \<open>fmt_int\<close>.\<close>

fun fmt_nat :: "nat \<Rightarrow> string" where
  "fmt_nat n = (if n < 10 then [digit_char n] else fmt_nat (n div 10) @ [digit_char (n mod 10)])"

declare fmt_nat.simps [simp del]

definition fmt_int :: "int \<Rightarrow> string" where
  "fmt_int i = (if i < 0 then CHR ''-'' # fmt_nat (nat (- i)) else fmt_nat (nat i))"

section \<open>The strtol family, base 10\<close>

definition digits_value :: "string \<Rightarrow> nat" where
  "digits_value ds = foldl (\<lambda>n c. n * 10 + (byte c - 48)) 0 ds"

text \<open>
  The subject sequence: white space, an optional sign, digits. \<open>None\<close> if there is no
  digit; otherwise whether the sign is a minus, the magnitude, and the offset of the first
  byte after it.
\<close>

definition strto_subject :: "string \<Rightarrow> (bool \<times> nat \<times> nat) option" where
  "strto_subject s =
     (let ws = length (takeWhile is_space s);
          rest = drop ws s;
          neg = (rest \<noteq> [] \<and> hd rest = CHR ''-'');
          sign = (if rest \<noteq> [] \<and> (hd rest = CHR ''-'' \<or> hd rest = CHR ''+'') then 1 else 0);
          ds = takeWhile is_digit (drop sign rest)
      in if ds = [] then None else Some (neg, digits_value ds, ws + sign + length ds))"

text \<open>The value, the offset stored through \<open>endptr\<close>, and whether \<open>errno\<close> is \<open>ERANGE\<close>.\<close>

definition LLONG_MAX :: int where "LLONG_MAX = 2 ^ 63 - 1"
definition LLONG_MIN :: int where "LLONG_MIN = - (2 ^ 63)"
definition ULONG_MAX :: nat where "ULONG_MAX = 2 ^ 64 - 1"

definition c_strtoll :: "string \<Rightarrow> int \<times> nat \<times> bool" where
  "c_strtoll s = (case strto_subject s of None \<Rightarrow> (0, 0, False)
     | Some (neg, n, e) \<Rightarrow>
         let v = (if neg then - int n else int n) in
         if v > LLONG_MAX then (LLONG_MAX, e, True)
         else if v < LLONG_MIN then (LLONG_MIN, e, True)
         else (v, e, False))"

text \<open>\<open>long\<close> has the range of \<open>long long\<close> on LP64.\<close>

definition c_strtol :: "string \<Rightarrow> int \<times> nat \<times> bool" where
  "c_strtol s = c_strtoll s"

definition c_strtoul :: "string \<Rightarrow> nat \<times> nat \<times> bool" where
  "c_strtoul s = (case strto_subject s of None \<Rightarrow> (0, 0, False)
     | Some (neg, n, e) \<Rightarrow>
         if n > ULONG_MAX then (ULONG_MAX, e, True)
         else (if neg then (2 ^ 64 - n) mod 2 ^ 64 else n, e, False))"

section \<open>Lemmas\<close>

lemma byte_inj [simp]: "byte c = byte d \<longleftrightarrow> c = d"
  by (simp add: byte_def)

lemma byte_less [simp]: "byte c < 256"
  by (simp add: byte_def)

lemma byte_char_of: "n < 256 \<Longrightarrow> byte (char_of n) = n"
  by (simp add: byte_def)

lemma c_strcmp_eq_0 [simp]: "c_strcmp s t = 0 \<longleftrightarrow> s = t"
  by (induction s t rule: c_strcmp.induct) auto

lemma digit_char_props:
  assumes "d < 10"
  shows "is_digit (digit_char d)" "byte (digit_char d) = 48 + d"
    "\<not> is_space (digit_char d)" "digit_char d \<noteq> CHR ''-''" "digit_char d \<noteq> CHR ''+''"
proof -
  show b: "byte (digit_char d) = 48 + d"
    using assms by (simp add: digit_char_def byte_char_of)
  show "is_digit (digit_char d)" "\<not> is_space (digit_char d)"
    using assms by (simp_all add: b is_digit_def is_space_def)
  have "byte (CHR ''-'') = 45" "byte (CHR ''+'') = 43" by (simp_all add: byte_def)
  then show "digit_char d \<noteq> CHR ''-''" "digit_char d \<noteq> CHR ''+''"
    using b by (auto dest!: arg_cong [where f = byte])
qed

lemma fmt_nat_ne: "fmt_nat n \<noteq> []"
  by (subst fmt_nat.simps) simp

lemma fmt_nat_digits: "\<forall>c \<in> set (fmt_nat n). \<exists>d < 10. c = digit_char d"
proof (induction n rule: fmt_nat.induct)
  case (1 n)
  show ?case
  proof (cases "n < 10")
    case True
    then show ?thesis by (subst fmt_nat.simps) auto
  next
    case False
    have "n mod 10 < 10" by simp
    with 1 False show ?thesis by (subst fmt_nat.simps) fastforce
  qed
qed

lemma digits_value_snoc: "digits_value (ds @ [c]) = digits_value ds * 10 + (byte c - 48)"
  by (simp add: digits_value_def)

lemma digits_value_fmt_nat [simp]: "digits_value (fmt_nat n) = n"
proof (induction n rule: fmt_nat.induct)
  case (1 n)
  show ?case
  proof (cases "n < 10")
    case True
    then show ?thesis
      by (subst fmt_nat.simps) (simp add: digits_value_def digit_char_props)
  next
    case False
    with 1 show ?thesis
      by (subst fmt_nat.simps) (simp add: digits_value_snoc digit_char_props)
  qed
qed

lemma length_fmt_nat_le: "n < 10 ^ Suc k \<Longrightarrow> length (fmt_nat n) \<le> Suc k"
proof (induction k arbitrary: n)
  case 0
  then show ?case by (subst fmt_nat.simps) simp
next
  case (Suc k)
  show ?case
  proof (cases "n < 10")
    case True
    then show ?thesis by (subst fmt_nat.simps) simp
  next
    case False
    have "n div 10 < 10 ^ Suc k" using Suc.prems by (simp add: less_mult_imp_div_less)
    with False Suc.IH [of "n div 10"] show ?thesis by (subst fmt_nat.simps) simp
  qed
qed

section \<open>Reading back what was printed\<close>

lemma fmt_nat_chars:
  shows "takeWhile is_digit (fmt_nat n) = fmt_nat n" "\<not> is_space (hd (fmt_nat n))"
    "hd (fmt_nat n) \<noteq> CHR ''-''" "hd (fmt_nat n) \<noteq> CHR ''+''"
proof -
  have d: "\<exists>d < 10. c = digit_char d" if "c \<in> set (fmt_nat n)" for c
    using fmt_nat_digits that by blast
  then have "is_digit c" if "c \<in> set (fmt_nat n)" for c
    using that digit_char_props(1) by blast
  then show "takeWhile is_digit (fmt_nat n) = fmt_nat n"
    by (simp add: takeWhile_eq_all_conv)
  from d [OF hd_in_set [OF fmt_nat_ne]] obtain k where "k < 10" "hd (fmt_nat n) = digit_char k" by blast
  then show "\<not> is_space (hd (fmt_nat n))" "hd (fmt_nat n) \<noteq> CHR ''-''" "hd (fmt_nat n) \<noteq> CHR ''+''"
    by (simp_all add: digit_char_props)
qed

lemma strto_fmt_nat: "strto_subject (fmt_nat n) = Some (False, n, length (fmt_nat n))"
proof -
  have "takeWhile is_space (fmt_nat n) = []"
    using fmt_nat_chars(2) [of n] fmt_nat_ne [of n] by (cases "fmt_nat n") auto
  then show ?thesis
    using fmt_nat_chars(2-4) [of n] fmt_nat_ne [of n]
    by (simp add: strto_subject_def Let_def fmt_nat_chars(1))
qed

lemma strto_fmt_neg: "strto_subject (CHR ''-'' # fmt_nat n) = Some (True, n, Suc (length (fmt_nat n)))"
proof -
  have "\<not> is_space (CHR ''-'')" by (simp add: is_space_def byte_def)
  then show ?thesis
    using fmt_nat_chars(2-4) [of n] fmt_nat_ne [of n]
    by (simp add: strto_subject_def Let_def fmt_nat_chars(1))
qed

lemma strtoll_fmt_int:
  assumes "LLONG_MIN \<le> i" "i \<le> LLONG_MAX"
  shows "c_strtoll (fmt_int i) = (i, length (fmt_int i), False)"
  using assms by (auto simp: c_strtoll_def fmt_int_def strto_fmt_nat strto_fmt_neg Let_def)

end
