(* ===== verification/Kessel_Ttl.thy ===== *)
theory Kessel_Ttl
  imports Kessel_Prelude
begin

text \<open>
  \<^verbatim>\<open>src/src/ks_ttl.c\<close>, \<^verbatim>\<open>src/include/ks_ttl.h\<close>: the monotonic clock and
  deadlines. A clock is a callback with a context; what matters of it is the sequence of
  values its successive calls return, so the model of \<open>ks_ttl_clock_t\<close> holds that
  sequence (\<open>None\<close> for a \<open>NULL\<close> callback) and, as its context, how many calls were made.
  The lemmas show that a deadline is computed exactly or refused, never wrapped around, and
  is never 0, the value the store uses for no expiry.
\<close>

section \<open>Model\<close>

record ks_ttl_clock =
  clk_now :: "(nat \<Rightarrow> u64) option"
  clk_context :: nat

text \<open>
  \<open>system_now\<close> on POSIX: the result of \<open>clock_gettime\<close> as seconds and nanoseconds,
  \<open>None\<close> when the call fails.
\<close>

definition system_now :: "(u64 \<times> u64) option \<Rightarrow> u64" where
  "system_now ts = (case ts of None \<Rightarrow> 0
     | Some (tv_sec, tv_nsec) \<Rightarrow> tv_sec * 1000 + tv_nsec div 1000000)"

definition ks_ttl_system_clock :: "(nat \<Rightarrow> (u64 \<times> u64) option) \<Rightarrow> ks_ttl_clock" where
  "ks_ttl_system_clock os = \<lparr>clk_now = Some (\<lambda>i. system_now (os i)), clk_context = 0\<rparr>"

definition ks_ttl_now :: "ks_ttl_clock \<Rightarrow> u64 \<times> ks_ttl_clock" where
  "ks_ttl_now clock = (case clk_now clock of None \<Rightarrow> (0, clock)
     | Some now \<Rightarrow> (now (clk_context clock), clock\<lparr>clk_context := Suc (clk_context clock)\<rparr>))"

definition ks_ttl_deadline :: "u64 \<Rightarrow> u64 \<Rightarrow> u64 option" where
  "ks_ttl_deadline now_ms ttl_seconds =
     (if ttl_seconds = 0 \<or> ttl_seconds > (UINT64_MAX - now_ms) div 1000 then None
      else Some (now_ms + ttl_seconds * 1000))"

text \<open>A clock that does not go backwards, as \<open>CLOCK_MONOTONIC\<close> promises.\<close>

definition monotonic :: "ks_ttl_clock \<Rightarrow> bool" where
  "monotonic clock \<longleftrightarrow> (case clk_now clock of None \<Rightarrow> False | Some now \<Rightarrow> mono now)"

section \<open>Lemmas\<close>

lemma UINT64_MAX_minus: "unat (UINT64_MAX - x) = 2 ^ 64 - 1 - unat x"
proof -
  have "x \<le> UINT64_MAX" by (simp add: UINT64_MAX_def)
  then show ?thesis by (simp add: unat_sub)
qed

lemma deadline_guard:
  fixes n t :: nat
  assumes "n < 2 ^ 64"
  shows "t \<le> (2 ^ 64 - 1 - n) div 1000 \<longleftrightarrow> n + t * 1000 < 2 ^ 64"
proof -
  have "t \<le> (2 ^ 64 - 1 - n) div 1000 \<longleftrightarrow> t * 1000 \<le> 2 ^ 64 - 1 - n"
    by (rule less_eq_div_iff_mult_less_eq) simp
  then show ?thesis using assms by linarith
qed

lemma deadline_value:
  fixes now ttl :: u64
  assumes "unat now + unat ttl * 1000 < 2 ^ 64"
  shows "unat (now + ttl * 1000) = unat now + unat ttl * 1000"
proof -
  have "unat (ttl * 1000) = unat ttl * 1000"
    using assms by (subst unat_mult_lem [THEN iffD1]) simp_all
  then show ?thesis
    using assms by (subst unat_add_lem [THEN iffD1]) simp_all
qed

lemma ks_ttl_deadline_alt:
  "ks_ttl_deadline now ttl =
     (if 0 < unat ttl \<and> unat now + unat ttl * 1000 < 2 ^ 64 then Some (now + ttl * 1000) else None)"
proof -
  have now: "unat now < 2 ^ 64" using unsigned_less [of now, where ?'a = nat] by simp
  have "ttl > (UINT64_MAX - now) div 1000 \<longleftrightarrow> \<not> unat ttl \<le> unat ((UINT64_MAX - now) div 1000)"
    by (simp only: word_less_nat_alt not_le)
  also have "unat ((UINT64_MAX - now) div 1000) = (2 ^ 64 - 1 - unat now) div 1000"
    by (simp only: unat_div UINT64_MAX_minus) simp
  finally have "ttl > (UINT64_MAX - now) div 1000 \<longleftrightarrow> \<not> unat now + unat ttl * 1000 < 2 ^ 64"
    by (simp only: deadline_guard [OF now])
  moreover have "ttl = 0 \<longleftrightarrow> \<not> 0 < unat ttl"
    by (simp add: unat_gt_0)
  ultimately show ?thesis
    unfolding ks_ttl_deadline_def by presburger
qed

lemma ks_ttl_deadline_exact:
  "ks_ttl_deadline now ttl = Some d \<longleftrightarrow>
     0 < unat ttl \<and> unat now + unat ttl * 1000 < 2 ^ 64 \<and> unat d = unat now + unat ttl * 1000"
proof (cases "0 < unat ttl \<and> unat now + unat ttl * 1000 < 2 ^ 64")
  case True
  then have "unat d = unat now + unat ttl * 1000 \<longleftrightarrow> d = now + ttl * 1000"
    using deadline_value [of now ttl] by (metis word_unat_eq_iff)
  with True show ?thesis by (auto simp add: ks_ttl_deadline_alt)
next
  case False
  then show ?thesis by (simp only: ks_ttl_deadline_alt) auto
qed

lemma ks_ttl_deadline_refused:
  "ks_ttl_deadline now ttl = None \<longleftrightarrow> ttl = 0 \<or> 2 ^ 64 \<le> unat now + unat ttl * 1000"
  by (simp add: ks_ttl_deadline_alt unat_gt_0 not_less)

lemma ks_ttl_deadline_after:
  assumes "ks_ttl_deadline now ttl = Some d"
  shows "now < d" "d \<noteq> 0"
proof -
  from assms show "now < d" by (simp add: ks_ttl_deadline_exact word_less_nat_alt)
  then show "d \<noteq> 0" by auto
qed

lemma ks_ttl_now_clock: "clk_now (snd (ks_ttl_now c)) = clk_now c"
  by (simp add: ks_ttl_now_def split: option.split)

lemma monotonic_now [simp]: "monotonic (snd (ks_ttl_now c)) = monotonic c"
  by (simp add: monotonic_def ks_ttl_now_clock)

lemma ks_ttl_now_le:
  assumes "monotonic c" shows "fst (ks_ttl_now c) \<le> fst (ks_ttl_now (snd (ks_ttl_now c)))"
  using assms by (auto simp: monotonic_def ks_ttl_now_def mono_def split: option.splits)

section \<open>Properties\<close>

text \<open>
  C21. A deadline is computed exactly or refused: it is the time now plus the seconds in
  milliseconds when that fits in 64 bits and the time to live is not 0, and it then lies
  strictly in the future and is never 0, the value that means no expiry; otherwise the
  computation reports failure. It never wraps around.
\<close>

theorem ttl_deadline_exact:
  "(case ks_ttl_deadline now ttl of
      Some d \<Rightarrow> unat d = unat now + unat ttl * 1000 \<and> now < d \<and> d \<noteq> 0 \<and> ttl \<noteq> 0
    | None \<Rightarrow> ttl = 0 \<or> 2 ^ 64 \<le> unat now + unat ttl * 1000)"
proof (cases "ks_ttl_deadline now ttl")
  case None
  then have "ttl = 0 \<or> 2 ^ 64 \<le> unat now + unat ttl * 1000"
    by (simp only: ks_ttl_deadline_refused)
  then show ?thesis unfolding None option.case .
next
  case (Some d)
  then have "unat d = unat now + unat ttl * 1000" "ttl \<noteq> 0"
    by (auto simp: ks_ttl_deadline_exact)
  with Some ks_ttl_deadline_after [OF Some] show ?thesis by simp
qed

end
