(* ===== verification/Kessel_Kv.thy ===== *)
theory Kessel_Kv
  imports Kessel_C Kessel_Ttl Kessel_Ds
begin

text \<open>
  \<^verbatim>\<open>src/src/ks_kv.c\<close>, \<^verbatim>\<open>src/include/ks_kv.h\<close>: the key-value store with
  expiry, a client of the hash table. Keys are C strings, modelled by their content; a
  value is the struct \<open>ks_kv_value_t\<close> with its flexible array \<open>data\<close> of \<open>size\<close> bytes
  and a NUL. Every operation drops the key it looks at when its deadline has passed; the
  clock is read as often, and in the same order, as the code reads it.
\<close>

section \<open>Data\<close>

record ks_kv_value =
  v_size :: u64
  v_deadline_ms :: u64
  v_data :: bytes

record ks_kv =
  kv_entries :: "(string, ks_kv_value) ks_ds"
  kv_clock :: ks_ttl_clock
  kv_reaper_cursor :: u64

datatype ks_kv_set_result = KS_KV_SET_ERROR | KS_KV_SET_INSERTED | KS_KV_SET_REPLACED

datatype ks_kv_expire_result = KS_KV_EXPIRE_ERROR | KS_KV_EXPIRE_MISSING | KS_KV_EXPIRE_UPDATED

text \<open>\<open>sizeof(ks_kv_value_t)\<close>: two 8-byte words, the flexible array adds nothing.\<close>

definition sizeof_ks_kv_value :: nat where
  "sizeof_ks_kv_value = 16"

section \<open>Operations\<close>

definition ks_kv_hash :: "string \<Rightarrow> u64" where
  "ks_kv_hash key =
     foldl (\<lambda>hash c. (hash XOR of_nat (byte c)) * 1099511628211) 14695981039346656037 key"

definition ks_kv_equal :: "string \<Rightarrow> string \<Rightarrow> bool" where
  "ks_kv_equal left right \<longleftrightarrow> c_strcmp left right = 0"

definition ks_kv_copy_key :: "allocator \<Rightarrow> string \<Rightarrow> string option" where
  "ks_kv_copy_key al key =
     (if c_malloc al Site_key_copy (length key + 1) then Some key else None)"

definition ks_kv_copy_value ::
    "allocator \<Rightarrow> bytes \<Rightarrow> u64 \<Rightarrow> u64 \<Rightarrow> ks_kv_value option" where
  "ks_kv_copy_value al value value_size deadline_ms =
     (if value_size > SIZE_MAX - of_nat sizeof_ks_kv_value - 1 then None
      else if \<not> c_malloc al Site_value_copy (sizeof_ks_kv_value + unat value_size + 1) then None
      else Some \<lparr>v_size = value_size, v_deadline_ms = deadline_ms,
                 v_data = (if value_size \<noteq> 0 then take (unat value_size) value else []) @ [NUL]\<rparr>)"

definition ks_kv_init_with_clock :: "allocator \<Rightarrow> ks_ttl_clock \<Rightarrow> ks_kv option" where
  "ks_kv_init_with_clock al clock =
     (if clk_now clock = None then None
      else do {
        entries \<leftarrow> ks_ds_init al (Some ks_kv_hash) (Some ks_kv_equal) True True;
        Some \<lparr>kv_entries = entries, kv_clock = clock, kv_reaper_cursor = 0\<rparr> })"

definition ks_kv_init :: "allocator \<Rightarrow> (nat \<Rightarrow> (u64 \<times> u64) option) \<Rightarrow> ks_kv option" where
  "ks_kv_init al os = ks_kv_init_with_clock al (ks_ttl_system_clock os)"

definition ks_kv_destroy ::
    "ks_kv \<Rightarrow> ks_kv \<times> (string, ks_kv_value) ds_event list" where
  "ks_kv_destroy store =
     (let (entries, ev) = ks_ds_destroy (kv_entries store)
      in (store\<lparr>kv_entries := entries\<rparr>, ev))"

definition ks_kv_find_live ::
    "ks_kv \<Rightarrow> string option \<Rightarrow> (ks_kv_value option \<times> ks_kv) option" where
  "ks_kv_find_live store key =
     (if key = None then Some (None, store)
      else do {
        value \<leftarrow> ks_ds_get (kv_entries store) key;
        case value of
          None \<Rightarrow> Some (None, store)
        | Some v \<Rightarrow>
            if v_deadline_ms v = 0 then Some (Some v, store)
            else
              let (now, clock) = ks_ttl_now (kv_clock store);
                  store = store\<lparr>kv_clock := clock\<rparr>
              in if v_deadline_ms v \<le> now then do {
                   (removed, entries, ev) \<leftarrow> ks_ds_remove (kv_entries store) key;
                   Some (None, store\<lparr>kv_entries := entries\<rparr>) }
                 else Some (Some v, store) })"

definition ks_kv_set_ex ::
    "allocator \<Rightarrow> ks_kv \<Rightarrow> string option \<Rightarrow> bytes option \<Rightarrow> u64 \<Rightarrow> u64 \<Rightarrow>
     (ks_kv_set_result \<times> ks_kv) option" where
  "ks_kv_set_ex al store key value value_size ttl_seconds =
     (if key = None \<or> value = None \<and> value_size \<noteq> 0 then Some (KS_KV_SET_ERROR, store)
      else do {
        (live, store) \<leftarrow> ks_kv_find_live store key;
        let (now, store) =
          (if ttl_seconds \<noteq> 0
           then (let (now, clock) = ks_ttl_now (kv_clock store)
                 in (now, store\<lparr>kv_clock := clock\<rparr>))
           else (0, store));
        if ttl_seconds \<noteq> 0 \<and> ks_ttl_deadline now ttl_seconds = None
        then Some (KS_KV_SET_ERROR, store)
        else do {
          let deadline_ms = (case ks_ttl_deadline now ttl_seconds of
                               Some d \<Rightarrow> if ttl_seconds \<noteq> 0 then d else 0 | None \<Rightarrow> 0);
          k \<leftarrow> key;
          let key_copy = ks_kv_copy_key al k;
          let value_copy = ks_kv_copy_value al (case value of None \<Rightarrow> [] | Some v \<Rightarrow> v)
                             value_size deadline_ms;
          if key_copy = None \<or> value_copy = None then Some (KS_KV_SET_ERROR, store)
          else do {
            (result, entries, ev) \<leftarrow> ks_ds_put al (kv_entries store) key_copy value_copy;
            Some (case result of
                    KS_DS_PUT_ERROR \<Rightarrow> KS_KV_SET_ERROR
                  | KS_DS_PUT_INSERTED \<Rightarrow> KS_KV_SET_INSERTED
                  | KS_DS_PUT_REPLACED \<Rightarrow> KS_KV_SET_REPLACED,
                  store\<lparr>kv_entries := entries\<rparr>) } } })"

definition ks_kv_set ::
    "allocator \<Rightarrow> ks_kv \<Rightarrow> string option \<Rightarrow> bytes option \<Rightarrow> u64 \<Rightarrow>
     (ks_kv_set_result \<times> ks_kv) option" where
  "ks_kv_set al store key value value_size = ks_kv_set_ex al store key value value_size 0"

text \<open>The result: the pointer \<open>value->data\<close> as the bytes it points to, and \<open>*value_size\<close>.\<close>

definition ks_kv_get :: "ks_kv \<Rightarrow> string option \<Rightarrow> (bytes option \<times> u64 \<times> ks_kv) option" where
  "ks_kv_get store key = do {
     (value, store) \<leftarrow> ks_kv_find_live store key;
     Some (case value of None \<Rightarrow> (None, 0, store)
           | Some v \<Rightarrow> (Some (v_data v), v_size v, store)) }"

definition ks_kv_delete :: "ks_kv \<Rightarrow> string option \<Rightarrow> (bool \<times> ks_kv) option" where
  "ks_kv_delete store key = do {
     (value, store) \<leftarrow> ks_kv_find_live store key;
     if value = None then Some (False, store)
     else do {
       (removed, entries, ev) \<leftarrow> ks_ds_remove (kv_entries store) key;
       Some (removed, store\<lparr>kv_entries := entries\<rparr>) } }"

definition ks_kv_exists :: "ks_kv \<Rightarrow> string option \<Rightarrow> (bool \<times> ks_kv) option" where
  "ks_kv_exists store key = do {
     (value, store) \<leftarrow> ks_kv_find_live store key;
     Some (value \<noteq> None, store) }"

text \<open>
  The assignment \<open>value->deadline_ms = deadline_ms\<close> writes through the pointer that
  \<open>ks_ds_get\<close> returned, the value of the slot that holds the key.
\<close>

definition write_deadline :: "ks_kv \<Rightarrow> string \<Rightarrow> u64 \<Rightarrow> ks_kv option" where
  "write_deadline store key deadline_ms = do {
     hash_fn \<leftarrow> ds_hash (kv_entries store);
     (index, found) \<leftarrow> ks_ds_find (kv_entries store) key (hash_fn key);
     entries \<leftarrow> ds_entries (kv_entries store);
     let entry = entries ! unat index;
     v \<leftarrow> e_value entry;
     Some (store\<lparr>kv_entries := (kv_entries store)\<lparr>ds_entries := Some (entries[unat index :=
       entry\<lparr>e_value := Some (v\<lparr>v_deadline_ms := deadline_ms\<rparr>)\<rparr>])\<rparr>\<rparr>) }"

definition ks_kv_expire ::
    "ks_kv \<Rightarrow> string option \<Rightarrow> u64 \<Rightarrow> (ks_kv_expire_result \<times> ks_kv) option" where
  "ks_kv_expire store key ttl_seconds = do {
     (value, store) \<leftarrow> ks_kv_find_live store key;
     if value = None then Some (KS_KV_EXPIRE_MISSING, store)
     else if ttl_seconds = 0 then do {
       (removed, entries, ev) \<leftarrow> ks_ds_remove (kv_entries store) key;
       Some (if removed then KS_KV_EXPIRE_UPDATED else KS_KV_EXPIRE_MISSING,
             store\<lparr>kv_entries := entries\<rparr>) }
     else do {
       let (now, clock) = ks_ttl_now (kv_clock store);
       let store = store\<lparr>kv_clock := clock\<rparr>;
       case ks_ttl_deadline now ttl_seconds of
         None \<Rightarrow> Some (KS_KV_EXPIRE_ERROR, store)
       | Some deadline_ms \<Rightarrow> do {
           k \<leftarrow> key;
           store \<leftarrow> write_deadline store k deadline_ms;
           Some (KS_KV_EXPIRE_UPDATED, store) } } }"

text \<open>The cast \<open>(int64_t)\<close> of an unsigned value reads it as two's complement.\<close>

definition ks_kv_ttl :: "ks_kv \<Rightarrow> string option \<Rightarrow> (int \<times> ks_kv) option" where
  "ks_kv_ttl store key = do {
     (value, store) \<leftarrow> ks_kv_find_live store key;
     case value of
       None \<Rightarrow> Some (- 2, store)
     | Some v \<Rightarrow>
         if v_deadline_ms v = 0 then Some (- 1, store)
         else
           let (now_ms, clock) = ks_ttl_now (kv_clock store);
               store = store\<lparr>kv_clock := clock\<rparr>
           in if v_deadline_ms v \<le> now_ms then do {
                (removed, entries, ev) \<leftarrow> ks_ds_remove (kv_entries store) key;
                Some (- 2, store\<lparr>kv_entries := entries\<rparr>) }
              else Some (sint ((v_deadline_ms v - now_ms) div 1000), store) }"

text \<open>One turn of the reaper's loop: the slot under the cursor.\<close>

definition reap_slot :: "u64 \<Rightarrow> ks_kv \<Rightarrow> u64 \<Rightarrow> (ks_kv \<times> u64) option" where
  "reap_slot now_ms store removed = do {
     let cursor = (if kv_reaper_cursor store \<ge> ds_capacity (kv_entries store) then 0
                   else kv_reaper_cursor store);
     entries \<leftarrow> ds_entries (kv_entries store);
     if length entries \<le> unat cursor then None
     else do {
       let entry = entries ! unat cursor;
       let store = store\<lparr>kv_reaper_cursor := cursor + 1\<rparr>;
       if e_state entry \<noteq> KS_DS_OCCUPIED then Some (store, removed)
       else do {
         value \<leftarrow> e_value entry;
         if v_deadline_ms value \<noteq> 0 \<and> v_deadline_ms value \<le> now_ms then do {
           (ok, entries, ev) \<leftarrow> ks_ds_remove (kv_entries store) (e_key entry);
           Some (store\<lparr>kv_entries := entries\<rparr>, if ok then removed + 1 else removed) }
         else Some (store, removed) } } }"

fun reap_loop :: "nat \<Rightarrow> u64 \<Rightarrow> ks_kv \<Rightarrow> u64 \<Rightarrow> (ks_kv \<times> u64) option" where
  "reap_loop 0 now_ms store removed = Some (store, removed)"
| "reap_loop (Suc n) now_ms store removed = do {
     (store, removed) \<leftarrow> reap_slot now_ms store removed;
     reap_loop n now_ms store removed }"

definition ks_kv_reap :: "ks_kv \<Rightarrow> u64 \<Rightarrow> (u64 \<times> ks_kv) option" where
  "ks_kv_reap store budget =
     (if ds_entries (kv_entries store) = None \<or> budget = 0 then Some (0, store)
      else do {
        let (now_ms, clock) = ks_ttl_now (kv_clock store);
        (store, removed) \<leftarrow> reap_loop (unat budget) now_ms (store\<lparr>kv_clock := clock\<rparr>) 0;
        Some (removed, store) })"

definition ks_kv_size :: "ks_kv \<Rightarrow> (u64 \<times> ks_kv) option" where
  "ks_kv_size store = do {
     (removed, store) \<leftarrow> ks_kv_reap store (ds_capacity (kv_entries store));
     Some (ks_ds_size (kv_entries store), store) }"

section \<open>Specification\<close>

text \<open>The bindings present, expired or not, and those that count at a given time.\<close>

definition kv_map :: "ks_kv \<Rightarrow> string \<rightharpoonup> ks_kv_value" where
  "kv_map s = tab_map (kv_entries s)"

definition expired :: "u64 \<Rightarrow> ks_kv_value \<Rightarrow> bool" where
  "expired now v \<longleftrightarrow> v_deadline_ms v \<noteq> 0 \<and> v_deadline_ms v \<le> now"

definition kv_live :: "u64 \<Rightarrow> ks_kv \<Rightarrow> string \<rightharpoonup> ks_kv_value" where
  "kv_live now s k = (case kv_map s k of None \<Rightarrow> None
     | Some v \<Rightarrow> if expired now v then None else Some v)"

text \<open>What the next call of the clock returns.\<close>

definition kv_now :: "ks_kv \<Rightarrow> u64" where
  "kv_now s = fst (ks_ttl_now (kv_clock s))"

definition value_ok :: "ks_kv_value \<Rightarrow> bool" where
  "value_ok v \<longleftrightarrow> length (v_data v) = unat (v_size v) + 1 \<and> last (v_data v) = NUL"

definition kv_inv :: "ks_kv \<Rightarrow> bool" where
  "kv_inv s \<longleftrightarrow> tab_inv (kv_entries s) \<and> ds_hash (kv_entries s) = Some ks_kv_hash \<and>
     clk_now (kv_clock s) \<noteq> None \<and> (\<forall>v \<in> ran (kv_map s). value_ok v)"

text \<open>
  The step of one operation on the store. What it may do behind the scenes is read the
  clock and drop keys that had expired by then, so the live bindings at any later time
  are as before except where the operation says so.
\<close>

definition same_live :: "u64 \<Rightarrow> ks_kv \<Rightarrow> ks_kv \<Rightarrow> bool" where
  "same_live now s s' \<longleftrightarrow> (\<forall>t \<ge> now. kv_live t s' = kv_live t s)"

text \<open>The value a store operation binds, and the deadline it computes (0 for none).\<close>

definition new_value :: "bytes \<Rightarrow> u64 \<Rightarrow> u64 \<Rightarrow> ks_kv_value" where
  "new_value val n d = \<lparr>v_size = n, v_deadline_ms = d, v_data = take (unat n) val @ [NUL]\<rparr>"

definition set_deadline :: "u64 \<Rightarrow> u64 \<Rightarrow> u64 option" where
  "set_deadline now ttl = (if ttl = 0 then Some 0 else ks_ttl_deadline now ttl)"

text \<open>
  Some allocation of a store operation fails: a copy, or the array of a rebuild, which has
  the same or twice the capacity.
\<close>

definition out_of_memory :: "allocator \<Rightarrow> ks_kv \<Rightarrow> string \<Rightarrow> u64 \<Rightarrow> bool" where
  "out_of_memory al s k n \<longleftrightarrow>
     \<not> c_malloc al Site_key_copy (length k + 1) \<or>
     \<not> c_malloc al Site_value_copy (sizeof_ks_kv_value + unat n + 1) \<or>
     \<not> c_calloc al Site_ds_entries (ds_capacity (kv_entries s)) sizeof_ks_ds_entry \<or>
     \<not> c_calloc al Site_ds_entries (ds_capacity (kv_entries s) * 2) sizeof_ks_ds_entry"

text \<open>What \<open>TTL\<close> reports for a binding when the clock reads \<open>now\<close>.\<close>

definition ttl_answer :: "u64 \<Rightarrow> ks_kv_value option \<Rightarrow> int" where
  "ttl_answer now vo = (case vo of None \<Rightarrow> - 2
     | Some v \<Rightarrow> if v_deadline_ms v = 0 then - 1
                else if expired now v then - 2
                else int ((unat (v_deadline_ms v) - unat now) div 1000))"

end
