(* ===== verification/Kessel_Protocol.thy ===== *)
theory Kessel_Protocol
  imports Kessel_C
begin

text \<open>
  \<^verbatim>\<open>src/src/ks_protocol.c\<close>, \<^verbatim>\<open>src/include/ks_protocol.h\<close>: the request parser and
  the response formatters.

  The parser works in place on a byte buffer. The buffer is a list of bytes, a \<open>char*\<close>
  into it an index; a read or write outside it gives \<open>None\<close>, so a theorem that a call
  returns \<open>Some\<close> includes that it stays inside the buffer. The formatters write into the
  memory that starts at \<open>dst\<close>, again a list of bytes, whose length is at least \<open>cap\<close>.
\<close>

section \<open>Memory\<close>

definition rd :: "bytes \<Rightarrow> nat \<Rightarrow> char option" where
  "rd buf i = (if i < length buf then Some (buf ! i) else None)"

definition wr :: "bytes \<Rightarrow> nat \<Rightarrow> char \<Rightarrow> bytes option" where
  "wr buf i c = (if i < length buf then Some (buf[i := c]) else None)"

definition memcpy :: "bytes \<Rightarrow> nat \<Rightarrow> bytes \<Rightarrow> bytes option" where
  "memcpy buf i xs = (if i + length xs \<le> length buf
     then Some (take i buf @ xs @ drop (i + length xs) buf) else None)"

definition INT_MAX :: nat where
  "INT_MAX = 2 ^ 31 - 1"

text \<open>
  \<open>snprintf(dst, cap, \<dots>)\<close> where the format expands to \<open>text\<close>: the result, negative when
  the length exceeds \<open>INT_MAX\<close>, and the memory.
\<close>

definition c_snprintf :: "bytes \<Rightarrow> nat \<Rightarrow> string \<Rightarrow> (int \<times> bytes) option" where
  "c_snprintf dst cap text =
     (if length dst < cap then None
      else if length text > INT_MAX then Some (- 1, dst)
      else if cap = 0 then Some (int (length text), dst)
      else let out = take (cap - 1) text @ [NUL]
           in Some (int (length text), out @ drop (length out) dst))"

section \<open>Parser\<close>

definition KS_MAX_ARGS :: nat where
  "KS_MAX_ARGS = 16"

definition KS_MAX_REQUEST :: nat where
  "KS_MAX_REQUEST = 64 * 1024"

record ks_cmd =
  c_cmd :: "nat option"
  c_argv :: "nat option list"
  c_argc :: nat

definition clear_command :: "ks_cmd \<Rightarrow> ks_cmd" where
  "clear_command out = out\<lparr>c_cmd := None, c_argc := 0, c_argv := replicate KS_MAX_ARGS None\<rparr>"

fun trim_crlf :: "bytes \<Rightarrow> nat \<Rightarrow> (bytes \<times> nat) option" where
  "trim_crlf line 0 = Some (line, 0)"
| "trim_crlf line (Suc n) = do {
     c \<leftarrow> rd line n;
     if c = LF \<or> c = CR then do { line \<leftarrow> wr line n NUL; trim_crlf line n }
     else Some (line, Suc n) }"

definition is_separator :: "char \<Rightarrow> bool" where
  "is_separator c \<longleftrightarrow> c = SP \<or> c = TAB"

function bounded_length_from :: "bytes \<Rightarrow> nat \<Rightarrow> nat \<Rightarrow> nat option" where
  "bounded_length_from text limit len =
     (if limit \<le> len then Some len
      else do { c \<leftarrow> rd text len;
                if c = NUL then Some len else bounded_length_from text limit (Suc len) })"
  by pat_completeness auto
termination by (relation "measure (\<lambda>(text, limit, len). limit - len)") auto

definition bounded_length :: "bytes \<Rightarrow> nat \<Rightarrow> nat option" where
  "bounded_length text limit = bounded_length_from text limit 0"

text \<open>The three loops of \<open>parse_token\<close> that only move a pointer or copy.\<close>

function skip_separators :: "bytes \<Rightarrow> nat \<Rightarrow> nat option" where
  "skip_separators buf read = do {
     c \<leftarrow> rd buf read;
     if is_separator c then skip_separators buf (Suc read) else Some read }"
  by pat_completeness auto
termination by (relation "measure (\<lambda>(buf, read). length buf - read)") (auto simp: rd_def split: if_splits)

text \<open>The unquoted token: \<open>False\<close> when a quote turns up.\<close>

function scan_word :: "bytes \<Rightarrow> nat \<Rightarrow> (bool \<times> nat) option" where
  "scan_word buf read = do {
     c \<leftarrow> rd buf read;
     if c \<noteq> NUL \<and> \<not> is_separator c then
       (if c = DQUOTE then Some (False, read) else scan_word buf (Suc read))
     else Some (True, read) }"
  by pat_completeness auto
termination by (relation "measure (\<lambda>(buf, read). length buf - read)") (auto simp: rd_def split: if_splits)

text \<open>The quoted token: \<open>False\<close> for an unsupported escape.\<close>

function scan_quoted :: "bytes \<Rightarrow> nat \<Rightarrow> nat \<Rightarrow> (bool \<times> bytes \<times> nat \<times> nat) option" where
  "scan_quoted buf read write = do {
     c \<leftarrow> rd buf read;
     if c \<noteq> NUL \<and> c \<noteq> DQUOTE then do {
       let read = (if c = BSLASH then Suc read else read);
       d \<leftarrow> rd buf read;
       if c = BSLASH \<and> d \<noteq> DQUOTE \<and> d \<noteq> BSLASH then Some (False, buf, read, write)
       else if write < length buf then scan_quoted (buf[write := d]) (Suc read) (Suc write)
       else None }
     else Some (True, buf, read, write) }"
  by pat_completeness auto
termination by (relation "measure (\<lambda>(buf, read, write). length buf - read)")
    (auto simp: rd_def split: if_splits)

declare bounded_length_from.simps [simp del] skip_separators.simps [simp del]
  scan_word.simps [simp del] scan_quoted.simps [simp del]

text \<open>The result, the buffer, \<open>*cursor\<close> and \<open>*token\<close>.\<close>

definition parse_token :: "bytes \<Rightarrow> nat \<Rightarrow> (bool \<times> bytes \<times> nat \<times> nat) option" where
  "parse_token buf cursor = do {
     let read = cursor;
     c \<leftarrow> rd buf read;
     if c = DQUOTE then do {
       let read = Suc read;
       let token = read;
       (ok, buf, read, write) \<leftarrow> scan_quoted buf read read;
       if \<not> ok then Some (False, buf, cursor, token)
       else do {
         c \<leftarrow> rd buf read;
         if c \<noteq> DQUOTE then Some (False, buf, cursor, token)
         else do {
           let read = Suc read;
           c \<leftarrow> rd buf read;
           if c \<noteq> NUL \<and> \<not> is_separator c then Some (False, buf, cursor, token)
           else do {
             buf \<leftarrow> wr buf write NUL;
             read \<leftarrow> skip_separators buf read;
             Some (True, buf, read, token) } } } }
     else do {
       let token = read;
       (ok, read) \<leftarrow> scan_word buf read;
       if \<not> ok then Some (False, buf, cursor, token)
       else do {
         c \<leftarrow> rd buf read;
         (buf, read) \<leftarrow> (if c \<noteq> NUL then do { buf \<leftarrow> wr buf read NUL; Some (buf, Suc read) }
                       else Some (buf, read));
         read \<leftarrow> skip_separators buf read;
         Some (True, buf, read, token) } } }"

text \<open>The loop over the arguments of \<open>ks_parse_line\<close>.\<close>

partial_function (option) parse_args :: "bytes \<Rightarrow> nat \<Rightarrow> ks_cmd \<Rightarrow> (bool \<times> bytes \<times> ks_cmd) option" where
  "parse_args buf cursor out = do {
     c \<leftarrow> rd buf cursor;
     if c = NUL then Some (True, buf, out)
     else if c_argc out = KS_MAX_ARGS then Some (False, buf, clear_command out)
     else do {
       (ok, buf, cursor, token) \<leftarrow> parse_token buf cursor;
       if \<not> ok then Some (False, buf, clear_command out)
       else parse_args buf cursor
              (out\<lparr>c_argv := (c_argv out)[c_argc out := Some token], c_argc := Suc (c_argc out)\<rparr>) } }"

function upcase_from :: "bytes \<Rightarrow> nat \<Rightarrow> bytes option" where
  "upcase_from buf p = do {
     c \<leftarrow> rd buf p;
     if c = NUL then Some buf else upcase_from (buf[p := c_toupper c]) (Suc p) }"
  by pat_completeness auto
termination by (relation "measure (\<lambda>(buf, p). length buf - p)") (auto simp: rd_def split: if_splits)

declare upcase_from.simps [simp del]

definition ks_parse_line :: "bytes option \<Rightarrow> ks_cmd \<Rightarrow> (bool \<times> bytes option \<times> ks_cmd) option" where
  "ks_parse_line line out = (case line of None \<Rightarrow> Some (False, None, out)
     | Some buf \<Rightarrow> do {
     let out = clear_command out;
     len \<leftarrow> bounded_length buf (KS_MAX_REQUEST + 3);
     if len > KS_MAX_REQUEST + 2 then Some (False, Some buf, out)
     else do {
       (buf, len) \<leftarrow> trim_crlf buf len;
       if len > KS_MAX_REQUEST then Some (False, Some buf, out)
       else do {
         cursor \<leftarrow> skip_separators buf 0;
         c \<leftarrow> rd buf cursor;
         if c = NUL then Some (False, Some buf, out)
         else do {
           (ok, buf, cursor, token) \<leftarrow> parse_token buf cursor;
           rejected \<leftarrow> (if \<not> ok then Some True
                       else do { first \<leftarrow> rd buf token; Some (first = NUL) });
           if rejected then Some (False, Some buf, clear_command out)
           else do {
             (ok, buf, out) \<leftarrow> parse_args buf cursor (out\<lparr>c_cmd := Some token\<rparr>);
             if \<not> ok then Some (False, Some buf, out)
             else do {
               p \<leftarrow> c_cmd out;
               buf \<leftarrow> upcase_from buf p;
               Some (True, Some buf, out) } } } } } })"

section \<open>Formatters\<close>

text \<open>The common tail: check what \<open>snprintf\<close> returned, and on failure empty the output.\<close>

definition snprintf_or_empty :: "bytes \<Rightarrow> nat \<Rightarrow> string \<Rightarrow> (nat \<times> bytes) option" where
  "snprintf_or_empty dst cap text = do {
     dst \<leftarrow> wr dst 0 NUL;
     (written, dst) \<leftarrow> c_snprintf dst cap text;
     if written < 0 \<or> nat written \<ge> cap then do { dst \<leftarrow> wr dst 0 NUL; Some (0, dst) }
     else Some (nat written, dst) }"

definition format_text ::
    "bytes option \<Rightarrow> nat \<Rightarrow> string option \<Rightarrow> string option \<Rightarrow> (nat \<times> bytes option) option" where
  "format_text dst cap prefix text =
     (case (dst, prefix, text) of
        (Some d, Some p, Some t) \<Rightarrow>
          if cap = 0 then Some (0, dst)
          else map_option (apsnd Some) (snprintf_or_empty d cap (p @ t @ [CR, LF]))
      | _ \<Rightarrow> Some (0, dst))"

definition ks_fmt_simple :: "bytes option \<Rightarrow> nat \<Rightarrow> string option \<Rightarrow> (nat \<times> bytes option) option" where
  "ks_fmt_simple dst cap s = format_text dst cap (Some ''+'') s"

definition ks_fmt_error :: "bytes option \<Rightarrow> nat \<Rightarrow> string option \<Rightarrow> (nat \<times> bytes option) option" where
  "ks_fmt_error dst cap msg = format_text dst cap (Some ''-ERR '') msg"

definition ks_fmt_int :: "bytes option \<Rightarrow> nat \<Rightarrow> int \<Rightarrow> (nat \<times> bytes option) option" where
  "ks_fmt_int dst cap v = (case dst of None \<Rightarrow> Some (0, dst)
     | Some d \<Rightarrow> if cap = 0 then Some (0, dst)
         else map_option (apsnd Some) (snprintf_or_empty d cap ('':'' @ fmt_int v @ [CR, LF])))"

text \<open>\<open>s\<close> is the memory at the pointer, at least \<open>n\<close> bytes unless the pointer is \<open>NULL\<close>.\<close>

definition ks_fmt_bulk ::
    "bytes option \<Rightarrow> nat \<Rightarrow> bytes option \<Rightarrow> nat \<Rightarrow> (nat \<times> bytes option) option" where
  "ks_fmt_bulk dst cap s n = (case dst of None \<Rightarrow> Some (0, dst)
     | Some d \<Rightarrow>
         if cap = 0 \<or> s = None \<and> n \<noteq> 0 then Some (0, dst)
         else do {
           d \<leftarrow> wr d 0 NUL;
           (written, d) \<leftarrow> c_snprintf d cap (''$'' @ fmt_nat n @ [CR, LF]);
           if written < 0 \<or> nat written \<ge> cap then do { d \<leftarrow> wr d 0 NUL; Some (0, Some d) }
           else do {
           let header_length = nat written;
           if cap - header_length < 3 \<or> n > cap - header_length - 3 then do {
             d \<leftarrow> wr d 0 NUL;
             Some (0, Some d) }
           else do {
             d \<leftarrow> (if n \<noteq> 0 then do { src \<leftarrow> s;
                     if length src < n then None else memcpy d header_length (take n src) }
                  else Some d);
             d \<leftarrow> wr d (header_length + n) CR;
             d \<leftarrow> wr d (header_length + n + 1) LF;
             d \<leftarrow> wr d (header_length + n + 2) NUL;
             Some (header_length + n + 2, Some d) } } })"

definition ks_fmt_nil :: "bytes option \<Rightarrow> nat \<Rightarrow> (nat \<times> bytes option) option" where
  "ks_fmt_nil dst cap =
     (let nil = ''$-1'' @ [CR, LF, NUL] in
      case dst of None \<Rightarrow> Some (0, dst)
      | Some d \<Rightarrow>
          if cap < length nil then
            (if cap \<noteq> 0 then do { d \<leftarrow> wr d 0 NUL; Some (0, Some d) } else Some (0, dst))
          else do { d \<leftarrow> memcpy d 0 nil; Some (length nil - 1, Some d) })"

definition ks_fmt_array_header :: "bytes option \<Rightarrow> nat \<Rightarrow> nat \<Rightarrow> (nat \<times> bytes option) option" where
  "ks_fmt_array_header dst cap n = (case dst of None \<Rightarrow> Some (0, dst)
     | Some d \<Rightarrow> if cap = 0 then Some (0, dst)
         else map_option (apsnd Some) (snprintf_or_empty d cap (''*'' @ fmt_nat n @ [CR, LF])))"

section \<open>Specification\<close>

text \<open>The string at index \<open>i\<close> of a buffer is \<open>s\<close>.\<close>

definition cstr_at :: "bytes \<Rightarrow> nat \<Rightarrow> string \<Rightarrow> bool" where
  "cstr_at buf i s \<longleftrightarrow> take (length s + 1) (drop i buf) = s @ [NUL] \<and> NUL \<notin> set s"

text \<open>
  The grammar of requests. \<open>unquote\<close> reads the rest of a quoted argument, up to and
  including the closing quote; \<open>next_word\<close> reads one argument at the start of its input.
\<close>

fun unquote :: "string \<Rightarrow> (string \<times> string) option" where
  "unquote [] = None"
| "unquote (c # cs) =
     (if c = DQUOTE then Some ([], cs)
      else if c = BSLASH then
        (case cs of [] \<Rightarrow> None
         | d # ds \<Rightarrow> if d = DQUOTE \<or> d = BSLASH then map_option (apfst ((#) d)) (unquote ds) else None)
      else map_option (apfst ((#) c)) (unquote cs))"

definition next_word :: "string \<Rightarrow> (string \<times> string) option" where
  "next_word s =
     (case s of c # cs \<Rightarrow>
        if c = DQUOTE then
          (case unquote cs of None \<Rightarrow> None
           | Some (w, rest) \<Rightarrow> if rest = [] \<or> is_separator (hd rest) then Some (w, rest) else None)
        else
          (let w = takeWhile (\<lambda>c. \<not> is_separator c) s
           in if DQUOTE \<in> set w then None else Some (w, drop (length w) s))
      | [] \<Rightarrow> None)"

lemma unquote_shorter: "unquote s = Some (w, rest) \<Longrightarrow> length rest < length s"
  by (induction s arbitrary: w rest rule: unquote.induct)
    (fastforce split: if_splits list.splits)+

lemma next_word_shorter:
  assumes "next_word s = Some (w, rest)" "s \<noteq> []" "\<not> is_separator (hd s)"
  shows "length rest < length s"
  using assms unquote_shorter [of "tl s"]
  by (cases s) (force simp: next_word_def Let_def split: if_splits option.splits)+

text \<open>All the arguments of a line.\<close>

function words :: "string \<Rightarrow> string list option" where
  "words s =
     (let t = dropWhile is_separator s in
      if t = [] then Some []
      else case next_word t of None \<Rightarrow> None
           | Some (w, rest) \<Rightarrow> map_option ((#) w) (words rest))"
  by pat_completeness auto
termination
proof (relation "measure length")
  fix s t x w rest
  assume a: "t = dropWhile is_separator s" "t \<noteq> []" "next_word t = Some x" "(w, rest) = x"
  from a(1,2) have "\<not> is_separator (hd t)" by (metis hd_dropWhile)
  with a next_word_shorter [of t w rest] have "length rest < length t" by auto
  then show "(rest, s) \<in> measure length"
    using a(1) length_dropWhile_le [of is_separator s] by simp
qed simp

declare words.simps [simp del]

definition trimmed :: "string \<Rightarrow> string" where
  "trimmed s = rev (dropWhile (\<lambda>c. c = LF \<or> c = CR) (rev s))"

definition parse_spec :: "string \<Rightarrow> (string \<times> string list) option" where
  "parse_spec s =
     (if length s > KS_MAX_REQUEST + 2 \<or> length (trimmed s) > KS_MAX_REQUEST then None
      else case words (trimmed s) of
        Some (cmd # args) \<Rightarrow>
          if cmd = [] \<or> length args > KS_MAX_ARGS then None else Some (map c_toupper cmd, args)
      | _ \<Rightarrow> None)"

text \<open>A request in which every argument is quoted.\<close>

fun escape :: "string \<Rightarrow> string" where
  "escape [] = []"
| "escape (c # cs) = (if c = DQUOTE \<or> c = BSLASH then BSLASH # c # escape cs else c # escape cs)"

definition quote :: "string \<Rightarrow> string" where
  "quote s = DQUOTE # escape s @ [DQUOTE]"

fun render :: "string list \<Rightarrow> string" where
  "render [] = []"
| "render (w # ws) = quote w @ (if ws = [] then [] else SP # render ws)"

text \<open>What a formatter leaves for a response \<open>text\<close>.\<close>

definition emits :: "(nat \<times> bytes option) option \<Rightarrow> bytes \<Rightarrow> nat \<Rightarrow> string \<Rightarrow> bool" where
  "emits r dst cap text \<longleftrightarrow>
     (if length text < cap
      then r = Some (length text, Some (text @ NUL # drop (length text + 1) dst))
      else \<exists>d. r = Some (0, Some d) \<and> length d = length dst \<and> (cap \<noteq> 0 \<longrightarrow> hd d = NUL))"

end
