(* ===== verification/Kessel_Pubsub.thy ===== *)
theory Kessel_Pubsub
  imports Kessel_C
begin

text \<open>
  \<^verbatim>\<open>src/src/ks_pubsub.c\<close>, \<^verbatim>\<open>src/include/ks_pubsub.h\<close>: the subscription registry.
  Its linked lists of channels and subscribers are lists; the pointers to links that the code
  moves along while it searches are the recursion on these lists. Memory that is given back
  is recorded as a list of the freed objects. The delivery callback works on a context of its
  own, the state of the server, and may not touch the registry.

  The lemmas show that the registry is a set of (channel, client) pairs: each operation is its
  counterpart on that set, the counters are its exact sizes, no channel is left without a
  subscriber, and a published message is handed once to each subscriber of its channel.
\<close>

section \<open>Data\<close>

type_synonym ks_pubsub_client_id = u64

record ks_pubsub_channel =
  ch_name :: string
  ch_subscribers :: "ks_pubsub_client_id list"

record ks_pubsub =
  ps_channels :: "ks_pubsub_channel list"
  ps_channel_count :: u64
  ps_subscription_count :: u64

datatype ks_pubsub_status =
    KS_PUBSUB_OK
  | KS_PUBSUB_ALREADY_SUBSCRIBED
  | KS_PUBSUB_NOT_SUBSCRIBED
  | KS_PUBSUB_NO_MEMORY
  | KS_PUBSUB_INVALID_ARGUMENT

datatype ps_free =
    Free_Subscriber string ks_pubsub_client_id
  | Free_Channel_Name string
  | Free_Channel string
  | Free_Registry

text \<open>Sizes of the structs: two, three and three 8-byte words.\<close>

definition sizeof_subscriber :: nat where "sizeof_subscriber = 16"
definition sizeof_channel :: nat where "sizeof_channel = 24"
definition sizeof_ks_pubsub :: nat where "sizeof_ks_pubsub = 24"

section \<open>Operations\<close>

fun find_channel :: "ks_pubsub_channel list \<Rightarrow> string \<Rightarrow> ks_pubsub_channel option" where
  "find_channel [] channel = None"
| "find_channel (current # rest) channel =
     (if c_strcmp (ch_name current) channel = 0 then Some current else find_channel rest channel)"

definition copy_string :: "allocator \<Rightarrow> string \<Rightarrow> string option" where
  "copy_string al source = (if c_malloc al Site_channel_name (length source + 1) then Some source else None)"

definition destroy_channel :: "ks_pubsub_channel \<Rightarrow> ps_free list" where
  "destroy_channel channel =
     map (Free_Subscriber (ch_name channel)) (ch_subscribers channel) @
     [Free_Channel_Name (ch_name channel), Free_Channel (ch_name channel)]"

definition ks_pubsub_create :: "allocator \<Rightarrow> ks_pubsub option" where
  "ks_pubsub_create al =
     (if c_calloc al Site_pubsub 1 sizeof_ks_pubsub
      then Some \<lparr>ps_channels = [], ps_channel_count = 0, ps_subscription_count = 0\<rparr> else None)"

definition ks_pubsub_destroy :: "ks_pubsub option \<Rightarrow> ps_free list" where
  "ks_pubsub_destroy pubsub = (case pubsub of None \<Rightarrow> []
     | Some p \<Rightarrow> concat (map destroy_channel (ps_channels p)) @ [Free_Registry])"

text \<open>A write through the pointer that \<open>find_channel\<close> returned.\<close>

fun set_subscribers ::
    "ks_pubsub_channel list \<Rightarrow> string \<Rightarrow> ks_pubsub_client_id list \<Rightarrow> ks_pubsub_channel list" where
  "set_subscribers [] channel subs = []"
| "set_subscribers (current # rest) channel subs =
     (if c_strcmp (ch_name current) channel = 0 then current\<lparr>ch_subscribers := subs\<rparr> # rest
      else current # set_subscribers rest channel subs)"

definition ks_pubsub_subscribe ::
    "allocator \<Rightarrow> ks_pubsub option \<Rightarrow> string option \<Rightarrow> ks_pubsub_client_id \<Rightarrow>
     ks_pubsub_status \<times> ks_pubsub option" where
  "ks_pubsub_subscribe al pubsub channel client_id =
     (case (pubsub, channel) of
        (Some p, Some ch) \<Rightarrow>
          if ch = [] then (KS_PUBSUB_INVALID_ARGUMENT, pubsub)
          else (case find_channel (ps_channels p) ch of
            Some existing_channel \<Rightarrow>
              if client_id \<in> set (ch_subscribers existing_channel)
              then (KS_PUBSUB_ALREADY_SUBSCRIBED, pubsub)
              else if \<not> c_malloc al Site_subscriber sizeof_subscriber
              then (KS_PUBSUB_NO_MEMORY, pubsub)
              else (KS_PUBSUB_OK, Some (p\<lparr>
                ps_channels := set_subscribers (ps_channels p) ch
                  (client_id # ch_subscribers existing_channel),
                ps_subscription_count := ps_subscription_count p + 1\<rparr>))
          | None \<Rightarrow>
              (case copy_string al ch of
                 Some channel_name \<Rightarrow>
                   if \<not> c_malloc al Site_new_channel sizeof_channel \<or>
                      \<not> c_malloc al Site_subscriber sizeof_subscriber
                   then (KS_PUBSUB_NO_MEMORY, pubsub)
                   else (KS_PUBSUB_OK, Some (p\<lparr>
                     ps_channels :=
                       \<lparr>ch_name = channel_name, ch_subscribers = [client_id]\<rparr> # ps_channels p,
                     ps_channel_count := ps_channel_count p + 1,
                     ps_subscription_count := ps_subscription_count p + 1\<rparr>))
               | None \<Rightarrow> (KS_PUBSUB_NO_MEMORY, pubsub)))
      | _ \<Rightarrow> (KS_PUBSUB_INVALID_ARGUMENT, pubsub))"

text \<open>The search along the subscriber links: the list without the client, \<open>None\<close> at its end.\<close>

fun unlink_subscriber ::
    "ks_pubsub_client_id list \<Rightarrow> ks_pubsub_client_id \<Rightarrow> ks_pubsub_client_id list option" where
  "unlink_subscriber [] client_id = None"
| "unlink_subscriber (s # rest) client_id =
     (if s = client_id then Some rest else map_option ((#) s) (unlink_subscriber rest client_id))"

text \<open>
  The search along the channel links: the channels after the removal, whether the channel was
  destroyed, and what was freed.
\<close>

fun unsubscribe_from ::
    "ks_pubsub_channel list \<Rightarrow> string \<Rightarrow> ks_pubsub_client_id \<Rightarrow>
     (ks_pubsub_channel list \<times> bool \<times> ps_free list) option" where
  "unsubscribe_from [] channel client_id = None"
| "unsubscribe_from (current # rest) channel client_id =
     (if c_strcmp (ch_name current) channel \<noteq> 0
      then map_option (apfst ((#) current)) (unsubscribe_from rest channel client_id)
      else case unlink_subscriber (ch_subscribers current) client_id of
        None \<Rightarrow> None
      | Some subs \<Rightarrow>
          let matched = current\<lparr>ch_subscribers := subs\<rparr>;
              removed = [Free_Subscriber (ch_name current) client_id] in
          if subs = [] then Some (rest, True, removed @ destroy_channel matched)
          else Some (matched # rest, False, removed))"

definition ks_pubsub_unsubscribe ::
    "ks_pubsub option \<Rightarrow> string option \<Rightarrow> ks_pubsub_client_id \<Rightarrow>
     ks_pubsub_status \<times> ks_pubsub option \<times> ps_free list" where
  "ks_pubsub_unsubscribe pubsub channel client_id =
     (case (pubsub, channel) of
        (Some p, Some ch) \<Rightarrow>
          if ch = [] then (KS_PUBSUB_INVALID_ARGUMENT, pubsub, [])
          else (case unsubscribe_from (ps_channels p) ch client_id of
            None \<Rightarrow> (KS_PUBSUB_NOT_SUBSCRIBED, pubsub, [])
          | Some (channels, emptied, freed) \<Rightarrow>
              (KS_PUBSUB_OK, Some (p\<lparr>
                 ps_channels := channels,
                 ps_subscription_count := ps_subscription_count p - 1,
                 ps_channel_count := (if emptied then ps_channel_count p - 1 else ps_channel_count p)\<rparr>),
               freed))
      | _ \<Rightarrow> (KS_PUBSUB_INVALID_ARGUMENT, pubsub, []))"

text \<open>
  The loop of \<open>ks_pubsub_remove_client\<close>: the channels that remain, \<open>removed_count\<close>, the
  two counters, and what was freed.
\<close>

fun remove_client_from ::
    "ks_pubsub_channel list \<Rightarrow> ks_pubsub_client_id \<Rightarrow> u64 \<Rightarrow> u64 \<Rightarrow> u64 \<Rightarrow>
     ks_pubsub_channel list \<times> u64 \<times> u64 \<times> u64 \<times> ps_free list" where
  "remove_client_from [] client_id removed subscriptions channels =
     ([], removed, subscriptions, channels, [])"
| "remove_client_from (channel # rest) client_id removed subscriptions channels =
     (let found = unlink_subscriber (ch_subscribers channel) client_id;
          subs = (case found of None \<Rightarrow> ch_subscribers channel | Some ss \<Rightarrow> ss);
          removed = (if found = None then removed else removed + 1);
          subscriptions = (if found = None then subscriptions else subscriptions - 1);
          freed = (if found = None then [] else [Free_Subscriber (ch_name channel) client_id]);
          channel = channel\<lparr>ch_subscribers := subs\<rparr>
      in if subs = [] then
           let (cs, n, s, c, ev) = remove_client_from rest client_id removed subscriptions (channels - 1)
           in (cs, n, s, c, freed @ destroy_channel channel @ ev)
         else
           let (cs, n, s, c, ev) = remove_client_from rest client_id removed subscriptions channels
           in (channel # cs, n, s, c, freed @ ev))"

definition ks_pubsub_remove_client ::
    "ks_pubsub option \<Rightarrow> ks_pubsub_client_id \<Rightarrow> u64 \<times> ks_pubsub option \<times> ps_free list" where
  "ks_pubsub_remove_client pubsub client_id =
     (case pubsub of None \<Rightarrow> (0, pubsub, [])
      | Some p \<Rightarrow>
          let (cs, n, s, c, ev) = remove_client_from (ps_channels p) client_id 0
                (ps_subscription_count p) (ps_channel_count p)
          in (n, Some (p\<lparr>ps_channels := cs, ps_subscription_count := s, ps_channel_count := c\<rparr>), ev))"

type_synonym 'c delivery_fn =
  "ks_pubsub_client_id \<Rightarrow> string \<Rightarrow> bytes option \<Rightarrow> u64 \<Rightarrow> 'c \<Rightarrow> (bool \<times> 'c) option"

fun publish_loop ::
    "'c delivery_fn \<Rightarrow> ks_pubsub_client_id list \<Rightarrow> string \<Rightarrow> bytes option \<Rightarrow> u64 \<Rightarrow> 'c \<Rightarrow> u64 \<Rightarrow>
     (u64 \<times> 'c) option" where
  "publish_loop deliver [] name message message_length context recipients = Some (recipients, context)"
| "publish_loop deliver (subscriber # rest) name message message_length context recipients = do {
     (accepted, context) \<leftarrow> deliver subscriber name message message_length context;
     publish_loop deliver rest name message message_length context
       (if accepted then recipients + 1 else recipients) }"

definition ks_pubsub_publish ::
    "ks_pubsub option \<Rightarrow> string option \<Rightarrow> bytes option \<Rightarrow> u64 \<Rightarrow> 'c delivery_fn option \<Rightarrow> 'c \<Rightarrow>
     (u64 \<times> 'c) option" where
  "ks_pubsub_publish pubsub channel message message_length deliver context =
     (case (pubsub, channel, deliver) of
        (Some p, Some ch, Some d) \<Rightarrow>
          if ch = [] \<or> message = None \<and> message_length \<noteq> 0 then Some (0, context)
          else (case find_channel (ps_channels p) ch of
            None \<Rightarrow> Some (0, context)
          | Some matched \<Rightarrow>
              publish_loop d (ch_subscribers matched) (ch_name matched) message message_length context 0)
      | _ \<Rightarrow> Some (0, context))"

definition ks_pubsub_channel_count :: "ks_pubsub option \<Rightarrow> u64" where
  "ks_pubsub_channel_count pubsub = (case pubsub of None \<Rightarrow> 0 | Some p \<Rightarrow> ps_channel_count p)"

definition ks_pubsub_subscription_count :: "ks_pubsub option \<Rightarrow> u64" where
  "ks_pubsub_subscription_count pubsub = (case pubsub of None \<Rightarrow> 0 | Some p \<Rightarrow> ps_subscription_count p)"

section \<open>Specification\<close>

definition members :: "ks_pubsub_channel list \<Rightarrow> (string \<times> ks_pubsub_client_id) set" where
  "members chs = {(n, i). \<exists>c \<in> set chs. ch_name c = n \<and> i \<in> set (ch_subscribers c)}"

definition ps_members :: "ks_pubsub \<Rightarrow> (string \<times> ks_pubsub_client_id) set" where
  "ps_members p = members (ps_channels p)"

definition chs_inv :: "ks_pubsub_channel list \<Rightarrow> bool" where
  "chs_inv chs \<longleftrightarrow> distinct (map ch_name chs) \<and>
     (\<forall>c \<in> set chs. ch_name c \<noteq> [] \<and> ch_subscribers c \<noteq> [] \<and> distinct (ch_subscribers c))"

definition ps_inv :: "ks_pubsub \<Rightarrow> bool" where
  "ps_inv p \<longleftrightarrow> chs_inv (ps_channels p) \<and>
     ps_channel_count p = of_nat (card (fst ` ps_members p)) \<and>
     ps_subscription_count p = of_nat (card (ps_members p))"

section \<open>Membership of a channel list\<close>

lemma members_Nil [simp]: "members [] = {}"
  by (simp add: members_def)

lemma members_Cons: "members (c # chs) = Pair (ch_name c) ` set (ch_subscribers c) \<union> members chs"
  by (auto simp: members_def)

lemma chs_inv_Cons: "chs_inv (c # chs) \<longleftrightarrow> ch_name c \<notin> ch_name ` set chs \<and> ch_name c \<noteq> [] \<and>
    ch_subscribers c \<noteq> [] \<and> distinct (ch_subscribers c) \<and> chs_inv chs"
  by (auto simp: chs_inv_def)

lemma finite_members [simp]: "finite (members chs)"
  by (induction chs) (simp_all add: members_Cons)

lemma members_name: "(n, i) \<in> members chs \<Longrightarrow> n \<in> ch_name ` set chs"
  by (auto simp: members_def)

lemma fst_members: "chs_inv chs \<Longrightarrow> fst ` members chs = ch_name ` set chs"
proof (induction chs)
  case (Cons c chs)
  then have "set (ch_subscribers c) \<noteq> {}" by (simp add: chs_inv_Cons)
  then have "fst ` Pair (ch_name c) ` set (ch_subscribers c) = {ch_name c}"
    by (simp add: image_image image_constant_conv)
  with Cons show ?case by (simp add: members_Cons chs_inv_Cons image_Un)
qed simp

lemma find_channel_None: "find_channel chs n = None \<longleftrightarrow> n \<notin> ch_name ` set chs"
  by (induction chs) auto

lemma find_channel_Some:
  assumes "find_channel chs n = Some c" "chs_inv chs"
  shows "ch_name c = n" "c \<in> set chs" "i \<in> set (ch_subscribers c) \<longleftrightarrow> (n, i) \<in> members chs"
    "distinct (ch_subscribers c)"
proof -
  show "ch_name c = n" "c \<in> set chs" "distinct (ch_subscribers c)"
    using assms by (induction chs) (auto simp: chs_inv_Cons split: if_splits)
  show "i \<in> set (ch_subscribers c) \<longleftrightarrow> (n, i) \<in> members chs"
    using assms
    by (induction chs) (auto simp: chs_inv_Cons members_Cons dest: members_name split: if_splits)
qed

lemma set_subscribers_names [simp]: "map ch_name (set_subscribers chs n subs) = map ch_name chs"
  by (induction chs) simp_all

lemma set_subscribers_members:
  assumes "chs_inv chs" "n \<in> ch_name ` set chs"
  shows "members (set_subscribers chs n subs) = {p \<in> members chs. fst p \<noteq> n} \<union> Pair n ` set subs"
  using assms
proof (induction chs)
  case (Cons c chs)
  show ?case
  proof (cases "ch_name c = n")
    case True
    with Cons.prems have "{p \<in> members chs. fst p \<noteq> n} = members chs"
      by (auto simp: chs_inv_Cons dest: members_name)
    with True show ?thesis by (auto simp: members_Cons)
  next
    case False
    with Cons show ?thesis by (auto simp: members_Cons chs_inv_Cons)
  qed
qed simp

lemma set_subscribers_inv:
  assumes "chs_inv chs" "subs \<noteq> []" "distinct subs"
  shows "chs_inv (set_subscribers chs n subs)"
  using assms
proof (induction chs)
  case (Cons c chs)
  have "ch_name ` set (set_subscribers chs n subs) = ch_name ` set chs"
    by (metis set_map set_subscribers_names)
  with Cons show ?case by (auto simp: chs_inv_Cons)
qed (simp add: chs_inv_def)

lemma unlink_subscriber_spec:
  assumes "distinct subs"
  shows "(case unlink_subscriber subs i of
      None \<Rightarrow> i \<notin> set subs
    | Some ss \<Rightarrow> i \<in> set subs \<and> set ss = set subs - {i} \<and> distinct ss)"
  using assms by (induction subs) (auto split: option.splits)

lemma unsubscribe_from_spec:
  assumes "chs_inv chs"
  shows "case unsubscribe_from chs n i of
      None \<Rightarrow> (n, i) \<notin> members chs
    | Some (chs', emptied, ev) \<Rightarrow> (n, i) \<in> members chs \<and> chs_inv chs' \<and>
        members chs' = members chs - {(n, i)} \<and>
        ch_name ` set chs' = (if emptied then ch_name ` set chs - {n} else ch_name ` set chs)"
  using assms
proof (induction chs)
  case (Cons c chs)
  note inv = Cons.prems [unfolded chs_inv_Cons]
  show ?case
  proof (cases "ch_name c = n")
    case False
    have IH: "case unsubscribe_from chs n i of
        None \<Rightarrow> (n, i) \<notin> members chs
      | Some (chs', emptied, ev) \<Rightarrow> (n, i) \<in> members chs \<and> chs_inv chs' \<and>
          members chs' = members chs - {(n, i)} \<and>
          ch_name ` set chs' = (if emptied then ch_name ` set chs - {n} else ch_name ` set chs)"
      using Cons.IH inv by blast
    show ?thesis
    proof (cases "unsubscribe_from chs n i")
      case None
      with IH False show ?thesis by (auto simp: members_Cons)
    next
      case (Some r)
      obtain chs' e ev where r: "r = (chs', e, ev)" by (cases r)
      with IH Some have IH': "(n, i) \<in> members chs" "chs_inv chs'" "members chs' = members chs - {(n, i)}"
        "ch_name ` set chs' = (if e then ch_name ` set chs - {n} else ch_name ` set chs)" by simp_all
      have "chs_inv (c # chs')" using inv IH'(2,4) by (auto simp: chs_inv_Cons split: if_splits)
      moreover have "members (c # chs') = members (c # chs) - {(n, i)}"
        using IH'(3) False by (auto simp: members_Cons)
      ultimately show ?thesis
        using Some r IH' False by (auto simp: members_Cons)
    qed
  next
    case True
    have none: "(n, j) \<notin> members chs" for j using inv True by (auto dest: members_name)
    show ?thesis
    proof (cases "unlink_subscriber (ch_subscribers c) i")
      case None
      with unlink_subscriber_spec [of "ch_subscribers c" i] inv True none show ?thesis
        by (auto simp: members_Cons)
    next
      case (Some ss)
      with unlink_subscriber_spec [of "ch_subscribers c" i] inv
      have ss: "i \<in> set (ch_subscribers c)" "set ss = set (ch_subscribers c) - {i}" "distinct ss" by auto
      let ?c = "c\<lparr>ch_subscribers := ss\<rparr>"
      have m: "Pair n ` set ss \<union> members chs = members (c # chs) - {(n, i)}"
        using ss(2) none True by (auto simp: members_Cons)
      show ?thesis
      proof (cases "ss = []")
        case empty: True
        with m have "members chs = members (c # chs) - {(n, i)}" by simp
        with empty Some True ss(1) inv show ?thesis by (auto simp: members_Cons)
      next
        case False
        have "chs_inv (?c # chs)" using inv ss(3) False by (simp add: chs_inv_Cons)
        moreover have "members (?c # chs) = members (c # chs) - {(n, i)}"
          using m True by (simp add: members_Cons)
        ultimately show ?thesis
          using Some False True ss(1) by (auto simp: members_Cons Let_def)
      qed
    qed
  qed
qed simp

lemma members_without: "{p \<in> members (c # chs). snd p \<noteq> i} =
    Pair (ch_name c) ` (set (ch_subscribers c) - {i}) \<union> {p \<in> members chs. snd p \<noteq> i}"
proof -
  have "{p \<in> Pair n ` S. snd p \<noteq> i} = Pair n ` (S - {i})" for n :: string and S by force
  then show ?thesis unfolding members_Cons by blast
qed

lemma remove_client_from_spec:
  assumes "chs_inv chs"
  shows "\<exists>chs' ev. remove_client_from chs i r s c =
      (chs', r + of_nat (card {p \<in> members chs. snd p = i}),
       s - of_nat (card {p \<in> members chs. snd p = i}),
       c - of_nat (card (ch_name ` set chs) - card (ch_name ` set chs')), ev) \<and>
    chs_inv chs' \<and> members chs' = {p \<in> members chs. snd p \<noteq> i} \<and>
    ch_name ` set chs' \<subseteq> ch_name ` set chs"
  using assms
proof (induction chs arbitrary: r s c)
  case Nil
  then show ?case by (simp add: chs_inv_def)
next
  case (Cons ch chs)
  note inv = Cons.prems [unfolded chs_inv_Cons]
  let ?u = "unlink_subscriber (ch_subscribers ch) i"
  let ?hit = "\<lambda>chs. {p \<in> members chs. snd p = i}"
  define ss where "ss = (case ?u of None \<Rightarrow> ch_subscribers ch | Some ss \<Rightarrow> ss)"
  define k :: nat where "k = (if ?u = None then 0 else 1)"
  from unlink_subscriber_spec [of "ch_subscribers ch" i] inv
  have ss: "set ss = set (ch_subscribers ch) - {i}" "distinct ss" "?u = None \<longleftrightarrow> i \<notin> set (ch_subscribers ch)"
    by (auto simp: ss_def split: option.splits)
  have hit: "?hit (ch # chs) = (if ?u = None then {} else {(ch_name ch, i)}) \<union> ?hit chs"
    using ss(3) by (auto simp: members_Cons)
  have "(ch_name ch, i) \<notin> ?hit chs" using inv by (auto dest: members_name)
  then have card: "card (?hit (ch # chs)) = k + card (?hit chs)"
    unfolding hit k_def by simp
  have keep: "{p \<in> members (ch # chs). snd p \<noteq> i} =
      Pair (ch_name ch) ` set ss \<union> {p \<in> members chs. snd p \<noteq> i}"
    unfolding ss(1) by (rule members_without)
  have names: "card (ch_name ` set (ch # chs)) = Suc (card (ch_name ` set chs))"
    using inv by simp
  let ?c' = "if ss = [] then c - 1 else c"
  from Cons.IH [of "r + of_nat k" "s - of_nat k" ?c'] inv obtain chs' ev where
    IH: "remove_client_from chs i (r + of_nat k) (s - of_nat k) ?c' =
        (chs', r + of_nat k + of_nat (card (?hit chs)), s - of_nat k - of_nat (card (?hit chs)),
         ?c' - of_nat (card (ch_name ` set chs) - card (ch_name ` set chs')), ev)"
      "chs_inv chs'" "members chs' = {p \<in> members chs. snd p \<noteq> i}"
      "ch_name ` set chs' \<subseteq> ch_name ` set chs" by blast
  have le: "card (ch_name ` set chs') \<le> card (ch_name ` set chs)"
    using IH(4) by (intro card_mono) simp_all
  let ?chs = "if ss = [] then chs' else ch\<lparr>ch_subscribers := ss\<rparr> # chs'"
  have run: "\<exists>ev. remove_client_from (ch # chs) i r s c =
      (?chs, r + of_nat k + of_nat (card (?hit chs)), s - of_nat k - of_nat (card (?hit chs)),
       ?c' - of_nat (card (ch_name ` set chs) - card (ch_name ` set chs')), ev)"
  proof -
    have "(if ?u = None then r else r + 1) = r + of_nat k" "(if ?u = None then s else s - 1) = s - of_nat k"
      by (simp_all add: k_def)
    with IH(1) show ?thesis
      by (cases "ss = []") (simp_all only: remove_client_from.simps Let_def ss_def [symmetric], simp_all)
  qed
  have new: "chs_inv ?chs" "members ?chs = {p \<in> members (ch # chs). snd p \<noteq> i}"
    "ch_name ` set ?chs \<subseteq> ch_name ` set (ch # chs)"
    using inv IH(2-4) ss(2) unfolding keep
    by (cases "ss = []"; auto simp: chs_inv_Cons members_Cons)+
  have fresh: "ch_name ch \<notin> ch_name ` set chs'" using inv IH(4) by auto
  have "?c' - of_nat (card (ch_name ` set chs) - card (ch_name ` set chs')) =
      c - of_nat (card (ch_name ` set (ch # chs)) - card (ch_name ` set ?chs))"
    unfolding names using le fresh by (cases "ss = []") (simp_all add: Suc_diff_le)
  with run obtain ev' where "remove_client_from (ch # chs) i r s c =
      (?chs, r + of_nat k + of_nat (card (?hit chs)), s - of_nat k - of_nat (card (?hit chs)),
       c - of_nat (card (ch_name ` set (ch # chs)) - card (ch_name ` set ?chs)), ev')" by auto
  then have "remove_client_from (ch # chs) i r s c =
      (?chs, r + of_nat (card (?hit (ch # chs))), s - of_nat (card (?hit (ch # chs))),
       c - of_nat (card (ch_name ` set (ch # chs)) - card (ch_name ` set ?chs)), ev')"
    unfolding card by (simp only: of_nat_add add.assoc diff_diff_eq)
  with new show ?case by (intro exI [of _ ?chs] exI [of _ ev'] conjI)
qed

section \<open>The operations on the set of members\<close>

lemma ps_invD:
  assumes "ps_inv p"
  shows "chs_inv (ps_channels p)" "ps_channel_count p = of_nat (card (ch_name ` set (ps_channels p)))"
    "ps_subscription_count p = of_nat (card (members (ps_channels p)))"
  using assms fst_members [of "ps_channels p"] by (auto simp: ps_inv_def ps_members_def)

lemma ps_invI:
  assumes "chs_inv (ps_channels p)" "ps_channel_count p = of_nat (card (ch_name ` set (ps_channels p)))"
    "ps_subscription_count p = of_nat (card (members (ps_channels p)))"
  shows "ps_inv p"
  using assms fst_members [of "ps_channels p"] by (auto simp: ps_inv_def ps_members_def)

lemma subscribe_spec:
  assumes inv: "ps_inv p" and ch: "ch \<noteq> []"
  shows "\<exists>st p'. ks_pubsub_subscribe al (Some p) (Some ch) i = (st, Some p') \<and> ps_inv p' \<and>
    (st = KS_PUBSUB_OK \<and> (ch, i) \<notin> ps_members p \<and> ps_members p' = insert (ch, i) (ps_members p) \<or>
     st = KS_PUBSUB_ALREADY_SUBSCRIBED \<and> (ch, i) \<in> ps_members p \<and> p' = p \<or>
     st = KS_PUBSUB_NO_MEMORY \<and> (ch, i) \<notin> ps_members p \<and> p' = p \<and>
       \<not> (c_malloc al Site_channel_name (length ch + 1) \<and> c_malloc al Site_new_channel sizeof_channel \<and>
          c_malloc al Site_subscriber sizeof_subscriber))"
proof -
  note i = ps_invD [OF inv]
  let ?chs = "ps_channels p"
  show ?thesis
  proof (cases "find_channel ?chs ch")
    case None
    then have new: "ch \<notin> ch_name ` set ?chs" by (simp add: find_channel_None)
    then have "(ch, i) \<notin> members ?chs" by (auto dest: members_name)
    moreover let ?c = "\<lparr>ch_name = ch, ch_subscribers = [i]\<rparr>"
    have "ps_inv (p\<lparr>ps_channels := ?c # ?chs, ps_channel_count := ps_channel_count p + 1,
        ps_subscription_count := ps_subscription_count p + 1\<rparr>)"
      using i new ch calculation by (intro ps_invI) (simp_all add: chs_inv_Cons members_Cons add.commute)
    ultimately show ?thesis
      using None ch inv
      by (auto simp: ks_pubsub_subscribe_def copy_string_def ps_members_def members_Cons)
  next
    case (Some c)
    note c = find_channel_Some [OF Some i(1)]
    have n: "ch \<in> ch_name ` set ?chs" using c by auto
    let ?chs' = "set_subscribers ?chs ch (i # ch_subscribers c)"
    have m: "members ?chs' = insert (ch, i) (members ?chs)"
      using c(3) unfolding set_subscribers_members [OF i(1) n] by auto
    have names: "ch_name ` set ?chs' = ch_name ` set ?chs" by (metis set_map set_subscribers_names)
    have "ps_inv (p\<lparr>ps_channels := ?chs', ps_subscription_count := ps_subscription_count p + 1\<rparr>)"
      if "i \<notin> set (ch_subscribers c)"
      using i c(3,4) that set_subscribers_inv [OF i(1), of "i # ch_subscribers c" ch]
      by (intro ps_invI) (simp_all add: m names add.commute)
    then show ?thesis
      using Some ch inv c(3) by (auto simp: ks_pubsub_subscribe_def ps_members_def m)
  qed
qed

lemma unsubscribe_spec:
  assumes inv: "ps_inv p" and ch: "ch \<noteq> []"
  shows "\<exists>st p' ev. ks_pubsub_unsubscribe (Some p) (Some ch) i = (st, Some p', ev) \<and> ps_inv p' \<and>
    ps_members p' = ps_members p - {(ch, i)} \<and>
    st = (if (ch, i) \<in> ps_members p then KS_PUBSUB_OK else KS_PUBSUB_NOT_SUBSCRIBED)"
proof -
  note i = ps_invD [OF inv]
  let ?chs = "ps_channels p"
  note spec = unsubscribe_from_spec [OF i(1), of ch i]
  show ?thesis
  proof (cases "unsubscribe_from ?chs ch i")
    case None
    with spec inv ch show ?thesis by (simp add: ks_pubsub_unsubscribe_def ps_members_def)
  next
    case (Some r)
    obtain chs' e ev where r: "r = (chs', e, ev)" by (cases r)
    with spec Some have s: "(ch, i) \<in> members ?chs" "chs_inv chs'" "members chs' = members ?chs - {(ch, i)}"
      "ch_name ` set chs' = (if e then ch_name ` set ?chs - {ch} else ch_name ` set ?chs)" by simp_all
    let ?p = "p\<lparr>ps_channels := chs', ps_subscription_count := ps_subscription_count p - 1,
      ps_channel_count := (if e then ps_channel_count p - 1 else ps_channel_count p)\<rparr>"
    have cm: "of_nat (card (members chs')) = (of_nat (card (members ?chs)) :: u64) - 1"
      using s(1) card_gt_0_iff [of "members ?chs"] unfolding s(3)
      by (auto simp: card_Diff_singleton of_nat_diff)
    have "ch \<in> ch_name ` set ?chs" using s(1) by (rule members_name)
    then have "of_nat (card (ch_name ` set ?chs - {ch})) = (of_nat (card (ch_name ` set ?chs)) :: u64) - 1"
      using card_gt_0_iff [of "ch_name ` set ?chs"] by (auto simp: card_Diff_singleton of_nat_diff)
    then have "ps_inv ?p" using i s(2,4) cm by (intro ps_invI) auto
    with s Some r ch show ?thesis by (simp add: ks_pubsub_unsubscribe_def ps_members_def)
  qed
qed

lemma remove_client_spec:
  assumes inv: "ps_inv p"
  shows "\<exists>p' ev. ks_pubsub_remove_client (Some p) i =
      (of_nat (card {q \<in> ps_members p. snd q = i}), Some p', ev) \<and> ps_inv p' \<and>
    ps_members p' = {q \<in> ps_members p. snd q \<noteq> i}"
proof -
  note i = ps_invD [OF inv]
  let ?chs = "ps_channels p" and ?hit = "{q \<in> members (ps_channels p). snd q = i}"
  from remove_client_from_spec [OF i(1), of i 0 "ps_subscription_count p" "ps_channel_count p"]
  obtain chs' ev where
    s: "remove_client_from ?chs i 0 (ps_subscription_count p) (ps_channel_count p) =
        (chs', 0 + of_nat (card ?hit), ps_subscription_count p - of_nat (card ?hit),
         ps_channel_count p - of_nat (card (ch_name ` set ?chs) - card (ch_name ` set chs')), ev)"
      "chs_inv chs'" "members chs' = {q \<in> members ?chs. snd q \<noteq> i}"
      "ch_name ` set chs' \<subseteq> ch_name ` set ?chs" by blast
  have cm: "card (members ?chs) = card (members chs') + card ?hit"
    unfolding s(3) by (rule card_filter_split) simp
  have cn: "card (ch_name ` set chs') \<le> card (ch_name ` set ?chs)"
    using s(4) by (intro card_mono) simp_all
  let ?p = "p\<lparr>ps_channels := chs', ps_subscription_count := ps_subscription_count p - of_nat (card ?hit),
    ps_channel_count := ps_channel_count p - of_nat (card (ch_name ` set ?chs) - card (ch_name ` set chs'))\<rparr>"
  have "ps_inv ?p" using i s(2) cm cn by (intro ps_invI) (simp_all add: of_nat_diff)
  with s show ?thesis by (simp add: ks_pubsub_remove_client_def ps_members_def)
qed

section \<open>Publishing\<close>

text \<open>The clients a message on a channel goes to, in order.\<close>

definition targets :: "ks_pubsub \<Rightarrow> string \<Rightarrow> ks_pubsub_client_id list" where
  "targets p ch = (case find_channel (ps_channels p) ch of None \<Rightarrow> [] | Some c \<Rightarrow> ch_subscribers c)"

lemma targets_spec:
  assumes "ps_inv p"
  shows "distinct (targets p ch)" "set (targets p ch) = {i. (ch, i) \<in> ps_members p}"
proof -
  note i = ps_invD(1) [OF assms]
  have "distinct (targets p ch) \<and> set (targets p ch) = {i. (ch, i) \<in> ps_members p}"
  proof (cases "find_channel (ps_channels p) ch")
    case None
    then have "(ch, j) \<notin> ps_members p" for j
      using members_name [of ch j] by (auto simp: find_channel_None ps_members_def)
    with None show ?thesis by (simp add: targets_def)
  next
    case (Some c)
    from find_channel_Some(3,4) [OF Some i] Some show ?thesis
      by (auto simp: targets_def ps_members_def)
  qed
  then show "distinct (targets p ch)" "set (targets p ch) = {i. (ch, i) \<in> ps_members p}" by simp_all
qed

lemma publish_targets:
  assumes inv: "ps_inv p" and ok: "ch \<noteq> []" "message = None \<longrightarrow> n = 0"
  shows "ks_pubsub_publish (Some p) (Some ch) message n (Some deliver) ctx =
    publish_loop deliver (targets p ch) ch message n ctx 0"
  using ok find_channel_Some(1) [OF _ ps_invD(1) [OF inv], of ch]
  by (auto simp: ks_pubsub_publish_def targets_def split: option.splits)

lemma publish_loop_log:
  "publish_loop (\<lambda>i ch m n log. Some (accept i, log @ [(i, ch, m, n)])) ids ch message n log r =
     Some (r + of_nat (length (filter accept ids)), log @ map (\<lambda>i. (i, ch, message, n)) ids)"
  by (induction ids arbitrary: log r) simp_all

section \<open>The registry as an interface\<close>

datatype ('a, 'n, 'i) reg_op = R_Sub 'a 'n 'i | R_Unsub 'n 'i | R_Drop 'i

locale registry =
  fixes invar :: "'s \<Rightarrow> bool"
    and mem :: "'s \<Rightarrow> ('n \<times> 'i) set"
    and sub :: "'a \<Rightarrow> 's \<Rightarrow> 'n \<Rightarrow> 'i \<Rightarrow> bool \<times> 's"
    and unsub :: "'s \<Rightarrow> 'n \<Rightarrow> 'i \<Rightarrow> bool \<times> 's"
    and leave :: "'s \<Rightarrow> 'i \<Rightarrow> 's"
    and receivers :: "'s \<Rightarrow> 'n \<Rightarrow> 'i list"
  assumes sub_law: "invar s \<Longrightarrow> sub al s n i = (ok, s') \<Longrightarrow>
        invar s' \<and> mem s' = (if ok then insert (n, i) (mem s) else mem s)"
    and unsub_law: "invar s \<Longrightarrow> unsub s n i = (ok, s') \<Longrightarrow>
        invar s' \<and> mem s' = mem s - {(n, i)} \<and> (ok \<longleftrightarrow> (n, i) \<in> mem s)"
    and leave_law: "invar s \<Longrightarrow> invar (leave s i) \<and> mem (leave s i) = {q \<in> mem s. snd q \<noteq> i}"
    and receivers_law: "invar s \<Longrightarrow> distinct (receivers s n) \<and> set (receivers s n) = {i. (n, i) \<in> mem s}"
begin

fun run :: "('a, 'n, 'i) reg_op list \<Rightarrow> 's \<Rightarrow> 's" where
  "run [] s = s"
| "run (R_Sub al n i # ops) s = run ops (snd (sub al s n i))"
| "run (R_Unsub n i # ops) s = run ops (snd (unsub s n i))"
| "run (R_Drop i # ops) s = run ops (leave s i)"

lemma run_invar:
  assumes "invar s" shows "invar (run ops s)"
  using assms
proof (induction ops s rule: run.induct)
  case (2 al n i ops s)
  then show ?case using sub_law [of s al n i] by (cases "sub al s n i") auto
next
  case (3 n i ops s)
  then show ?case using unsub_law [of s n i] by (cases "unsub s n i") auto
next
  case (4 i ops s)
  then show ?case using leave_law by simp
qed simp

lemma run_keeps:
  assumes "invar s" "(n, i) \<in> mem s" "R_Unsub n i \<notin> set ops" "R_Drop i \<notin> set ops"
  shows "(n, i) \<in> mem (run ops s)"
  using assms
proof (induction ops s rule: run.induct)
  case (2 al m j ops s)
  then show ?case using sub_law [of s al m j] by (cases "sub al s m j") (auto split: if_splits)
next
  case (3 m j ops s)
  then show ?case using unsub_law [of s m j] by (cases "unsub s m j") auto
next
  case (4 j ops s)
  then show ?case using leave_law by simp
qed simp

lemma run_stays_out:
  assumes "invar s" "(n, i) \<notin> mem s" "\<And>al. R_Sub al n i \<notin> set ops"
  shows "(n, i) \<notin> mem (run ops s)"
  using assms
proof (induction ops s rule: run.induct)
  case (2 al m j ops s)
  from "2.prems"(3) have "(m, j) \<noteq> (n, i)" by auto
  with 2 show ?case using sub_law [of s al m j] by (cases "sub al s m j") (auto split: if_splits)
next
  case (3 m j ops s)
  then show ?case using unsub_law [of s m j] by (cases "unsub s m j") auto
next
  case (4 j ops s)
  then show ?case using leave_law by simp
qed simp

text \<open>A subscriber receives each message of its channel once until it leaves.\<close>

lemma receives_after_sub:
  assumes "invar s" "sub al s n i = (True, s')" "R_Unsub n i \<notin> set ops" "R_Drop i \<notin> set ops"
  shows "count_list (receivers (run ops s') n) i = 1"
proof -
  from sub_law [OF assms(1,2)] have s': "invar s'" "(n, i) \<in> mem s'" by auto
  from run_keeps [OF this assms(3,4)] receivers_law [OF run_invar [OF s'(1)], of ops n]
  have "distinct (receivers (run ops s') n)" "i \<in> set (receivers (run ops s') n)" by auto
  then show ?thesis by (rule count_list_distinct)
qed

text \<open>A client that left receives nothing unless it subscribes again.\<close>

lemma nothing_after_leave:
  assumes "invar s" "\<And>al. R_Sub al n i \<notin> set ops"
  shows "i \<notin> set (receivers (run ops (leave s i)) n)"
proof -
  from leave_law [OF assms(1)] have s': "invar (leave s i)" "(n, i) \<notin> mem (leave s i)" by auto
  from run_stays_out [OF this assms(2)] receivers_law [OF run_invar [OF s'(1)], of ops n]
  show ?thesis by simp
qed

end

section \<open>The registry provides the interface\<close>

definition reg_sub :: "allocator \<Rightarrow> ks_pubsub \<Rightarrow> string \<Rightarrow> ks_pubsub_client_id \<Rightarrow> bool \<times> ks_pubsub" where
  "reg_sub al p ch i = (case ks_pubsub_subscribe al (Some p) (Some ch) i of
     (st, p') \<Rightarrow> (st = KS_PUBSUB_OK, case p' of None \<Rightarrow> p | Some q \<Rightarrow> q))"

definition reg_unsub :: "ks_pubsub \<Rightarrow> string \<Rightarrow> ks_pubsub_client_id \<Rightarrow> bool \<times> ks_pubsub" where
  "reg_unsub p ch i = (case ks_pubsub_unsubscribe (Some p) (Some ch) i of
     (st, p', ev) \<Rightarrow> (st = KS_PUBSUB_OK, case p' of None \<Rightarrow> p | Some q \<Rightarrow> q))"

definition reg_leave :: "ks_pubsub \<Rightarrow> ks_pubsub_client_id \<Rightarrow> ks_pubsub" where
  "reg_leave p i = (case ks_pubsub_remove_client (Some p) i of
     (n, p', ev) \<Rightarrow> (case p' of None \<Rightarrow> p | Some q \<Rightarrow> q))"

fun reg_run :: "(allocator, string, ks_pubsub_client_id) reg_op list \<Rightarrow> ks_pubsub \<Rightarrow> ks_pubsub" where
  "reg_run [] p = p"
| "reg_run (R_Sub al n i # ops) p = reg_run ops (snd (reg_sub al p n i))"
| "reg_run (R_Unsub n i # ops) p = reg_run ops (snd (reg_unsub p n i))"
| "reg_run (R_Drop i # ops) p = reg_run ops (reg_leave p i)"

lemma no_empty_name: "ps_inv p \<Longrightarrow> ([], i) \<notin> ps_members p"
  by (auto simp: ps_inv_def chs_inv_def ps_members_def members_def)

lemma reg_sub_spec:
  assumes inv: "ps_inv p" and sub: "reg_sub al p n i = (ok, p')"
  shows "ps_inv p' \<and> ps_members p' = (if ok then insert (n, i) (ps_members p) else ps_members p)"
proof (cases "n = []")
  case True
  with sub inv show ?thesis by (auto simp: reg_sub_def ks_pubsub_subscribe_def)
next
  case False
  from subscribe_spec [OF inv False, of al i] obtain st q where
    "ks_pubsub_subscribe al (Some p) (Some n) i = (st, Some q)" "ps_inv q"
    "st = KS_PUBSUB_OK \<and> ps_members q = insert (n, i) (ps_members p) \<or> st \<noteq> KS_PUBSUB_OK \<and> q = p" by auto
  with sub show ?thesis by (auto simp: reg_sub_def)
qed

lemma reg_unsub_spec:
  assumes inv: "ps_inv p" and unsub: "reg_unsub p n i = (ok, p')"
  shows "ps_inv p' \<and> ps_members p' = ps_members p - {(n, i)} \<and> (ok \<longleftrightarrow> (n, i) \<in> ps_members p)"
proof (cases "n = []")
  case True
  with unsub inv no_empty_name [OF inv, of i] show ?thesis
    by (simp add: reg_unsub_def ks_pubsub_unsubscribe_def)
next
  case False
  from unsubscribe_spec [OF inv False, of i] obtain q ev where
    q: "ks_pubsub_unsubscribe (Some p) (Some n) i =
      (if (n, i) \<in> ps_members p then KS_PUBSUB_OK else KS_PUBSUB_NOT_SUBSCRIBED, Some q, ev)"
      "ps_inv q" "ps_members q = ps_members p - {(n, i)}" by auto
  then have "reg_unsub p n i = ((n, i) \<in> ps_members p, q)" by (simp add: reg_unsub_def)
  with unsub q(2,3) show ?thesis by simp
qed

interpretation reg: registry ps_inv ps_members reg_sub reg_unsub reg_leave targets
proof unfold_locales
  fix p :: ks_pubsub and n i
  assume inv: "ps_inv p"
  from remove_client_spec [OF inv, of i]
  show "ps_inv (reg_leave p i) \<and> ps_members (reg_leave p i) = {q \<in> ps_members p. snd q \<noteq> i}"
    by (elim exE conjE) (simp add: reg_leave_def)
  show "distinct (targets p n) \<and> set (targets p n) = {i. (n, i) \<in> ps_members p}"
    using targets_spec [OF inv] by blast
qed (fact reg_sub_spec reg_unsub_spec)+

lemma reg_run_eq: "reg_run ops p = reg.run ops p"
  by (induction ops p rule: reg_run.induct) simp_all

section \<open>Properties\<close>

text \<open>The examples: an empty registry, and one with client 7 on the channel \<open>''news''\<close>.\<close>

definition ex_registry0 :: ks_pubsub where
  "ex_registry0 = \<lparr>ps_channels = [], ps_channel_count = 0, ps_subscription_count = 0\<rparr>"

definition ex_registry :: ks_pubsub where
  "ex_registry = \<lparr>ps_channels = [\<lparr>ch_name = ''news'', ch_subscribers = [7]\<rparr>],
     ps_channel_count = 1, ps_subscription_count = 1\<rparr>"

lemma ex_registry: "ps_inv ex_registry0" "ps_inv ex_registry" "ps_members ex_registry = {(''news'', 7)}"
  "reg_sub mem_ok ex_registry0 ''news'' 7 = (True, ex_registry)"
  by (simp_all add: ps_inv_def chs_inv_def ps_members_def members_def ex_registry0_def ex_registry_def
      reg_sub_def ks_pubsub_subscribe_def copy_string_def c_malloc_def mem_ok_def sizeof_channel_def
      sizeof_subscriber_def)

text \<open>
  C34. Subscribing, for every pattern of allocation failures: a new pair is added, an old one is
  reported and nothing changes, and when memory runs out nothing changes. The invariant, with
  exact counters, distinct subscribers and no empty channel, is kept.
\<close>

theorem pubsub_subscribe_correct:
  assumes "ps_inv p" "ch \<noteq> []"
  shows "\<exists>st p'. ks_pubsub_subscribe al (Some p) (Some ch) i = (st, Some p') \<and> ps_inv p' \<and>
    (st = KS_PUBSUB_OK \<and> (ch, i) \<notin> ps_members p \<and> ps_members p' = insert (ch, i) (ps_members p) \<or>
     st = KS_PUBSUB_ALREADY_SUBSCRIBED \<and> (ch, i) \<in> ps_members p \<and> p' = p \<or>
     st = KS_PUBSUB_NO_MEMORY \<and> (ch, i) \<notin> ps_members p \<and> p' = p \<and>
       \<not> (c_malloc al Site_channel_name (length ch + 1) \<and> c_malloc al Site_new_channel sizeof_channel \<and>
          c_malloc al Site_subscriber sizeof_subscriber))"
  by (rule subscribe_spec [OF assms])

theorem pubsub_subscribe_correct_witness:
  "\<exists>p'. ks_pubsub_subscribe mem_fail (Some ex_registry) (Some ''news'') 7 =
    (KS_PUBSUB_ALREADY_SUBSCRIBED, Some p') \<and> p' = ex_registry"
  using pubsub_subscribe_correct [OF ex_registry(2), of "''news''" mem_fail 7] by (simp add: ex_registry(3))

text \<open>
  C35. Unsubscribing and disconnecting: exactly the named pair, or all the pairs of the client,
  leave the set; the status and the returned number tell what was there; the invariant is kept,
  so a channel disappears with its last subscriber and the counters stay exact.
\<close>

theorem pubsub_unsubscribe_correct:
  assumes "ps_inv p" "ch \<noteq> []"
  shows "(\<exists>st p' ev. ks_pubsub_unsubscribe (Some p) (Some ch) i = (st, Some p', ev) \<and> ps_inv p' \<and>
      ps_members p' = ps_members p - {(ch, i)} \<and>
      st = (if (ch, i) \<in> ps_members p then KS_PUBSUB_OK else KS_PUBSUB_NOT_SUBSCRIBED)) \<and>
    (\<exists>p' ev. ks_pubsub_remove_client (Some p) i =
        (of_nat (card {q \<in> ps_members p. snd q = i}), Some p', ev) \<and> ps_inv p' \<and>
      ps_members p' = {q \<in> ps_members p. snd q \<noteq> i})"
  using unsubscribe_spec [OF assms, of i] remove_client_spec [OF assms(1), of i] by (rule conjI)

theorem pubsub_unsubscribe_correct_witness:
  "\<exists>p' ev. ks_pubsub_unsubscribe (Some ex_registry) (Some ''news'') 7 = (KS_PUBSUB_OK, Some p', ev) \<and>
    ps_members p' = {} \<and> ps_inv p'"
  using pubsub_unsubscribe_correct [OF ex_registry(2), of "''news''" 7] by (auto simp: ex_registry(3))

text \<open>
  C36. Publishing hands the message to every subscriber of the channel, to each exactly once and
  to nobody else, with the channel's name and the message, and returns how many accepted it.
\<close>

theorem pubsub_publish_correct:
  assumes "ps_inv p" "ch \<noteq> []" "message = None \<longrightarrow> n = 0"
  shows "\<exists>ids. distinct ids \<and> set ids = {i. (ch, i) \<in> ps_members p} \<and>
    ks_pubsub_publish (Some p) (Some ch) message n
      (Some (\<lambda>i ch m n log. Some (accept i, log @ [(i, ch, m, n)]))) log =
    Some (of_nat (card {i. (ch, i) \<in> ps_members p \<and> accept i}), log @ map (\<lambda>i. (i, ch, message, n)) ids)"
proof -
  note t = targets_spec [OF assms(1), of ch]
  have "length (filter accept (targets p ch)) = card (set (filter accept (targets p ch)))"
    using distinct_card [of "filter accept (targets p ch)"] t(1) by simp
  also have "set (filter accept (targets p ch)) = {i. (ch, i) \<in> ps_members p \<and> accept i}"
    using t(2) by auto
  finally show ?thesis
    using t by (intro exI [of _ "targets p ch"])
      (simp add: publish_targets [OF assms] publish_loop_log)
qed

theorem pubsub_publish_correct_witness:
  "ks_pubsub_publish (Some ex_registry) (Some ''news'') (Some ''hi'') 2
     (Some (\<lambda>i ch m n log. Some (i = 7, log @ [(i, ch, m, n)]))) [] =
   Some (1, [(7, ''news'', Some ''hi'', 2)])"
proof -
  have c: "{i. (''news'', i) \<in> ps_members ex_registry} = {7}"
    "{i. (''news'', i) \<in> ps_members ex_registry \<and> i = 7} = {7}" by (auto simp: ex_registry(3))
  from pubsub_publish_correct [OF ex_registry(2), of "''news''" "Some ''hi''" 2 "\<lambda>i. i = 7" "[]"]
  obtain ids where ids: "distinct ids" "set ids = {7}" "ks_pubsub_publish (Some ex_registry)
      (Some ''news'') (Some ''hi'') 2 (Some (\<lambda>i ch m n log. Some (i = 7, log @ [(i, ch, m, n)]))) [] =
    Some (1, map (\<lambda>i. (i, ''news'', Some ''hi'', 2)) ids)" unfolding c by auto
  from ids(1,2) have "ids = [7]" by (cases ids; cases "tl ids"; auto)
  with ids(3) show ?thesis by simp
qed

text \<open>
  C37. Over any history of subscriptions (with any allocation failures), unsubscriptions and
  disconnections: a client that subscribed to a channel is exactly once among those a message
  on it is handed to, as long as it neither unsubscribed from it nor left; and a client that left
  is not among them unless it subscribed again.
\<close>

theorem pubsub_history:
  assumes "ps_inv p" "reg_sub al p ch i = (True, p')"
  shows "(R_Unsub ch i \<notin> set ops \<and> R_Drop i \<notin> set ops \<longrightarrow>
      count_list (targets (reg_run ops p') ch) i = 1) \<and>
    ((\<forall>al. R_Sub al ch i \<notin> set ops) \<longrightarrow> i \<notin> set (targets (reg_run ops (reg_leave p' i)) ch))"
proof -
  from reg.sub_law [OF assms] have "ps_inv p'" by simp
  then show ?thesis
    unfolding reg_run_eq
    using reg.receives_after_sub [OF assms, of ops] reg.nothing_after_leave [of p' ch i ops] by blast
qed

theorem pubsub_history_witness:
  "count_list (targets (reg_run [R_Drop 8, R_Unsub ''x'' 7] ex_registry) ''news'') 7 = 1 \<and>
   7 \<notin> set (targets (reg_run [R_Drop 8] (reg_leave ex_registry 7)) ''news'')"
  using pubsub_history [OF ex_registry(1,4), of "[R_Drop 8, R_Unsub ''x'' 7]"]
    pubsub_history [OF ex_registry(1,4), of "[R_Drop 8]"] by simp

end
