(* ===== verification/Kessel_Config.thy ===== *)
theory Kessel_Config
  imports Kessel_C
begin

text \<open>
  \<^verbatim>\<open>src/src/ks_config.c\<close> and \<^verbatim>\<open>src/src/ks_log.c\<close>: start-up configuration from
  defaults, environment and command line, and the level filter of the log. The environment is a
  function from names to values; what is printed to standard error is returned as a list of
  lines. The lemmas show that a loaded configuration is within its bounds, that the parsers read
  back what \<open>printf\<close> wrote, and which source wins.
\<close>

section \<open>Model\<close>

record ks_config =
  cfg_host :: string
  cfg_port :: u16
  cfg_log_level :: int
  cfg_max_clients :: u64

definition ks_config_init :: ks_config where
  "ks_config_init = \<lparr>cfg_host = ''0.0.0.0'', cfg_port = 7070, cfg_log_level = 2, cfg_max_clients = 256\<rparr>"

definition parse_log_level :: "string \<Rightarrow> int option" where
  "parse_log_level s =
     (if c_strcasecmp s ''DEBUG'' = 0 then Some 3
      else if c_strcasecmp s ''INFO'' = 0 then Some 2
      else if c_strcasecmp s ''WARN'' = 0 then Some 1
      else if c_strcasecmp s ''ERROR'' = 0 then Some 0
      else None)"

definition parse_port :: "string \<Rightarrow> u16 option" where
  "parse_port s =
     (let (value, stop, erange) = c_strtol s
      in if erange \<or> stop = 0 \<or> stop \<noteq> length s \<or> value < 1 \<or> value > 65535 then None
         else Some (of_int value))"

definition parse_max_clients :: "string \<Rightarrow> u64 option" where
  "parse_max_clients s =
     (let (value, stop, erange) = c_strtoul s
      in if erange \<or> stop = 0 \<or> stop \<noteq> length s \<or> value < 1 \<or> value > 1023 then None
         else Some (of_nat value))"

text \<open>The result code, the configuration, and the lines for standard error.\<close>

type_synonym cfg_result = "int \<times> ks_config \<times> string list"

definition apply_host :: "ks_config \<Rightarrow> string option \<Rightarrow> string \<Rightarrow> cfg_result" where
  "apply_host cfg value source =
     (if value = None \<or> value = Some [] then (- 1, cfg, [''Invalid host from '' @ source])
      else (0, cfg\<lparr>cfg_host := the value\<rparr>, []))"

definition set_port :: "ks_config \<Rightarrow> string \<Rightarrow> string \<Rightarrow> cfg_result" where
  "set_port cfg value what = (case parse_port value of
     None \<Rightarrow> (- 1, cfg, [''Invalid port'' @ what @ '': '' @ value])
   | Some p \<Rightarrow> (0, cfg\<lparr>cfg_port := p\<rparr>, []))"

definition set_log_level :: "ks_config \<Rightarrow> string \<Rightarrow> string \<Rightarrow> cfg_result" where
  "set_log_level cfg value what = (case parse_log_level value of
     None \<Rightarrow> (- 1, cfg, [''Invalid log level'' @ what @ '': '' @ value])
   | Some l \<Rightarrow> (0, cfg\<lparr>cfg_log_level := l\<rparr>, []))"

definition set_max_clients :: "ks_config \<Rightarrow> string \<Rightarrow> string \<Rightarrow> cfg_result" where
  "set_max_clients cfg value what = (case parse_max_clients value of
     None \<Rightarrow> (- 1, cfg, [''Invalid max clients'' @ what @ '': '' @ value])
   | Some n \<Rightarrow> (0, cfg\<lparr>cfg_max_clients := n\<rparr>, []))"

text \<open>An early return: what follows runs only after result 0.\<close>

definition and_then :: "cfg_result \<Rightarrow> (ks_config \<Rightarrow> cfg_result) \<Rightarrow> cfg_result" where
  "and_then r f = (case r of (rc, cfg, msgs) \<Rightarrow> if rc \<noteq> 0 then r else f cfg)"

definition from_var ::
    "(ks_config \<Rightarrow> string \<Rightarrow> cfg_result) \<Rightarrow> bool \<Rightarrow> string option \<Rightarrow> ks_config \<Rightarrow> cfg_result" where
  "from_var setter use value cfg =
     (case value of Some v \<Rightarrow> if use then setter cfg v else (0, cfg, []) | None \<Rightarrow> (0, cfg, []))"

definition config_from_env ::
    "(string \<Rightarrow> string option) \<Rightarrow> ks_config \<Rightarrow> bool \<Rightarrow> bool \<Rightarrow> bool \<Rightarrow> bool \<Rightarrow> cfg_result" where
  "config_from_env getenv cfg use_host use_port use_log_level use_max_clients =
     and_then (from_var (\<lambda>c v. apply_host c (Some v) ''KESSEL_HOST'') use_host (getenv ''KESSEL_HOST'') cfg)
     (\<lambda>cfg. and_then (from_var (\<lambda>c v. set_port c v '' from KESSEL_PORT'') use_port (getenv ''KESSEL_PORT'') cfg)
     (\<lambda>cfg. and_then (from_var (\<lambda>c v. set_log_level c v '' from KESSEL_LOG_LEVEL'')
              use_log_level (getenv ''KESSEL_LOG_LEVEL'') cfg)
     (\<lambda>cfg. from_var (\<lambda>c v. set_max_clients c v '' from KESSEL_MAX_CLIENTS'')
              use_max_clients (getenv ''KESSEL_MAX_CLIENTS'') cfg)))"

definition ks_config_from_env :: "(string \<Rightarrow> string option) \<Rightarrow> ks_config \<Rightarrow> cfg_result" where
  "ks_config_from_env getenv cfg = config_from_env getenv cfg True True True True"

text \<open>\<open>argv\<close> without \<open>argv[0]\<close>, which both loops skip.\<close>

definition has_argument :: "string list \<Rightarrow> string \<Rightarrow> bool" where
  "has_argument args name \<longleftrightarrow> (\<exists>a \<in> set args. c_strcmp a name = 0)"

fun ks_config_from_argv :: "ks_config \<Rightarrow> string list \<Rightarrow> cfg_result" where
  "ks_config_from_argv cfg [] = (0, cfg, [])"
| "ks_config_from_argv cfg [a] = (- 1, cfg, [''Unknown arg: '' @ a])"
| "ks_config_from_argv cfg (a # v # rest) =
     (if c_strcmp a ''--host'' = 0 then
        and_then (apply_host cfg (Some v) ''--host'') (\<lambda>cfg. ks_config_from_argv cfg rest)
      else if c_strcmp a ''--port'' = 0 then
        and_then (set_port cfg v []) (\<lambda>cfg. ks_config_from_argv cfg rest)
      else if c_strcmp a ''--log'' = 0 then
        and_then (set_log_level cfg v []) (\<lambda>cfg. ks_config_from_argv cfg rest)
      else if c_strcmp a ''--max-clients'' = 0 then
        and_then (set_max_clients cfg v []) (\<lambda>cfg. ks_config_from_argv cfg rest)
      else (- 1, cfg, [''Unknown arg: '' @ a]))"

definition ks_config_load :: "(string \<Rightarrow> string option) \<Rightarrow> ks_config \<Rightarrow> string list \<Rightarrow> cfg_result" where
  "ks_config_load getenv cfg args =
     and_then (config_from_env getenv cfg (\<not> has_argument args ''--host'') (\<not> has_argument args ''--port'')
                (\<not> has_argument args ''--log'') (\<not> has_argument args ''--max-clients''))
       (\<lambda>cfg. ks_config_from_argv cfg args)"

text \<open>
  The log: the current level, and the line a call writes. The time stamp and the text that the
  format expands to are arguments.
\<close>

definition KS_LOG_ERROR :: int where "KS_LOG_ERROR = 0"
definition KS_LOG_WARN :: int where "KS_LOG_WARN = 1"
definition KS_LOG_INFO :: int where "KS_LOG_INFO = 2"
definition KS_LOG_DEBUG :: int where "KS_LOG_DEBUG = 3"

definition ks_log_set_level :: "int \<Rightarrow> int" where
  "ks_log_set_level level = level"

definition vlog :: "int \<Rightarrow> int \<Rightarrow> string \<Rightarrow> string \<Rightarrow> string \<Rightarrow> string option" where
  "vlog ks_lvl lvl tag stamp text =
     (if lvl > ks_lvl then None
      else Some (''['' @ stamp @ ''][''  @ tag @ ''] '' @ text @ [LF]))"

definition ks_log_err :: "int \<Rightarrow> string \<Rightarrow> string \<Rightarrow> string option" where
  "ks_log_err ks_lvl stamp text = vlog ks_lvl KS_LOG_ERROR ''ERROR'' stamp text"

definition ks_log_warn :: "int \<Rightarrow> string \<Rightarrow> string \<Rightarrow> string option" where
  "ks_log_warn ks_lvl stamp text = vlog ks_lvl KS_LOG_WARN ''WARN'' stamp text"

definition ks_log_info :: "int \<Rightarrow> string \<Rightarrow> string \<Rightarrow> string option" where
  "ks_log_info ks_lvl stamp text = vlog ks_lvl KS_LOG_INFO ''INFO'' stamp text"

definition ks_log_dbg :: "int \<Rightarrow> string \<Rightarrow> string \<Rightarrow> string option" where
  "ks_log_dbg ks_lvl stamp text = vlog ks_lvl KS_LOG_DEBUG ''DEBUG'' stamp text"

section \<open>Specification\<close>

definition cfg_ok :: "ks_config \<Rightarrow> bool" where
  "cfg_ok cfg \<longleftrightarrow> cfg_host cfg \<noteq> [] \<and> 1 \<le> unat (cfg_port cfg) \<and>
     0 \<le> cfg_log_level cfg \<and> cfg_log_level cfg \<le> 3 \<and>
     1 \<le> unat (cfg_max_clients cfg) \<and> unat (cfg_max_clients cfg) \<le> 1023"

text \<open>A command line given as options with their values, and the value that counts for one.\<close>

definition flags :: "string set" where
  "flags = {''--host'', ''--port'', ''--log'', ''--max-clients''}"

definition command_line :: "(string \<times> string) list \<Rightarrow> string list" where
  "command_line opts = concat (map (\<lambda>(k, v). [k, v]) opts)"

definition given :: "(string \<times> string) list \<Rightarrow> string \<Rightarrow> string option" where
  "given opts k = map_of (rev opts) k"

definition chosen ::
    "(string \<Rightarrow> string option) \<Rightarrow> (string \<times> string) list \<Rightarrow> string \<Rightarrow> string \<Rightarrow> string option" where
  "chosen getenv opts flag var = (case given opts flag of Some v \<Rightarrow> Some v | None \<Rightarrow> getenv var)"

section \<open>Bounds\<close>

lemma parse_port_bounds: "parse_port s = Some p \<Longrightarrow> 1 \<le> unat p"
proof -
  assume a: "parse_port s = Some p"
  obtain v e r where c: "c_strtol s = (v, e, r)" by (cases "c_strtol s")
  with a have v: "1 \<le> v" "v \<le> 65535" "p = of_int v" by (auto simp: parse_port_def split: if_splits)
  then have "uint p = v" by (simp add: unsigned_of_int take_bit_int_eq_self)
  then have "nat (uint p) = nat v" by simp
  then show ?thesis using v(1) by simp
qed

lemma parse_max_clients_bounds: "parse_max_clients s = Some n \<Longrightarrow> 1 \<le> unat n \<and> unat n \<le> 1023"
proof -
  assume a: "parse_max_clients s = Some n"
  obtain v e r where c: "c_strtoul s = (v, e, r)" by (cases "c_strtoul s")
  with a have v: "1 \<le> v" "v \<le> 1023" "n = of_nat v" by (auto simp: parse_max_clients_def split: if_splits)
  then show ?thesis by (simp add: unsigned_of_nat take_bit_nat_eq_self)
qed

lemma parse_log_level_bounds: "parse_log_level s = Some l \<Longrightarrow> 0 \<le> l \<and> l \<le> 3"
  by (auto simp: parse_log_level_def split: if_splits)

lemma setters_ok:
  assumes "cfg_ok cfg"
  shows "cfg_ok (fst (snd (apply_host cfg v src)))" "cfg_ok (fst (snd (set_port cfg w what)))"
    "cfg_ok (fst (snd (set_log_level cfg w what)))" "cfg_ok (fst (snd (set_max_clients cfg w what)))"
  using assms parse_port_bounds [of w] parse_max_clients_bounds [of w] parse_log_level_bounds [of w]
  by (auto simp: apply_host_def set_port_def set_log_level_def set_max_clients_def cfg_ok_def
      split: option.splits)

lemma and_then_ok:
  assumes "cfg_ok (fst (snd r))" "\<And>c. cfg_ok c \<Longrightarrow> cfg_ok (fst (snd (f c)))"
  shows "cfg_ok (fst (snd (and_then r f)))"
  using assms by (cases r) (simp add: and_then_def)

lemma from_var_ok:
  assumes "cfg_ok c" "\<And>v. cfg_ok (fst (snd (setter c v)))"
  shows "cfg_ok (fst (snd (from_var setter use value c)))"
  using assms by (simp add: from_var_def split: option.split)

lemma config_from_env_ok:
  "cfg_ok cfg \<Longrightarrow> cfg_ok (fst (snd (config_from_env getenv cfg a b c d)))"
  unfolding config_from_env_def by (intro and_then_ok from_var_ok setters_ok)

lemma from_argv_ok: "cfg_ok cfg \<Longrightarrow> cfg_ok (fst (snd (ks_config_from_argv cfg args)))"
proof (induction "length args" arbitrary: cfg args rule: less_induct)
  case less
  have step: "cfg_ok (fst (snd (and_then r (\<lambda>cfg. ks_config_from_argv cfg rest))))"
    if "cfg_ok (fst (snd r))" "length rest < length args" for r rest
    using that less by (intro and_then_ok) auto
  show ?case
  proof (cases "(cfg, args)" rule: ks_config_from_argv.cases)
    case (3 cfg' a v rest)
    then have c: "cfg' = cfg" "args = a # v # rest" by auto
    note ok = step [OF setters_ok(1) [OF less.prems]] step [OF setters_ok(2) [OF less.prems]]
      step [OF setters_ok(3) [OF less.prems]] step [OF setters_ok(4) [OF less.prems]]
    show ?thesis using less.prems unfolding c by (simp add: ok c)
  qed (use less.prems in auto)
qed

lemma load_ok: "cfg_ok cfg \<Longrightarrow> cfg_ok (fst (snd (ks_config_load getenv cfg args)))"
  unfolding ks_config_load_def by (intro and_then_ok config_from_env_ok from_argv_ok)

lemma init_ok: "cfg_ok ks_config_init"
  by (simp add: cfg_ok_def ks_config_init_def)

section \<open>Precedence\<close>

text \<open>The value of one setting before and after an optional text was applied to it.\<close>

definition sets :: "(string \<Rightarrow> 'a option) \<Rightarrow> string option \<Rightarrow> 'a \<Rightarrow> 'a \<Rightarrow> bool" where
  "sets parse text old new \<longleftrightarrow> (case text of None \<Rightarrow> new = old | Some t \<Rightarrow> parse t = Some new)"

definition parse_host :: "string \<Rightarrow> string option" where
  "parse_host s = (if s = [] then None else Some s)"

definition configured :: "string option \<Rightarrow> string option \<Rightarrow> string option \<Rightarrow> string option \<Rightarrow>
    ks_config \<Rightarrow> ks_config \<Rightarrow> bool" where
  "configured h p l m cfg cfg' \<longleftrightarrow> sets parse_host h (cfg_host cfg) (cfg_host cfg') \<and>
     sets parse_port p (cfg_port cfg) (cfg_port cfg') \<and>
     sets parse_log_level l (cfg_log_level cfg) (cfg_log_level cfg') \<and>
     sets parse_max_clients m (cfg_max_clients cfg) (cfg_max_clients cfg')"

definition overridden :: "string option \<Rightarrow> string option \<Rightarrow> string option" where
  "overridden a b = (case b of None \<Rightarrow> a | Some x \<Rightarrow> Some x)"

lemma sets_trans: "sets f a x y \<Longrightarrow> sets f b y z \<Longrightarrow> sets f (overridden a b) x z"
  by (auto simp: sets_def overridden_def split: option.splits)

lemma configured_trans:
  "configured h p l m c c' \<Longrightarrow> configured h' p' l' m' c' c'' \<Longrightarrow>
   configured (overridden h h') (overridden p p') (overridden l l') (overridden m m') c c''"
  unfolding configured_def by (blast intro: sets_trans)

lemma configured_refl: "configured None None None None c c"
  by (simp add: configured_def sets_def)

lemma overridden_None [simp]: "overridden a None = a" "overridden None b = b"
  by (simp_all add: overridden_def split: option.split)

lemma and_then_0:
  assumes "and_then r f = (0, cfg', msgs)"
  obtains c m where "r = (0, c, m)" "f c = (0, cfg', msgs)"
  using assms by (cases r) (auto simp: and_then_def split: if_splits)

lemma setters_0:
  "apply_host cfg (Some v) src = (0, c, m) \<Longrightarrow> configured (Some v) None None None cfg c"
  "set_port cfg v what = (0, c, m) \<Longrightarrow> configured None (Some v) None None cfg c"
  "set_log_level cfg v what = (0, c, m) \<Longrightarrow> configured None None (Some v) None cfg c"
  "set_max_clients cfg v what = (0, c, m) \<Longrightarrow> configured None None None (Some v) cfg c"
  by (auto simp: apply_host_def set_port_def set_log_level_def set_max_clients_def configured_def
      sets_def parse_host_def split: option.splits if_splits)

definition var_of :: "bool \<Rightarrow> string option \<Rightarrow> string option" where
  "var_of use value = (if use then value else None)"

lemma from_var_0:
  assumes "from_var setter use value c = (0, c', m)" "\<And>v. setter c v = (0, c', m) \<Longrightarrow> P (Some v)" "c' = c \<Longrightarrow> P None"
  shows "P (var_of use value)"
  using assms by (auto simp: from_var_def var_of_def split: option.splits if_splits)

lemma config_from_env_0:
  assumes "config_from_env getenv cfg uh up ul um = (0, cfg', msgs)"
  shows "configured (var_of uh (getenv ''KESSEL_HOST'')) (var_of up (getenv ''KESSEL_PORT''))
    (var_of ul (getenv ''KESSEL_LOG_LEVEL'')) (var_of um (getenv ''KESSEL_MAX_CLIENTS'')) cfg cfg'"
proof -
  from assms obtain c1 m1 c2 m2 c3 m3 where
    c: "from_var (\<lambda>c v. apply_host c (Some v) ''KESSEL_HOST'') uh (getenv ''KESSEL_HOST'') cfg = (0, c1, m1)"
      "from_var (\<lambda>c v. set_port c v '' from KESSEL_PORT'') up (getenv ''KESSEL_PORT'') c1 = (0, c2, m2)"
      "from_var (\<lambda>c v. set_log_level c v '' from KESSEL_LOG_LEVEL'') ul (getenv ''KESSEL_LOG_LEVEL'') c2 = (0, c3, m3)"
      "from_var (\<lambda>c v. set_max_clients c v '' from KESSEL_MAX_CLIENTS'') um (getenv ''KESSEL_MAX_CLIENTS'') c3 = (0, cfg', msgs)"
    unfolding config_from_env_def by (elim and_then_0)
  have "configured (var_of uh (getenv ''KESSEL_HOST'')) None None None cfg c1"
    by (rule from_var_0 [OF c(1)]) (auto intro: setters_0 configured_refl)
  moreover have "configured None (var_of up (getenv ''KESSEL_PORT'')) None None c1 c2"
    by (rule from_var_0 [OF c(2)]) (auto intro: setters_0 configured_refl)
  ultimately have p12: "configured (var_of uh (getenv ''KESSEL_HOST''))
      (var_of up (getenv ''KESSEL_PORT'')) None None cfg c2"
    using configured_trans by fastforce
  have "configured None None (var_of ul (getenv ''KESSEL_LOG_LEVEL'')) None c2 c3"
    by (rule from_var_0 [OF c(3)]) (auto intro: setters_0 configured_refl)
  moreover have "configured None None None (var_of um (getenv ''KESSEL_MAX_CLIENTS'')) c3 cfg'"
    by (rule from_var_0 [OF c(4)]) (auto intro: setters_0 configured_refl)
  ultimately have "configured None None (var_of ul (getenv ''KESSEL_LOG_LEVEL''))
      (var_of um (getenv ''KESSEL_MAX_CLIENTS'')) c2 cfg'"
    using configured_trans by fastforce
  from configured_trans [OF p12 this] show ?thesis by simp
qed

lemma given_Cons: "given ((k, v) # opts) f = overridden (if k = f then Some v else None) (given opts f)"
  by (auto simp: given_def overridden_def map_add_def split: option.split)

lemma from_argv_0:
  assumes "ks_config_from_argv cfg (command_line opts) = (0, cfg', msgs)"
  shows "configured (given opts ''--host'') (given opts ''--port'') (given opts ''--log'')
    (given opts ''--max-clients'') cfg cfg'"
  using assms
proof (induction opts arbitrary: cfg)
  case Nil
  then show ?case by (simp add: command_line_def given_def configured_refl)
next
  case (Cons q opts)
  obtain k v where q: "q = (k, v)" by (cases q)
  let ?one = "\<lambda>f. if k = f then Some v else None"
  from Cons.prems have "\<exists>c. configured (?one ''--host'') (?one ''--port'') (?one ''--log'')
      (?one ''--max-clients'') cfg c \<and> ks_config_from_argv c (command_line opts) = (0, cfg', msgs)"
    by (auto simp: q command_line_def split: if_splits elim!: and_then_0 dest: setters_0)
  with Cons.IH configured_trans show ?case unfolding q given_Cons by blast
qed

lemma has_argument_given:
  assumes "\<forall>(k, v) \<in> set opts. k \<in> flags \<and> v \<notin> flags" "f \<in> flags"
  shows "has_argument (command_line opts) f \<longleftrightarrow> given opts f \<noteq> None"
proof -
  have "has_argument (command_line opts) f \<longleftrightarrow> f \<in> fst ` set opts"
    using assms by (force simp: has_argument_def command_line_def)
  then show ?thesis by (simp add: given_def map_of_eq_None_iff)
qed

lemma chosen_eq:
  assumes "\<forall>(k, v) \<in> set opts. k \<in> flags \<and> v \<notin> flags" "f \<in> flags"
  shows "overridden (var_of (\<not> has_argument (command_line opts) f) (getenv e)) (given opts f) =
    chosen getenv opts f e"
  using has_argument_given [OF assms]
  by (auto simp: overridden_def var_of_def chosen_def split: option.split)

lemma load_0:
  assumes "\<forall>(k, v) \<in> set opts. k \<in> flags \<and> v \<notin> flags"
    and "ks_config_load getenv cfg (command_line opts) = (0, cfg', msgs)"
  shows "configured (chosen getenv opts ''--host'' ''KESSEL_HOST'') (chosen getenv opts ''--port'' ''KESSEL_PORT'')
    (chosen getenv opts ''--log'' ''KESSEL_LOG_LEVEL'')
    (chosen getenv opts ''--max-clients'' ''KESSEL_MAX_CLIENTS'') cfg cfg'"
proof -
  from assms(2) obtain c m where
    c: "config_from_env getenv cfg (\<not> has_argument (command_line opts) ''--host'')
          (\<not> has_argument (command_line opts) ''--port'') (\<not> has_argument (command_line opts) ''--log'')
          (\<not> has_argument (command_line opts) ''--max-clients'') = (0, c, m)"
      "ks_config_from_argv c (command_line opts) = (0, cfg', msgs)"
    unfolding ks_config_load_def by (elim and_then_0)
  from configured_trans [OF config_from_env_0 [OF c(1)] from_argv_0 [OF c(2)]] show ?thesis
    by (simp add: chosen_eq [OF assms(1)] flags_def)
qed

section \<open>Properties\<close>

text \<open>
  C38. Whatever the environment and the command line hold, loading leaves a configuration within
  its bounds: a host that is not empty, a port from 1 to 65535, a log level from 0 to 3, and 1
  to 1023 clients.
\<close>

theorem config_load_bounds:
  "cfg_ok (fst (snd (ks_config_load getenv ks_config_init args)))"
  by (rule load_ok [OF init_ok])

text \<open>
  C39. Precedence. When loading succeeds and the command line is a list of known options, none
  of whose values is itself the name of an option, each setting is the last value given on the
  command line, or else the one of its environment variable, or else the default.
\<close>

theorem config_precedence:
  assumes "\<forall>(k, v) \<in> set opts. k \<in> flags \<and> v \<notin> flags"
    and "ks_config_load getenv ks_config_init (command_line opts) = (0, cfg, msgs)"
  shows "sets parse_host (chosen getenv opts ''--host'' ''KESSEL_HOST'') ''0.0.0.0'' (cfg_host cfg) \<and>
    sets parse_port (chosen getenv opts ''--port'' ''KESSEL_PORT'') 7070 (cfg_port cfg) \<and>
    sets parse_log_level (chosen getenv opts ''--log'' ''KESSEL_LOG_LEVEL'') 2 (cfg_log_level cfg) \<and>
    sets parse_max_clients (chosen getenv opts ''--max-clients'' ''KESSEL_MAX_CLIENTS'') 256
      (cfg_max_clients cfg)"
  using load_0 [OF assms] by (simp add: configured_def ks_config_init_def)

theorem config_precedence_witness:
  "\<exists>cfg msgs. ks_config_load (\<lambda>v. if v = ''KESSEL_PORT'' then Some ''9000'' else None) ks_config_init
      (command_line [(''--log'', ''warn'')]) = (0, cfg, msgs) \<and> parse_port ''9000'' = Some (cfg_port cfg) \<and>
    parse_log_level ''warn'' = Some (cfg_log_level cfg)"
proof -
  let ?env = "\<lambda>v. if v = ''KESSEL_PORT'' then Some ''9000'' else (None :: string option)"
  let ?opts = "[(''--log'', ''warn'')]"
  have "fst (ks_config_load ?env ks_config_init (command_line ?opts)) = 0" by code_simp
  then obtain cfg msgs where l: "ks_config_load ?env ks_config_init (command_line ?opts) = (0, cfg, msgs)"
    by (metis prod.collapse)
  from config_precedence [OF _ l] have "parse_port ''9000'' = Some (cfg_port cfg)"
    "parse_log_level ''warn'' = Some (cfg_log_level cfg)"
    by (simp_all add: flags_def chosen_def given_def sets_def)
  with l show ?thesis by blast
qed

lemma parsers_fmt_int:
  "parse_port (fmt_int i) = (if 1 \<le> i \<and> i \<le> 65535 then Some (of_int i) else None)"
  "parse_max_clients (fmt_int i) = (if 1 \<le> i \<and> i \<le> 1023 then Some (of_int i)
     else if 1 \<le> i + 2 ^ 64 \<and> i + 2 ^ 64 \<le> 1023 then Some (of_int (i + 2 ^ 64)) else None)"
proof -
  show "parse_port (fmt_int i) = (if 1 \<le> i \<and> i \<le> 65535 then Some (of_int i) else None)"
    using fmt_nat_ne [of "nat i"]
    by (auto simp: fmt_int_def parse_port_def c_strtol_def c_strtoll_def strto_fmt_nat strto_fmt_neg Let_def
        LLONG_MAX_def LLONG_MIN_def)
  have neg: "(2 ^ 64 - nat (- i)) mod 2 ^ 64 = nat (i + 2 ^ 64)" if "i < 0" "- (2 ^ 64) \<le> i"
    using that by (simp add: nat_diff_distrib' mod_less)
  show "parse_max_clients (fmt_int i) = (if 1 \<le> i \<and> i \<le> 1023 then Some (of_int i)
     else if 1 \<le> i + 2 ^ 64 \<and> i + 2 ^ 64 \<le> 1023 then Some (of_int (i + 2 ^ 64)) else None)"
    using fmt_nat_ne [of "nat i"] neg
    by (auto simp: fmt_int_def parse_max_clients_def c_strtoul_def strto_fmt_nat strto_fmt_neg Let_def
        ULONG_MAX_def)
qed

text \<open>
  C40. The parsers on every printed integer: the port is read back from 1 to 65535 and refused
  otherwise. The client limit is read back from 1 to 1023; a negative number that
  \<open>strtoul\<close> wraps modulo 2 to the 64 into that range is accepted as the wrapped number;
  every other integer, of any size, is refused.
\<close>

theorem config_parsers_roundtrip:
  "parse_port (fmt_int i) = (if 1 \<le> i \<and> i \<le> 65535 then Some (of_int i) else None) \<and>
    parse_max_clients (fmt_int i) = (if 1 \<le> i \<and> i \<le> 1023 then Some (of_int i)
      else if 1 \<le> i + 2 ^ 64 \<and> i + 2 ^ 64 \<le> 1023 then Some (of_int (i + 2 ^ 64)) else None)"
  by (simp add: parsers_fmt_int)

text \<open>
  A negative number is accepted as a client limit: \<open>strtoul\<close> negates it modulo 2 to the
  64, so the text of minus (2 to the 64 minus n) is read as n, for every n from 1 to 1023.
\<close>

lemma config_negative_max_clients:
  assumes "1 \<le> n" "n \<le> 1023"
  shows "parse_max_clients (CHR ''-'' # fmt_nat (2 ^ 64 - n)) = Some (of_nat n)"
  using assms by (simp add: parse_max_clients_def c_strtoul_def strto_fmt_neg ULONG_MAX_def)

text \<open>
  An option whose value is the name of another option hides that other option's environment
  variable although the option itself is not given: the scan for options looks at the values too.
\<close>

lemma config_shadowed_variable:
  "ks_config_load (\<lambda>v. if v = ''KESSEL_PORT'' then Some ''9000'' else None) ks_config_init
     [''--host'', ''--port''] = (0, ks_config_init\<lparr>cfg_host := ''--port''\<rparr>, [])"
  by code_simp

end
