(* ===== verification/Kessel_Net.thy ===== *)
theory Kessel_Net
  imports Kessel_C
begin

text \<open>
  \<^verbatim>\<open>src/src/ks_net.c\<close>, \<^verbatim>\<open>src/include/ks_net.h\<close>: the socket layer, POSIX
  branches. The operating system is a parameter: the answers its calls give, in order. A loop
  that retries an interrupted call consumes answers until one is not \<open>EINTR\<close>; \<open>None\<close> means
  that it was interrupted by every answer there was. Descriptors the code closes are returned, so
  that it can be seen that none is leaked.
\<close>

section \<open>Model\<close>

datatype ks_errno = EINTR | EAGAIN | EWOULDBLOCK | E_OTHER

datatype ks_io_status = KS_IO_ERROR | KS_IO_CLOSED | KS_IO_OK | KS_IO_WOULD_BLOCK

definition KS_NET_ACCEPT_ERROR :: int where "KS_NET_ACCEPT_ERROR = - 1"
definition KS_NET_ACCEPT_WOULD_BLOCK :: int where "KS_NET_ACCEPT_WOULD_BLOCK = - 2"

definition ks_error_would_block :: "ks_errno \<Rightarrow> bool" where
  "ks_error_would_block errno \<longleftrightarrow> errno = EAGAIN \<or> errno = EWOULDBLOCK"

definition ks_error_interrupted :: "ks_errno \<Rightarrow> bool" where
  "ks_error_interrupted errno \<longleftrightarrow> errno = EINTR"

text \<open>The descriptors that a call closes; no caller looks at its result.\<close>

definition ks_close :: "int \<Rightarrow> int list" where
  [simp]: "ks_close fd = [fd]"

text \<open>The two answers of \<open>fcntl\<close>.\<close>

record nonblock_os =
  nb_getfl :: int
  nb_setfl :: int

definition ks_set_nonblock :: "nonblock_os \<Rightarrow> int" where
  "ks_set_nonblock os = (if nb_getfl os < 0 then - 1 else nb_setfl os)"

text \<open>The answers of the calls of \<open>ks_listen\<close>; \<open>inet_pton\<close> depends on the address.\<close>

record listen_os =
  lo_socket :: int
  lo_setsockopt :: int
  lo_inet_pton :: "string \<Rightarrow> int"
  lo_bind :: int
  lo_listen :: int
  lo_nonblock :: nonblock_os

text \<open>The result and the descriptors that were closed.\<close>

definition ks_listen :: "listen_os \<Rightarrow> string option \<Rightarrow> int \<times> int list" where
  "ks_listen os host =
     (let fd = lo_socket os in
      if fd < 0 then (- 1, [])
      else if lo_setsockopt os \<noteq> 0 then (- 1, ks_close fd)
      else if (case host of None \<Rightarrow> False | Some h \<Rightarrow> h \<noteq> [] \<and> lo_inet_pton os h \<noteq> 1) then (- 1, ks_close fd)
      else if lo_bind os \<noteq> 0 then (- 1, ks_close fd)
      else if lo_listen os \<noteq> 0 then (- 1, ks_close fd)
      else if ks_set_nonblock (lo_nonblock os) \<noteq> 0 then (- 1, ks_close fd)
      else (fd, []))"

text \<open>An answer of \<open>accept\<close>: a descriptor with what \<open>fcntl\<close> then says of it, or an error.\<close>

type_synonym accept_answer = "ks_errno + int \<times> nonblock_os"

fun ks_accept :: "accept_answer list \<Rightarrow> (int \<times> int list \<times> accept_answer list) option" where
  "ks_accept [] = None"
| "ks_accept (Inl errno # os) =
     (if ks_error_interrupted errno then ks_accept os
      else Some (if ks_error_would_block errno then KS_NET_ACCEPT_WOULD_BLOCK else KS_NET_ACCEPT_ERROR,
                 [], os))"
| "ks_accept (Inr (cfd, nb) # os) =
     (if ks_set_nonblock nb \<noteq> 0 then Some (KS_NET_ACCEPT_ERROR, ks_close cfd, os) else Some (cfd, [], os))"

text \<open>
  An answer of \<open>recv\<close>: the bytes that have arrived, none at the end of the stream, or an
  error. The call takes at most \<open>len\<close> of these bytes, the rest stays for the next call.
\<close>

type_synonym recv_answer = "ks_errno + bytes"

fun recv_loop :: "nat \<Rightarrow> recv_answer list \<Rightarrow> (ks_io_status \<times> bytes \<times> recv_answer list) option" where
  "recv_loop len [] = None"
| "recv_loop len (Inr data # os) =
     (let result = take len data in
      if result \<noteq> [] then
        Some (KS_IO_OK, result, if length data \<le> len then os else Inr (drop len data) # os)
      else Some (KS_IO_CLOSED, [], os))"
| "recv_loop len (Inl errno # os) =
     (if ks_error_interrupted errno then recv_loop len os
      else Some (if ks_error_would_block errno then KS_IO_WOULD_BLOCK else KS_IO_ERROR, [], os))"

definition ks_recv :: "recv_answer list \<Rightarrow> nat \<Rightarrow> (ks_io_status \<times> bytes \<times> recv_answer list) option" where
  "ks_recv os len = (if len = 0 then Some (KS_IO_OK, [], os) else recv_loop len os)"

text \<open>
  An answer of \<open>send\<close>: the room in the socket buffer, or an error. The call sends at most the
  \<open>len\<close> bytes it was given.
\<close>

type_synonym send_answer = "ks_errno + nat"

fun send_loop :: "nat \<Rightarrow> send_answer list \<Rightarrow> (ks_io_status \<times> nat \<times> send_answer list) option" where
  "send_loop len [] = None"
| "send_loop len (Inr n # os) =
     (let result = min len n in
      if result > 0 then Some (KS_IO_OK, result, os) else Some (KS_IO_CLOSED, 0, os))"
| "send_loop len (Inl errno # os) =
     (if ks_error_interrupted errno then send_loop len os
      else Some (if ks_error_would_block errno then KS_IO_WOULD_BLOCK else KS_IO_ERROR, 0, os))"

definition ks_send :: "send_answer list \<Rightarrow> nat \<Rightarrow> (ks_io_status \<times> nat \<times> send_answer list) option" where
  "ks_send os len = (if len = 0 then Some (KS_IO_OK, 0, os) else send_loop len os)"

section \<open>Interrupted calls are retried, and nothing else\<close>

lemma recv_loop_skips: "recv_loop len (replicate n (Inl EINTR) @ a # os) = recv_loop len (a # os)"
  by (induction n) (simp_all add: ks_error_interrupted_def)

lemma send_loop_skips: "send_loop len (replicate n (Inl EINTR) @ a # os) = send_loop len (a # os)"
  by (induction n) (simp_all add: ks_error_interrupted_def)

lemma accept_skips: "ks_accept (replicate n (Inl EINTR) @ a # os) = ks_accept (a # os)"
  by (induction n) (simp_all add: ks_error_interrupted_def)

text \<open>How much there is to receive: bytes, and answers. Every call makes it less.\<close>

fun recv_size :: "recv_answer list \<Rightarrow> nat" where
  "recv_size [] = 0"
| "recv_size (Inl errno # os) = Suc (recv_size os)"
| "recv_size (Inr data # os) = Suc (length data + recv_size os)"

lemma recv_smaller:
  "recv_loop len os = Some (st, d, os') \<Longrightarrow> 0 < len \<Longrightarrow> recv_size os' < recv_size os \<and> length d \<le> len"
  by (induction len os rule: recv_loop.induct) (auto simp: Let_def split: if_splits)

lemma send_smaller: "send_loop len os = Some (st, n, os') \<Longrightarrow> length os' < length os \<and> n \<le> len"
  by (induction len os rule: send_loop.induct) (auto simp: Let_def split: if_splits)

lemma accept_smaller: "ks_accept os = Some (fd, cl, os') \<Longrightarrow> length os' < length os"
  by (induction os rule: ks_accept.induct) (auto split: if_splits)

lemma accept_result:
  assumes "ks_accept os = Some (fd, closed, os')" "\<forall>cfd nb. Inr (cfd, nb) \<in> set os \<longrightarrow> 0 \<le> cfd"
  shows "0 \<le> fd \<and> closed = [] \<and> (\<exists>nb. Inr (fd, nb) \<in> set os) \<or>
    fd \<in> {KS_NET_ACCEPT_ERROR, KS_NET_ACCEPT_WOULD_BLOCK} \<and>
      (closed = [] \<or> (\<exists>cfd nb. closed = [cfd] \<and> Inr (cfd, nb) \<in> set os))"
  using assms by (induction os rule: ks_accept.induct) (auto split: if_splits)

section \<open>Calls that settle\<close>

text \<open>
  On a non-blocking socket a sequence of calls ends: sooner or later one of them fails for another
  reason than an interruption, if only because it would block. With such answers every call
  returns, and unless it transferred something it used that answer.
\<close>

definition settles :: "(ks_errno + 'a) list \<Rightarrow> bool" where
  "settles os \<longleftrightarrow> (\<exists>e. Inl e \<in> set os \<and> e \<noteq> EINTR)"

lemma settles_simps [simp]:
  "\<not> settles []" "settles (Inr a # os) = settles os" "settles (Inl e # os) = (e \<noteq> EINTR \<or> settles os)"
  by (auto simp: settles_def)

lemma send_settles:
  assumes "settles os"
  shows "\<exists>st n os'. send_loop len os = Some (st, n, os') \<and> n \<le> len \<and> (n \<noteq> 0 \<longleftrightarrow> st = KS_IO_OK) \<and>
    (st = KS_IO_OK \<longrightarrow> settles os' \<and> length os' < length os)"
  using assms
  by (induction len os rule: send_loop.induct)
    (auto simp: Let_def ks_error_interrupted_def less_Suc_eq)

lemma recv_settles:
  assumes "settles os" "0 < len"
  shows "\<exists>st d os'. recv_loop len os = Some (st, d, os') \<and> length d \<le> len \<and> (d \<noteq> [] \<longleftrightarrow> st = KS_IO_OK) \<and>
    (st = KS_IO_OK \<longrightarrow> settles os' \<and> recv_size os' < recv_size os)"
  using assms
  by (induction len os rule: recv_loop.induct)
    (auto simp: Let_def ks_error_interrupted_def less_Suc_eq)

lemma recv_errors:
  assumes "recv_loop len os = Some (st, d, os')"
  shows "Inl e \<in> set os' \<Longrightarrow> Inl e \<in> set os" "st = KS_IO_ERROR \<Longrightarrow> Inl E_OTHER \<in> set os"
proof -
  have "(Inl e \<in> set os' \<longrightarrow> Inl e \<in> set os) \<and> (st = KS_IO_ERROR \<longrightarrow> Inl E_OTHER \<in> set os)"
    using assms
  proof (induction len os rule: recv_loop.induct)
    case (3 len errno os)
    then show ?case by (cases errno) (auto simp: ks_error_interrupted_def ks_error_would_block_def)
  qed (auto simp: Let_def split: if_splits)
  then show "Inl e \<in> set os' \<Longrightarrow> Inl e \<in> set os" "st = KS_IO_ERROR \<Longrightarrow> Inl E_OTHER \<in> set os" by simp_all
qed

lemma accept_settles:
  assumes "settles os"
  shows "\<exists>fd closed os'. ks_accept os = Some (fd, closed, os') \<and>
    (fd \<notin> {KS_NET_ACCEPT_ERROR, KS_NET_ACCEPT_WOULD_BLOCK} \<longrightarrow> settles os')"
  using assms
  by (induction os rule: ks_accept.induct) (auto simp: ks_error_interrupted_def)

section \<open>Properties\<close>

text \<open>
  Opening the listener leaks no descriptor: the call returns a descriptor that stays open,
  or reports failure after closing the one it had opened, if it had opened one.
\<close>

lemma listen_no_leak:
  "case ks_listen os host of (fd, closed) \<Rightarrow>
     fd = lo_socket os \<and> 0 \<le> fd \<and> closed = [] \<or>
     fd = - 1 \<and> closed = (if lo_socket os < 0 then [] else [lo_socket os])"
  by (auto simp: ks_listen_def Let_def)

text \<open>
  Receiving, sending and accepting retry exactly the interrupted calls: after any number of
  \<open>EINTR\<close> the first other answer decides, and data, the end of the stream, an empty queue
  and an error are told apart.
\<close>

lemma io_retries:
  "ks_recv (replicate n (Inl EINTR) @ Inr data # os) (Suc len) =
     (if data = [] then Some (KS_IO_CLOSED, [], os)
      else Some (KS_IO_OK, take (Suc len) data,
             if length data \<le> Suc len then os else Inr (drop (Suc len) data) # os)) \<and>
   ks_send (replicate n (Inl EINTR) @ Inr k # sos) (Suc len) =
     Some (if k = 0 then KS_IO_CLOSED else KS_IO_OK, min (Suc len) k, sos) \<and>
   ks_recv (replicate n (Inl EINTR) @ Inl EAGAIN # os) (Suc len) = Some (KS_IO_WOULD_BLOCK, [], os) \<and>
   ks_send (replicate n (Inl EINTR) @ Inl EAGAIN # sos) (Suc len) = Some (KS_IO_WOULD_BLOCK, 0, sos) \<and>
   ks_recv (replicate n (Inl EINTR) @ Inl E_OTHER # os) (Suc len) = Some (KS_IO_ERROR, [], os) \<and>
   ks_accept (replicate n (Inl EINTR) @ Inl EAGAIN # aos) = Some (KS_NET_ACCEPT_WOULD_BLOCK, [], aos) \<and>
   ks_accept (replicate n (Inl EINTR) @ Inr (cfd, nb) # aos) =
     Some (if ks_set_nonblock nb \<noteq> 0 then (KS_NET_ACCEPT_ERROR, [cfd], aos) else (cfd, [], aos))"
  by (simp add: ks_recv_def ks_send_def recv_loop_skips send_loop_skips accept_skips
      ks_error_interrupted_def ks_error_would_block_def)

end
