(* ===== verification/Kessel_Server.thy ===== *)
theory Kessel_Server
  imports Kessel_Kv Kessel_Protocol Kessel_Pubsub Kessel_Config Kessel_Net
begin

text \<open>
  \<^verbatim>\<open>src/src/ks_server.c\<close>: the clients with their input and output buffers, the
  commands, and the event loop. The state of the server is one record, \<open>ks_server\<close>: the array
  of clients, the store, the registry, the metrics and the next client id; a \<open>ks_client_t*\<close> is
  an index into the array. Buffers are byte lists and every access is bounds-checked, so a result
  \<open>Some\<close> includes that no buffer is overrun. Lines written to the log are left out.

  The outside world is a parameter: allocation and the time for each command (indexed by the
  number of commands processed so far), the answers of \<open>accept\<close>, \<open>recv\<close> and \<open>send\<close>, and
  what \<open>select\<close> reports.
\<close>

section \<open>Data\<close>

definition KS_INPUT_CAP :: nat where "KS_INPUT_CAP = KS_MAX_REQUEST + 2"
definition KS_OUTPUT_CAP :: nat where "KS_OUTPUT_CAP = 2 * (KS_MAX_REQUEST + 64)"
definition KS_OUTPUT_HIGH_WATER :: nat where "KS_OUTPUT_HIGH_WATER = KS_OUTPUT_CAP div 2"
definition KS_ACCEPT_BUDGET :: nat where "KS_ACCEPT_BUDGET = 64"
definition KS_REAPER_BUDGET :: u64 where "KS_REAPER_BUDGET = 32"
definition FD_SETSIZE :: nat where "FD_SETSIZE = 1024"

text \<open>The buffers of a client that is not in use are \<open>NULL\<close>, here the empty list.\<close>

record ks_client =
  cl_used :: bool
  cl_fd :: int
  cl_id :: ks_pubsub_client_id
  cl_close_after_write :: bool
  cl_drop_connection :: bool
  cl_input :: bytes
  cl_input_len :: nat
  cl_output :: bytes
  cl_output_offset :: nat
  cl_output_len :: nat

record ks_server_metrics =
  mt_connected_clients :: u64
  mt_total_connections :: u64
  mt_rejected_connections :: u64
  mt_total_commands :: u64
  mt_started_at :: int

record ks_server =
  sv_clients :: "ks_client list"
  sv_store :: ks_kv
  sv_pubsub :: ks_pubsub
  sv_metrics :: ks_server_metrics
  sv_next_client_id :: ks_pubsub_client_id

record command_env =
  ce_alloc :: "u64 \<Rightarrow> allocator"
  ce_time :: "u64 \<Rightarrow> int"

definition zero_client :: ks_client where
  "zero_client = \<lparr>cl_used = False, cl_fd = 0, cl_id = 0, cl_close_after_write = False,
     cl_drop_connection = False, cl_input = [], cl_input_len = 0, cl_output = [],
     cl_output_offset = 0, cl_output_len = 0\<rparr>"

text \<open>Fresh stack or heap memory: its bytes are written before they are read.\<close>

definition fresh :: "nat \<Rightarrow> bytes" where
  "fresh n = replicate n NUL"

definition get_client :: "ks_server \<Rightarrow> nat \<Rightarrow> ks_client option" where
  "get_client s i = (if i < length (sv_clients s) then Some (sv_clients s ! i) else None)"

definition put_client :: "ks_server \<Rightarrow> nat \<Rightarrow> ks_client \<Rightarrow> ks_server" where
  "put_client s i c = s\<lparr>sv_clients := (sv_clients s)[i := c]\<rparr>"

definition pending :: "ks_client \<Rightarrow> nat" where
  "pending c = cl_output_len c - cl_output_offset c"

text \<open>The string at a pointer into a buffer.\<close>

definition cstr :: "bytes \<Rightarrow> nat \<Rightarrow> string option" where
  "cstr buf p = (if NUL \<in> set (drop p buf) then Some (takeWhile (\<lambda>c. c \<noteq> NUL) (drop p buf)) else None)"

section \<open>Clients\<close>

text \<open>The new client, and the descriptors that were closed.\<close>

definition client_reset :: "ks_client \<Rightarrow> ks_client \<times> int list" where
  "client_reset client = (zero_client, if cl_used client then ks_close (cl_fd client) else [])"

definition client_init ::
    "allocator \<Rightarrow> ks_client \<Rightarrow> int \<Rightarrow> ks_pubsub_client_id \<Rightarrow> int \<times> ks_client \<times> int list" where
  "client_init al client fd client_id =
     (if \<not> c_malloc al Site_client_input (KS_INPUT_CAP + 1) \<or>
         \<not> c_malloc al Site_client_output KS_OUTPUT_CAP
      then (- 1, client, ks_close fd)
      else (0, zero_client\<lparr>cl_used := True, cl_fd := fd, cl_id := client_id,
                 cl_input := fresh (KS_INPUT_CAP + 1), cl_output := fresh KS_OUTPUT_CAP\<rparr>, []))"

definition client_queue :: "ks_client \<Rightarrow> bytes \<Rightarrow> nat \<Rightarrow> (int \<times> ks_client) option" where
  "client_queue client data len = do {
     client \<leftarrow> (if cl_output_offset client > 0 then do {
         let n = pending client;
         output \<leftarrow> memcpy (cl_output client) 0 (take n (drop (cl_output_offset client) (cl_output client)));
         Some (client\<lparr>cl_output := output, cl_output_offset := 0, cl_output_len := n\<rparr>) }
       else Some client);
     if len > KS_OUTPUT_CAP - cl_output_len client then Some (- 1, client)
     else if length data < len then None
     else do {
       output \<leftarrow> memcpy (cl_output client) (cl_output_len client) (take len data);
       Some (0, client\<lparr>cl_output := output, cl_output_len := cl_output_len client + len\<rparr>) } }"

definition queue_error :: "ks_client \<Rightarrow> string \<Rightarrow> (int \<times> ks_client) option" where
  "queue_error client message = do {
     (len, response) \<leftarrow> ks_fmt_error (Some (fresh 256)) 256 (Some message);
     if len = 0 then Some (- 1, client)
     else do { data \<leftarrow> response; client_queue client data len } }"

text \<open>A formatter called on \<open>response + offset\<close>.\<close>

definition at_offset ::
    "bytes \<Rightarrow> nat \<Rightarrow> (bytes option \<Rightarrow> (nat \<times> bytes option) option) \<Rightarrow> (nat \<times> bytes) option" where
  "at_offset response offset f = do {
     (written, rest) \<leftarrow> f (Some (drop offset response));
     rest \<leftarrow> rest;
     Some (written, take offset response @ rest) }"

definition format_pubsub_message ::
    "bytes \<Rightarrow> nat \<Rightarrow> string \<Rightarrow> bytes option \<Rightarrow> nat \<Rightarrow> (nat \<times> bytes) option" where
  "format_pubsub_message response capacity channel message message_length = do {
     (offset, response) \<leftarrow> at_offset response 0 (\<lambda>d. ks_fmt_array_header d capacity 3);
     if offset = 0 then Some (0, response) else do {
     (written, response) \<leftarrow> at_offset response offset
       (\<lambda>d. ks_fmt_bulk d (capacity - offset) (Some ''message'') 7);
     if written = 0 then Some (0, response) else do {
     let offset = offset + written;
     (written, response) \<leftarrow> at_offset response offset
       (\<lambda>d. ks_fmt_bulk d (capacity - offset) (Some channel) (length channel));
     if written = 0 then Some (0, response) else do {
     let offset = offset + written;
     (written, response) \<leftarrow> at_offset response offset
       (\<lambda>d. ks_fmt_bulk d (capacity - offset) message message_length);
     Some (if written = 0 then 0 else offset + written, response) } } } }"

text \<open>The delivery callback; its context is the array of clients.\<close>

fun deliver_pubsub_message ::
    "ks_pubsub_client_id \<Rightarrow> string \<Rightarrow> bytes option \<Rightarrow> u64 \<Rightarrow> ks_client list \<Rightarrow>
     (bool \<times> ks_client list) option" where
  "deliver_pubsub_message client_id channel message message_length [] = Some (False, [])"
| "deliver_pubsub_message client_id channel message message_length (client # rest) =
     (if \<not> cl_used client \<or> cl_id client \<noteq> client_id then
        map_option (apsnd ((#) client)) (deliver_pubsub_message client_id channel message message_length rest)
      else if cl_drop_connection client then Some (False, client # rest)
      else do {
        (response_length, response) \<leftarrow> format_pubsub_message (fresh (KS_MAX_REQUEST + 128))
          (KS_MAX_REQUEST + 128) channel message (unat message_length);
        if response_length = 0 then Some (False, client\<lparr>cl_drop_connection := True\<rparr> # rest)
        else do {
          (r, client) \<leftarrow> client_queue client response response_length;
          if r \<noteq> 0 then Some (False, client\<lparr>cl_drop_connection := True\<rparr> # rest)
          else Some (True, client # rest) } })"

section \<open>Commands\<close>

definition parse_seconds :: "string \<Rightarrow> int option" where
  "parse_seconds text =
     (if text = [] then None
      else let (parsed, stop, erange) = c_strtoll text
           in if erange \<or> stop = 0 \<or> stop \<noteq> length text then None else Some parsed)"

text \<open>The text of \<open>INFO\<close>.\<close>

definition info_text :: "int \<Rightarrow> nat \<Rightarrow> nat \<Rightarrow> nat \<Rightarrow> nat \<Rightarrow> nat \<Rightarrow> nat \<Rightarrow> nat \<Rightarrow> nat \<Rightarrow> string" where
  "info_text uptime connected max_clients received rejected commands keys channels subscriptions =
     ''# Server'' @ [LF] @
     ''uptime_in_seconds:'' @ fmt_int uptime @ [LF] @
     ''# Clients'' @ [LF] @
     ''connected_clients:'' @ fmt_nat connected @ [LF] @
     ''max_clients:'' @ fmt_nat max_clients @ [LF] @
     ''total_connections_received:'' @ fmt_nat received @ [LF] @
     ''rejected_connections:'' @ fmt_nat rejected @ [LF] @
     ''# Stats'' @ [LF] @
     ''total_commands_processed:'' @ fmt_nat commands @ [LF] @
     ''# Keyspace'' @ [LF] @
     ''keys:'' @ fmt_nat keys @ [LF] @
     ''# PubSub'' @ [LF] @
     ''channels:'' @ fmt_nat channels @ [LF] @
     ''subscriptions:'' @ fmt_nat subscriptions @ [LF]"

definition format_info ::
    "bytes \<Rightarrow> nat \<Rightarrow> ks_config \<Rightarrow> ks_server_metrics \<Rightarrow> int \<Rightarrow> ks_kv \<Rightarrow> ks_pubsub \<Rightarrow>
     (nat \<times> bytes option \<times> ks_kv) option" where
  "format_info response capacity cfg metrics now store pubsub = do {
     let uptime = (if now \<noteq> - 1 \<and> mt_started_at metrics \<noteq> - 1 \<and> now \<ge> mt_started_at metrics
                   then now - mt_started_at metrics else 0);
     (keys, store) \<leftarrow> ks_kv_size store;
     (written, info) \<leftarrow> c_snprintf (fresh 768) 768
       (info_text uptime (unat (mt_connected_clients metrics)) (unat (cfg_max_clients cfg))
          (unat (mt_total_connections metrics)) (unat (mt_rejected_connections metrics))
          (unat (mt_total_commands metrics)) (unat keys)
          (unat (ks_pubsub_channel_count (Some pubsub)))
          (unat (ks_pubsub_subscription_count (Some pubsub))));
     if written < 0 \<or> nat written \<ge> 768 then Some (0, Some response, store)
     else do {
       (n, response) \<leftarrow> ks_fmt_bulk (Some response) capacity (Some info) (nat written);
       Some (n, response, store) } }"

definition help_text :: string where
  "help_text =
     ''Kessel commands:'' @ [LF] @
     '' PING'' @ [LF] @
     '' ECHO <string>'' @ [LF] @
     '' SET <key> <value>'' @ [LF] @
     '' GET <key>'' @ [LF] @
     '' DEL <key>'' @ [LF] @
     '' EXISTS <key>'' @ [LF] @
     '' SETEX <key> <seconds> <value>'' @ [LF] @
     '' EXPIRE <key> <seconds>'' @ [LF] @
     '' TTL <key>'' @ [LF] @
     '' PUBLISH <channel> <message>'' @ [LF] @
     '' SUBSCRIBE <channel>'' @ [LF] @
     '' UNSUBSCRIBE <channel>'' @ [LF] @
     '' INFO'' @ [LF] @
     '' HELP'' @ [LF]"

text \<open>The two ways a command ends: an error line, or the response in the buffer.\<close>

definition reply_error :: "ks_server \<Rightarrow> nat \<Rightarrow> string \<Rightarrow> (int \<times> ks_server) option" where
  "reply_error s ci message = do {
     client \<leftarrow> get_client s ci;
     (r, client) \<leftarrow> queue_error client message;
     Some (r, put_client s ci client) }"

definition reply :: "ks_server \<Rightarrow> nat \<Rightarrow> nat \<times> bytes option \<Rightarrow> (int \<times> ks_server) option" where
  "reply s ci formatted = (case formatted of (response_len, response) \<Rightarrow>
     if response_len = 0 then Some (- 1, s)
     else do {
       client \<leftarrow> get_client s ci;
       data \<leftarrow> response;
       (r, client) \<leftarrow> client_queue client data response_len;
       Some (r, put_client s ci client) })"

definition wrong_arguments :: "string \<Rightarrow> string" where
  "wrong_arguments name = ''wrong number of arguments to '' @ [CHR 0x27] @ name @ [CHR 0x27]"

definition RESPONSE_CAP :: nat where
  "RESPONSE_CAP = KS_MAX_REQUEST + 64"

abbreviation response_buffer :: "bytes option" where
  "response_buffer \<equiv> Some (fresh RESPONSE_CAP)"

text \<open>
  The branches of \<open>handle_command\<close>, one definition for each command, on the arguments it
  was given.
\<close>

definition cmd_ping :: "ks_server \<Rightarrow> nat \<Rightarrow> string list \<Rightarrow> (int \<times> ks_server) option" where
  "cmd_ping s ci args =
     (if length args \<noteq> 0 then reply_error s ci (wrong_arguments ''PING'')
      else do { r \<leftarrow> ks_fmt_simple response_buffer RESPONSE_CAP (Some ''PONG''); reply s ci r })"

definition cmd_echo :: "ks_server \<Rightarrow> nat \<Rightarrow> string list \<Rightarrow> (int \<times> ks_server) option" where
  "cmd_echo s ci args =
     (if length args \<noteq> 1 then reply_error s ci (wrong_arguments ''ECHO'')
      else do {
        r \<leftarrow> ks_fmt_bulk response_buffer RESPONSE_CAP (Some (args ! 0)) (length (args ! 0));
        reply s ci r })"

definition cmd_help :: "ks_server \<Rightarrow> nat \<Rightarrow> string list \<Rightarrow> (int \<times> ks_server) option" where
  "cmd_help s ci args =
     (if length args \<noteq> 0 then reply_error s ci (wrong_arguments ''HELP'')
      else do {
        r \<leftarrow> ks_fmt_bulk response_buffer RESPONSE_CAP (Some help_text) (length help_text);
        reply s ci r })"

definition cmd_set :: "allocator \<Rightarrow> ks_server \<Rightarrow> nat \<Rightarrow> string list \<Rightarrow> (int \<times> ks_server) option" where
  "cmd_set al s ci args =
     (if length args \<noteq> 2 then reply_error s ci (wrong_arguments ''SET'')
      else do {
        (result, store) \<leftarrow> ks_kv_set al (sv_store s) (Some (args ! 0)) (Some (args ! 1))
          (of_nat (length (args ! 1)));
        let s = s\<lparr>sv_store := store\<rparr>;
        if result = KS_KV_SET_ERROR then reply_error s ci ''unable to store value''
        else do { r \<leftarrow> ks_fmt_simple response_buffer RESPONSE_CAP (Some ''OK''); reply s ci r } })"

definition cmd_get :: "ks_server \<Rightarrow> nat \<Rightarrow> string list \<Rightarrow> (int \<times> ks_server) option" where
  "cmd_get s ci args =
     (if length args \<noteq> 1 then reply_error s ci (wrong_arguments ''GET'')
      else do {
        (value, value_size, store) \<leftarrow> ks_kv_get (sv_store s) (Some (args ! 0));
        let s = s\<lparr>sv_store := store\<rparr>;
        r \<leftarrow> (if value = None then ks_fmt_nil response_buffer RESPONSE_CAP
             else ks_fmt_bulk response_buffer RESPONSE_CAP value (unat value_size));
        reply s ci r })"

definition cmd_del :: "ks_server \<Rightarrow> nat \<Rightarrow> string list \<Rightarrow> (int \<times> ks_server) option" where
  "cmd_del s ci args =
     (if length args \<noteq> 1 then reply_error s ci (wrong_arguments ''DEL'')
      else do {
        (removed, store) \<leftarrow> ks_kv_delete (sv_store s) (Some (args ! 0));
        r \<leftarrow> ks_fmt_int response_buffer RESPONSE_CAP (if removed then 1 else 0);
        reply (s\<lparr>sv_store := store\<rparr>) ci r })"

definition cmd_exists :: "ks_server \<Rightarrow> nat \<Rightarrow> string list \<Rightarrow> (int \<times> ks_server) option" where
  "cmd_exists s ci args =
     (if length args \<noteq> 1 then reply_error s ci (wrong_arguments ''EXISTS'')
      else do {
        (present, store) \<leftarrow> ks_kv_exists (sv_store s) (Some (args ! 0));
        r \<leftarrow> ks_fmt_int response_buffer RESPONSE_CAP (if present then 1 else 0);
        reply (s\<lparr>sv_store := store\<rparr>) ci r })"

definition cmd_setex :: "allocator \<Rightarrow> ks_server \<Rightarrow> nat \<Rightarrow> string list \<Rightarrow> (int \<times> ks_server) option" where
  "cmd_setex al s ci args =
     (if length args \<noteq> 3 then reply_error s ci (wrong_arguments ''SETEX'')
      else case parse_seconds (args ! 1) of
        None \<Rightarrow> reply_error s ci ''invalid expire time''
      | Some seconds \<Rightarrow>
          if seconds \<le> 0 then reply_error s ci ''invalid expire time''
          else do {
            (result, store) \<leftarrow> ks_kv_set_ex al (sv_store s) (Some (args ! 0)) (Some (args ! 2))
              (of_nat (length (args ! 2))) (of_int seconds);
            let s = s\<lparr>sv_store := store\<rparr>;
            if result = KS_KV_SET_ERROR then reply_error s ci ''unable to store value''
            else do { r \<leftarrow> ks_fmt_simple response_buffer RESPONSE_CAP (Some ''OK''); reply s ci r } })"

definition cmd_expire :: "ks_server \<Rightarrow> nat \<Rightarrow> string list \<Rightarrow> (int \<times> ks_server) option" where
  "cmd_expire s ci args =
     (if length args \<noteq> 2 then reply_error s ci (wrong_arguments ''EXPIRE'')
      else case parse_seconds (args ! 1) of
        None \<Rightarrow> reply_error s ci ''invalid expire time''
      | Some seconds \<Rightarrow> do {
          (expire_result, store) \<leftarrow>
            (if seconds \<le> 0 then do {
               (removed, store) \<leftarrow> ks_kv_delete (sv_store s) (Some (args ! 0));
               Some (if removed then KS_KV_EXPIRE_UPDATED else KS_KV_EXPIRE_MISSING, store) }
             else ks_kv_expire (sv_store s) (Some (args ! 0)) (of_int seconds));
          let s = s\<lparr>sv_store := store\<rparr>;
          if expire_result = KS_KV_EXPIRE_ERROR then reply_error s ci ''invalid expire time''
          else do {
            r \<leftarrow> ks_fmt_int response_buffer RESPONSE_CAP
                  (if expire_result = KS_KV_EXPIRE_UPDATED then 1 else 0);
            reply s ci r } })"

definition cmd_ttl :: "ks_server \<Rightarrow> nat \<Rightarrow> string list \<Rightarrow> (int \<times> ks_server) option" where
  "cmd_ttl s ci args =
     (if length args \<noteq> 1 then reply_error s ci (wrong_arguments ''TTL'')
      else do {
        (ttl, store) \<leftarrow> ks_kv_ttl (sv_store s) (Some (args ! 0));
        r \<leftarrow> ks_fmt_int response_buffer RESPONSE_CAP ttl;
        reply (s\<lparr>sv_store := store\<rparr>) ci r })"

definition cmd_subscribe :: "allocator \<Rightarrow> ks_server \<Rightarrow> nat \<Rightarrow> string list \<Rightarrow> (int \<times> ks_server) option" where
  "cmd_subscribe al s ci args =
     (if length args \<noteq> 1 then reply_error s ci (wrong_arguments ''SUBSCRIBE'')
      else do {
        client \<leftarrow> get_client s ci;
        let (status, pubsub) = ks_pubsub_subscribe al (Some (sv_pubsub s)) (Some (args ! 0)) (cl_id client);
        pubsub \<leftarrow> pubsub;
        let s = s\<lparr>sv_pubsub := pubsub\<rparr>;
        if status = KS_PUBSUB_NO_MEMORY then reply_error s ci ''unable to subscribe''
        else if status = KS_PUBSUB_INVALID_ARGUMENT then reply_error s ci ''invalid channel''
        else do { r \<leftarrow> ks_fmt_simple response_buffer RESPONSE_CAP (Some ''OK''); reply s ci r } })"

definition cmd_unsubscribe :: "ks_server \<Rightarrow> nat \<Rightarrow> string list \<Rightarrow> (int \<times> ks_server) option" where
  "cmd_unsubscribe s ci args =
     (if length args \<noteq> 1 then reply_error s ci (wrong_arguments ''UNSUBSCRIBE'')
      else do {
        client \<leftarrow> get_client s ci;
        let (status, pubsub, freed) =
          ks_pubsub_unsubscribe (Some (sv_pubsub s)) (Some (args ! 0)) (cl_id client);
        pubsub \<leftarrow> pubsub;
        r \<leftarrow> ks_fmt_int response_buffer RESPONSE_CAP (if status = KS_PUBSUB_OK then 1 else 0);
        reply (s\<lparr>sv_pubsub := pubsub\<rparr>) ci r })"

text \<open>The cast \<open>(long long)\<close> of the number of recipients reads it as two's complement.\<close>

definition cmd_publish :: "ks_server \<Rightarrow> nat \<Rightarrow> string list \<Rightarrow> (int \<times> ks_server) option" where
  "cmd_publish s ci args =
     (if length args \<noteq> 2 then reply_error s ci (wrong_arguments ''PUBLISH'')
      else do {
        (recipients, clients) \<leftarrow> ks_pubsub_publish (Some (sv_pubsub s)) (Some (args ! 0))
          (Some (args ! 1)) (of_nat (length (args ! 1))) (Some deliver_pubsub_message) (sv_clients s);
        r \<leftarrow> ks_fmt_int response_buffer RESPONSE_CAP (sint recipients);
        reply (s\<lparr>sv_clients := clients\<rparr>) ci r })"

definition cmd_info :: "int \<Rightarrow> ks_config \<Rightarrow> ks_server \<Rightarrow> nat \<Rightarrow> string list \<Rightarrow> (int \<times> ks_server) option" where
  "cmd_info now cfg s ci args =
     (if length args \<noteq> 0 then reply_error s ci (wrong_arguments ''INFO'')
      else do {
        (n, response, store) \<leftarrow> format_info (fresh RESPONSE_CAP) RESPONSE_CAP cfg (sv_metrics s) now
          (sv_store s) (sv_pubsub s);
        reply (s\<lparr>sv_store := store\<rparr>) ci (n, response) })"

definition dispatch ::
    "allocator \<Rightarrow> int \<Rightarrow> ks_config \<Rightarrow> ks_server \<Rightarrow> nat \<Rightarrow> string \<Rightarrow> string list \<Rightarrow>
     (int \<times> ks_server) option" where
  "dispatch al now cfg s ci cmd args =
     (if c_strcmp cmd ''PING'' = 0 then cmd_ping s ci args
      else if c_strcmp cmd ''ECHO'' = 0 then cmd_echo s ci args
      else if c_strcmp cmd ''HELP'' = 0 then cmd_help s ci args
      else if c_strcmp cmd ''SET'' = 0 then cmd_set al s ci args
      else if c_strcmp cmd ''GET'' = 0 then cmd_get s ci args
      else if c_strcmp cmd ''DEL'' = 0 then cmd_del s ci args
      else if c_strcmp cmd ''EXISTS'' = 0 then cmd_exists s ci args
      else if c_strcmp cmd ''SETEX'' = 0 then cmd_setex al s ci args
      else if c_strcmp cmd ''EXPIRE'' = 0 then cmd_expire s ci args
      else if c_strcmp cmd ''TTL'' = 0 then cmd_ttl s ci args
      else if c_strcmp cmd ''SUBSCRIBE'' = 0 then cmd_subscribe al s ci args
      else if c_strcmp cmd ''UNSUBSCRIBE'' = 0 then cmd_unsubscribe s ci args
      else if c_strcmp cmd ''PUBLISH'' = 0 then cmd_publish s ci args
      else if c_strcmp cmd ''INFO'' = 0 then cmd_info now cfg s ci args
      else reply_error s ci ''unknown command'')"

text \<open>
  \<open>handle_command\<close> on the line at offset \<open>line\<close> of the client's input buffer, which the
  parser rewrites. The structure \<open>command\<close> is not initialised, the parser fills it.
\<close>

definition args_of :: "bytes \<Rightarrow> ks_cmd \<Rightarrow> string list option" where
  "args_of buf command = those (map (\<lambda>q. do { p \<leftarrow> q; cstr buf p }) (take (c_argc command) (c_argv command)))"

definition handle_command ::
    "command_env \<Rightarrow> ks_config \<Rightarrow> ks_server \<Rightarrow> nat \<Rightarrow> nat \<Rightarrow> (int \<times> ks_server) option" where
  "handle_command env cfg s ci line = do {
     client \<leftarrow> get_client s ci;
     let number = mt_total_commands (sv_metrics s);
     let s = s\<lparr>sv_metrics := (sv_metrics s)\<lparr>mt_total_commands := number + 1\<rparr>\<rparr>;
     (ok, buf, command) \<leftarrow> ks_parse_line (Some (drop line (cl_input client)))
       \<lparr>c_cmd = None, c_argv = [], c_argc = 0\<rparr>;
     buf \<leftarrow> buf;
     let s = put_client s ci (client\<lparr>cl_input := take line (cl_input client) @ buf\<rparr>);
     if \<not> ok \<or> c_cmd command = None then reply_error s ci ''invalid command''
     else do {
       p \<leftarrow> c_cmd command;
       cmd \<leftarrow> cstr buf p;
       args \<leftarrow> args_of buf command;
       dispatch (ce_alloc env number) (ce_time env number) cfg s ci cmd args } }"

section \<open>Requests\<close>

text \<open>\<open>memchr(buf + p, c, n)\<close>: the index of the first occurrence.\<close>

definition c_memchr :: "bytes \<Rightarrow> nat \<Rightarrow> char \<Rightarrow> nat \<Rightarrow> nat option option" where
  "c_memchr buf p c n =
     (if length buf < p + n then None
      else let before = takeWhile (\<lambda>x. x \<noteq> c) (take n (drop p buf))
           in Some (if length before < n then Some (p + length before) else None))"

text \<open>
  One round of the loop of \<open>process_requests\<close>, entered with \<open>consumed < input_len\<close>: how it
  ends, and the server. \<open>Break\<close> and \<open>Continue\<close> carry the new value of \<open>consumed\<close>.
\<close>

datatype request_step = Return int | Break nat | Continue nat

definition request_too_large :: "ks_server \<Rightarrow> nat \<Rightarrow> ks_client \<Rightarrow> (request_step \<times> ks_server) option" where
  "request_too_large s ci client = do {
     (r, client) \<leftarrow> queue_error client ''request too large'';
     Some (if r \<noteq> 0 then (Return (- 1), put_client s ci client)
           else (Break (cl_input_len client), put_client s ci (client\<lparr>cl_close_after_write := True\<rparr>))) }"

definition run_line ::
    "command_env \<Rightarrow> ks_config \<Rightarrow> ks_server \<Rightarrow> nat \<Rightarrow> ks_client \<Rightarrow> nat \<Rightarrow> nat \<Rightarrow> (request_step \<times> ks_server) option" where
  "run_line env cfg s ci client consumed stop = do {
     let has_following_data = (stop < cl_input_len client);
     saved \<leftarrow> (if has_following_data then rd (cl_input client) stop else Some NUL);
     input \<leftarrow> wr (cl_input client) stop NUL;
     (result, s) \<leftarrow> handle_command env cfg (put_client s ci (client\<lparr>cl_input := input\<rparr>)) ci consumed;
     s \<leftarrow> (if has_following_data then do {
         client \<leftarrow> get_client s ci;
         input \<leftarrow> wr (cl_input client) stop saved;
         Some (put_client s ci (client\<lparr>cl_input := input\<rparr>)) }
       else Some s);
     Some (if result \<noteq> 0 then Return (- 1) else Continue stop, s) }"

definition process_step ::
    "command_env \<Rightarrow> ks_config \<Rightarrow> nat \<Rightarrow> nat \<Rightarrow> ks_server \<Rightarrow> (request_step \<times> ks_server) option" where
  "process_step env cfg ci consumed s = do {
     client \<leftarrow> get_client s ci;
     if pending client \<ge> KS_OUTPUT_HIGH_WATER then Some (Break consumed, s)
     else do {
     newline \<leftarrow> c_memchr (cl_input client) consumed LF (cl_input_len client - consumed);
     case newline of None \<Rightarrow> Some (Break consumed, s)
     | Some newline \<Rightarrow> do {
       let stop = newline + 1;
       let line_len = stop - consumed;
       let content_len = line_len - 1;
       content_len \<leftarrow> (if content_len > 0 then do {
           c \<leftarrow> rd (cl_input client) (stop - 2);
           Some (if c = CR then content_len - 1 else content_len) }
         else Some content_len);
       if content_len > KS_MAX_REQUEST then request_too_large s ci client
       else do {
         zero \<leftarrow> c_memchr (cl_input client) consumed NUL line_len;
         if zero \<noteq> None then do {
           (r, client) \<leftarrow> queue_error client ''invalid command'';
           Some (if r \<noteq> 0 then Return (- 1) else Continue stop, put_client s ci client) }
         else run_line env cfg s ci client consumed stop } } } }"

partial_function (option) process_loop ::
    "command_env \<Rightarrow> ks_config \<Rightarrow> nat \<Rightarrow> nat \<Rightarrow> ks_server \<Rightarrow> (int \<times> nat \<times> ks_server) option" where
  [code]: "process_loop env cfg ci consumed s = do {
     client \<leftarrow> get_client s ci;
     if consumed < cl_input_len client then do {
       (st, s) \<leftarrow> process_step env cfg ci consumed s;
       (case st of
          Return r \<Rightarrow> Some (r, consumed, s)
        | Break n \<Rightarrow> Some (0, n, s)
        | Continue n \<Rightarrow> process_loop env cfg ci n s) }
     else Some (0, consumed, s) }"

definition process_requests ::
    "command_env \<Rightarrow> ks_config \<Rightarrow> ks_server \<Rightarrow> nat \<Rightarrow> (int \<times> ks_server) option" where
  "process_requests env cfg s ci = do {
     (r, consumed, s) \<leftarrow> process_loop env cfg ci 0 s;
     if r \<noteq> 0 then Some (- 1, s)
     else if consumed > 0 then do {
       client \<leftarrow> get_client s ci;
       let remaining = cl_input_len client - consumed;
       input \<leftarrow> memcpy (cl_input client) 0 (take remaining (drop consumed (cl_input client)));
       Some (0, put_client s ci (client\<lparr>cl_input := input, cl_input_len := remaining\<rparr>)) }
     else Some (0, s) }"

text \<open>\<open>read_client\<close>, with the answers of \<open>recv\<close> that are left.\<close>

partial_function (option) read_client ::
    "command_env \<Rightarrow> ks_config \<Rightarrow> nat \<Rightarrow> ks_server \<Rightarrow> recv_answer list \<Rightarrow>
     (int \<times> ks_server \<times> recv_answer list) option" where
  [code]: "read_client env cfg ci s os = do {
     client \<leftarrow> get_client s ci;
     if pending client \<ge> KS_OUTPUT_HIGH_WATER then Some (0, s, os)
     else if cl_input_len client = KS_INPUT_CAP then do {
       (r, client) \<leftarrow> queue_error client ''request too large'';
       Some (if r \<noteq> 0 then (- 1, put_client s ci client, os)
             else (0, put_client s ci (client\<lparr>cl_input_len := 0, cl_close_after_write := True\<rparr>), os)) }
     else do {
       (status, received, os) \<leftarrow> ks_recv os (KS_INPUT_CAP - cl_input_len client);
       input \<leftarrow> memcpy (cl_input client) (cl_input_len client) received;
       if status = KS_IO_WOULD_BLOCK then Some (0, s, os)
       else if status = KS_IO_CLOSED then do {
         (r, client) \<leftarrow> (if cl_input_len client \<noteq> 0 then queue_error client ''incomplete command''
                         else Some (0, client));
         Some (if r \<noteq> 0 then (- 1, put_client s ci client, os)
               else (0, put_client s ci (client\<lparr>cl_input_len := 0, cl_close_after_write := True\<rparr>), os)) }
       else if status = KS_IO_ERROR then Some (- 1, s, os)
       else do {
         (r, s) \<leftarrow> process_requests env cfg
           (put_client s ci (client\<lparr>cl_input := input, cl_input_len := cl_input_len client + length received\<rparr>)) ci;
         if r \<noteq> 0 then Some (- 1, s, os)
         else do {
           client \<leftarrow> get_client s ci;
           if cl_close_after_write client then Some (0, s, os)
           else read_client env cfg ci s os } } } }"

text \<open>\<open>write_client\<close>, with the bytes handed to \<open>send\<close> and the answers that are left.\<close>

partial_function (option) write_loop ::
    "ks_client \<Rightarrow> send_answer list \<Rightarrow> bytes \<Rightarrow> (int option \<times> ks_client \<times> bytes \<times> send_answer list) option" where
  [code]: "write_loop client os out =
     (if cl_output_offset client < cl_output_len client then do {
        (status, sent, os) \<leftarrow> ks_send os (pending client);
        if status = KS_IO_WOULD_BLOCK then Some (Some 0, client, out, os)
        else if status = KS_IO_CLOSED \<or> status = KS_IO_ERROR then Some (Some (- 1), client, out, os)
        else write_loop (client\<lparr>cl_output_offset := cl_output_offset client + sent\<rparr>) os
               (out @ take sent (drop (cl_output_offset client) (cl_output client))) }
      else Some (None, client, out, os))"

definition write_client ::
    "ks_client \<Rightarrow> send_answer list \<Rightarrow> (int \<times> ks_client \<times> bytes \<times> send_answer list) option" where
  "write_client client os = do {
     (r, client, out, os) \<leftarrow> write_loop client os [];
     case r of
       Some r \<Rightarrow> Some (r, client, out, os)
     | None \<Rightarrow> Some (if cl_close_after_write client then - 1 else 0,
                     client\<lparr>cl_output_offset := 0, cl_output_len := 0\<rparr>, out, os) }"

end
