(* ===== verification/Kessel_Event_Loop.thy ===== *)
theory Kessel_Event_Loop
  imports Kessel_Server
begin

text \<open>
  \<^verbatim>\<open>src/src/ks_server.c\<close>, from \<open>accept_clients\<close> on, and \<^verbatim>\<open>src/src/main_server.c\<close>:
  accepting connections, one round of the event loop, the loop, start and shutdown.

  What one round sees of the outside world is a record \<open>tick_env\<close>: the answers of \<open>select\<close>,
  of \<open>accept\<close>, of \<open>recv\<close> and \<open>send\<close> for every client (by its place in the array), the
  successive values of the flag \<open>ks_stop_requested\<close> that \<open>accept_clients\<close> reads, and what
  the commands of the round are given. What the server does to the outside world is returned:
  the descriptors it closes and the bytes it hands to \<open>send\<close>, in order.
\<close>

section \<open>Accepting connections\<close>

fun free_slot :: "ks_client list \<Rightarrow> nat" where
  "free_slot [] = 0"
| "free_slot (c # cs) = (if \<not> cl_used c then 0 else Suc (free_slot cs))"

definition reject_connection :: "ks_server \<Rightarrow> ks_server" where
  "reject_connection s =
     s\<lparr>sv_metrics := (sv_metrics s)\<lparr>mt_rejected_connections := mt_rejected_connections (sv_metrics s) + 1\<rparr>\<rparr>"

definition next_id :: "ks_pubsub_client_id \<Rightarrow> ks_pubsub_client_id" where
  "next_id n = (if n + 1 = 0 then 1 else n + 1)"

text \<open>What \<open>accept_clients\<close> does with one accepted descriptor: the server, the descriptors closed.\<close>

definition admit :: "allocator \<Rightarrow> ks_server \<Rightarrow> int \<Rightarrow> ks_server \<times> int list" where
  "admit al s client_fd =
     (let slot = free_slot (sv_clients s) in
      if slot = length (sv_clients s) \<or> client_fd \<ge> int FD_SETSIZE then (reject_connection s, ks_close client_fd)
      else
        let client_id = sv_next_client_id s;
            s = s\<lparr>sv_next_client_id := next_id client_id\<rparr>;
            (r, client, closed) = client_init al (sv_clients s ! slot) client_fd client_id
        in if r \<noteq> 0 then (reject_connection s, closed)
           else let metrics = sv_metrics s in
             ((put_client s slot client)\<lparr>sv_metrics := metrics\<lparr>
                mt_connected_clients := mt_connected_clients metrics + 1,
                mt_total_connections := mt_total_connections metrics + 1\<rparr>\<rparr>, closed))"

text \<open>
  The loop, by the number of rounds left; a round is numbered by how many are left. The answers
  are those of \<open>accept\<close>; the result says which descriptors were closed.
\<close>

fun accept_loop ::
    "(nat \<Rightarrow> bool) \<Rightarrow> (nat \<Rightarrow> allocator) \<Rightarrow> nat \<Rightarrow> ks_server \<Rightarrow> accept_answer list \<Rightarrow>
     (int \<times> ks_server \<times> int list) option" where
  "accept_loop stop_requested al 0 s os = Some (0, s, [])"
| "accept_loop stop_requested al (Suc n) s os =
     (if stop_requested n then Some (0, s, [])
      else do {
        (client_fd, closed, os) \<leftarrow> ks_accept os;
        if client_fd = KS_NET_ACCEPT_WOULD_BLOCK then Some (0, s, closed)
        else if client_fd = KS_NET_ACCEPT_ERROR then Some (- 1, s, closed)
        else do {
          let (s, dropped) = admit (al n) s client_fd;
          (r, s, later) \<leftarrow> accept_loop stop_requested al n s os;
          Some (r, s, closed @ dropped @ later) } })"

definition accept_clients ::
    "(nat \<Rightarrow> bool) \<Rightarrow> (nat \<Rightarrow> allocator) \<Rightarrow> ks_server \<Rightarrow> accept_answer list \<Rightarrow>
     (int \<times> ks_server \<times> int list) option" where
  "accept_clients stop_requested al s os = accept_loop stop_requested al KS_ACCEPT_BUDGET s os"

section \<open>One round of the event loop\<close>

text \<open>
  An answer of \<open>select\<close>: an error, or the descriptors that are ready to be read and to be
  written. The call leaves those in the sets that were in them and are ready.
\<close>

record tick_env =
  te_select :: "ks_errno + int list \<times> int list"
  te_stop :: "nat \<Rightarrow> bool"
  te_accept_alloc :: "nat \<Rightarrow> allocator"
  te_accept :: "accept_answer list"
  te_recv :: "nat \<Rightarrow> recv_answer list"
  te_send :: "nat \<Rightarrow> send_answer list"
  te_commands :: command_env

definition wants_read :: "ks_client \<Rightarrow> bool" where
  "wants_read client \<longleftrightarrow> cl_used client \<and> \<not> cl_drop_connection client \<and>
     \<not> cl_close_after_write client \<and> pending client < KS_OUTPUT_HIGH_WATER"

definition wants_write :: "ks_client \<Rightarrow> bool" where
  "wants_write client \<longleftrightarrow> cl_used client \<and> \<not> cl_drop_connection client \<and>
     cl_output_offset client < cl_output_len client"

definition c_select :: "int list \<times> int list \<Rightarrow> int list \<Rightarrow> int list \<Rightarrow> int list \<times> int list" where
  "c_select ready read_fds write_fds =
     (filter (\<lambda>fd. fd \<in> set (fst ready)) read_fds, filter (\<lambda>fd. fd \<in> set (snd ready)) write_fds)"

text \<open>The end of a connection.\<close>

definition disconnect :: "ks_server \<Rightarrow> nat \<Rightarrow> (ks_server \<times> int list) option" where
  "disconnect s ci = do {
     client \<leftarrow> get_client s ci;
     let n = mt_connected_clients (sv_metrics s);
     let (removed, pubsub, freed) = ks_pubsub_remove_client (Some (sv_pubsub s)) (cl_id client);
     pubsub \<leftarrow> pubsub;
     let (client, closed) = client_reset client;
     Some ((put_client s ci client)\<lparr>
         sv_metrics := (sv_metrics s)\<lparr>mt_connected_clients := if n > 0 then n - 1 else n\<rparr>,
         sv_pubsub := pubsub\<rparr>, closed) }"

text \<open>
  The four stages that serve one client: reading, writing, requests left in the buffer, and the
  orderly end after the last byte is written. Each is skipped when the connection is to be closed.
\<close>

definition stage_read ::
    "tick_env \<Rightarrow> ks_config \<Rightarrow> int list \<Rightarrow> nat \<Rightarrow> ks_server \<Rightarrow> (bool \<times> ks_server) option" where
  "stage_read te cfg read_fds ci s = do {
     client \<leftarrow> get_client s ci;
     if cl_fd client \<in> set read_fds then do {
       (r, s, os) \<leftarrow> read_client (te_commands te) cfg ci s (te_recv te ci);
       Some (cl_drop_connection client \<or> r \<noteq> 0, s) }
     else Some (cl_drop_connection client, s) }"

definition stage_write ::
    "tick_env \<Rightarrow> int list \<Rightarrow> nat \<Rightarrow> bool \<Rightarrow> ks_server \<Rightarrow> (bool \<times> ks_server \<times> bytes) option" where
  "stage_write te write_fds ci should_close s = do {
     client \<leftarrow> get_client s ci;
     if \<not> should_close \<and> cl_fd client \<in> set write_fds then do {
       (r, client, out, os) \<leftarrow> write_client client (te_send te ci);
       Some (r \<noteq> 0, put_client s ci client, out) }
     else Some (should_close, s, []) }"

definition stage_requests ::
    "tick_env \<Rightarrow> ks_config \<Rightarrow> nat \<Rightarrow> bool \<Rightarrow> ks_server \<Rightarrow> (bool \<times> ks_server) option" where
  "stage_requests te cfg ci should_close s = do {
     client \<leftarrow> get_client s ci;
     if \<not> should_close \<and> cl_input_len client > 0 \<and> pending client < KS_OUTPUT_HIGH_WATER then do {
       (r, s) \<leftarrow> process_requests (te_commands te) cfg s ci;
       Some (r \<noteq> 0, s) }
     else Some (should_close, s) }"

definition stage_close :: "nat \<Rightarrow> bool \<Rightarrow> ks_server \<Rightarrow> (ks_server \<times> int list) option" where
  "stage_close ci should_close s = do {
     client \<leftarrow> get_client s ci;
     if should_close \<or> cl_close_after_write client \<and> cl_output_len client = cl_output_offset client
     then disconnect s ci
     else Some (s, []) }"

definition serve_client ::
    "tick_env \<Rightarrow> ks_config \<Rightarrow> int list \<Rightarrow> int list \<Rightarrow> nat \<Rightarrow> ks_server \<Rightarrow>
     (ks_server \<times> int list \<times> (int \<times> bytes) list) option" where
  "serve_client te cfg read_fds write_fds ci s = do {
     client \<leftarrow> get_client s ci;
     if \<not> cl_used client then Some (s, [], [])
     else do {
       (should_close, s) \<leftarrow> stage_read te cfg read_fds ci s;
       (should_close, s, out) \<leftarrow> stage_write te write_fds ci should_close s;
       (should_close, s) \<leftarrow> stage_requests te cfg ci should_close s;
       (s, closed) \<leftarrow> stage_close ci should_close s;
       Some (s, closed, if out = [] then [] else [(cl_fd client, out)]) } }"

fun serve_all ::
    "tick_env \<Rightarrow> ks_config \<Rightarrow> int list \<Rightarrow> int list \<Rightarrow> nat list \<Rightarrow> ks_server \<Rightarrow>
     (ks_server \<times> int list \<times> (int \<times> bytes) list) option" where
  "serve_all te cfg read_fds write_fds [] s = Some (s, [], [])"
| "serve_all te cfg read_fds write_fds (ci # cis) s = do {
     (s, closed, sent) \<leftarrow> serve_client te cfg read_fds write_fds ci s;
     (s, closed', sent') \<leftarrow> serve_all te cfg read_fds write_fds cis s;
     Some (s, closed @ closed', sent @ sent') }"

text \<open>
  One round: whether the loop goes on (\<open>None\<close>) or is left with a result, the server, the ticks
  for which the listener is not polled, the descriptors closed and the bytes sent.
\<close>

record tick_result =
  tr_exit :: "int option"
  tr_server :: ks_server
  tr_backoff :: nat
  tr_closed :: "int list"
  tr_sent :: "(int \<times> bytes) list"

definition tick :: "tick_env \<Rightarrow> ks_config \<Rightarrow> int \<Rightarrow> nat \<Rightarrow> ks_server \<Rightarrow> tick_result option" where
  "tick te cfg listen_fd accept_backoff_ticks s = do {
     (reaped, store) \<leftarrow> ks_kv_reap (sv_store s) KS_REAPER_BUDGET;
     let s = s\<lparr>sv_store := store\<rparr>;
     let listening = (if accept_backoff_ticks = 0 then [listen_fd] else []);
     let backoff = accept_backoff_ticks - 1;
     let read_fds = listening @ map cl_fd (filter wants_read (sv_clients s));
     let write_fds = map cl_fd (filter wants_write (sv_clients s));
     (case te_select te of
        Inl errno \<Rightarrow>
          Some \<lparr>tr_exit = if errno = EINTR then None else Some 1, tr_server = s, tr_backoff = backoff,
                tr_closed = [], tr_sent = []\<rparr>
      | Inr ready \<Rightarrow> do {
          let (read_fds, write_fds) = c_select ready read_fds write_fds;
          (r, s, closed) \<leftarrow>
            (if backoff = 0 \<and> listen_fd \<in> set read_fds
             then accept_clients (te_stop te) (te_accept_alloc te) s (te_accept te)
             else Some (0, s, []));
          let backoff = (if r \<noteq> 0 then 10 else backoff);
          (s, closed', sent) \<leftarrow> serve_all te cfg read_fds write_fds [0..<length (sv_clients s)] s;
          Some \<lparr>tr_exit = None, tr_server = s, tr_backoff = backoff, tr_closed = closed @ closed',
                tr_sent = sent\<rparr> }) }"

section \<open>The loop, start and shutdown\<close>

text \<open>The rounds until the flag \<open>ks_stop_requested\<close> is found set.\<close>

fun event_loop ::
    "ks_config \<Rightarrow> int \<Rightarrow> tick_env list \<Rightarrow> nat \<Rightarrow> ks_server \<Rightarrow>
     (int \<times> ks_server \<times> int list \<times> (int \<times> bytes) list) option" where
  "event_loop cfg listen_fd [] accept_backoff_ticks s = Some (0, s, [], [])"
| "event_loop cfg listen_fd (te # tes) accept_backoff_ticks s = do {
     t \<leftarrow> tick te cfg listen_fd accept_backoff_ticks s;
     case tr_exit t of
       Some result \<Rightarrow> Some (result, tr_server t, tr_closed t, tr_sent t)
     | None \<Rightarrow> do {
         (result, s, closed, sent) \<leftarrow> event_loop cfg listen_fd tes (tr_backoff t) (tr_server t);
         Some (result, s, tr_closed t @ closed, tr_sent t @ sent) } }"

fun shutdown_clients ::
    "ks_client list \<Rightarrow> ks_pubsub \<Rightarrow> (ks_pubsub \<times> ps_free list \<times> int list) option" where
  "shutdown_clients [] pubsub = Some (pubsub, [], [])"
| "shutdown_clients (client # rest) pubsub = do {
     (pubsub, freed) \<leftarrow> (if cl_used client
       then (case ks_pubsub_remove_client (Some pubsub) (cl_id client) of (removed, p, freed) \<Rightarrow>
               map_option (\<lambda>p. (p, freed)) p)
       else Some (pubsub, []));
     let (client, closed) = client_reset client;
     (pubsub, freed', closed') \<leftarrow> shutdown_clients rest pubsub;
     Some (pubsub, freed @ freed', closed @ closed') }"

text \<open>The answers of the operating system and of the allocator during start, and the rounds.\<close>

record run_env =
  re_listen :: listen_os
  re_alloc :: allocator
  re_clock :: "nat \<Rightarrow> (u64 \<times> u64) option"
  re_started_at :: int
  re_ticks :: "tick_env list"

definition sizeof_ks_client :: nat where
  "sizeof_ks_client = 64"

definition initial_server :: "ks_config \<Rightarrow> ks_kv \<Rightarrow> ks_pubsub \<Rightarrow> int \<Rightarrow> ks_server" where
  "initial_server cfg store pubsub started_at =
     \<lparr>sv_clients = replicate (unat (cfg_max_clients cfg)) zero_client, sv_store = store,
      sv_pubsub = pubsub,
      sv_metrics = \<lparr>mt_connected_clients = 0, mt_total_connections = 0, mt_rejected_connections = 0,
        mt_total_commands = 0, mt_started_at = started_at\<rparr>,
      sv_next_client_id = 1\<rparr>"

text \<open>
  \<open>ks_server_run\<close>: the result, the descriptors closed, the bytes sent, and what the
  destruction of the store and of the registry releases.
\<close>

record run_result =
  rr_result :: int
  rr_closed :: "int list"
  rr_sent :: "(int \<times> bytes) list"
  rr_released :: "(string, ks_kv_value) ds_event list"
  rr_freed :: "ps_free list"

definition refused :: "int list \<Rightarrow> run_result" where
  "refused closed = \<lparr>rr_result = 1, rr_closed = closed, rr_sent = [], rr_released = [], rr_freed = []\<rparr>"

definition ks_server_run :: "run_env \<Rightarrow> ks_config option \<Rightarrow> run_result option" where
  "ks_server_run re cfg = (case cfg of None \<Rightarrow> Some (refused []) | Some cfg \<Rightarrow>
     if cfg_max_clients cfg = 0 \<or> unat (cfg_max_clients cfg) \<ge> FD_SETSIZE then Some (refused [])
     else
       let (listen_fd, closed) = ks_listen (re_listen re) (Some (cfg_host cfg)) in
       if listen_fd < 0 then Some (refused closed)
       else if listen_fd \<ge> int FD_SETSIZE then Some (refused (closed @ ks_close listen_fd))
       else (case ks_kv_init (re_alloc re) (re_clock re) of
         None \<Rightarrow> Some (refused (closed @ ks_close listen_fd))
       | Some store \<Rightarrow>
         (case ks_pubsub_create (re_alloc re) of
           None \<Rightarrow> Some ((refused (closed @ ks_close listen_fd))\<lparr>rr_released := snd (ks_kv_destroy store)\<rparr>)
         | Some pubsub \<Rightarrow>
           if \<not> c_calloc (re_alloc re) Site_clients (cfg_max_clients cfg) sizeof_ks_client
           then Some ((refused (closed @ ks_close listen_fd))\<lparr>rr_released := snd (ks_kv_destroy store),
                        rr_freed := ks_pubsub_destroy (Some pubsub)\<rparr>)
           else do {
             (result, s, closed', sent) \<leftarrow> event_loop cfg listen_fd (re_ticks re) 0
               (initial_server cfg store pubsub (re_started_at re));
             (pubsub, freed, closed'') \<leftarrow> shutdown_clients (sv_clients s) (sv_pubsub s);
             Some \<lparr>rr_result = result, rr_closed = closed @ closed' @ closed'' @ ks_close listen_fd,
                   rr_sent = sent, rr_released = snd (ks_kv_destroy (sv_store s)),
                   rr_freed = freed @ ks_pubsub_destroy (Some pubsub)\<rparr> })))"

text \<open>
  \<open>main\<close> of the server on the arguments after the program name: a configuration that
  cannot be loaded ends the program, else the server runs.
\<close>

definition server_main ::
    "run_env \<Rightarrow> (string \<Rightarrow> string option) \<Rightarrow> string list \<Rightarrow> run_result option" where
  "server_main re getenv args =
     (case ks_config_load getenv ks_config_init args of (r, cfg, messages) \<Rightarrow>
        if r \<noteq> 0 then Some (refused []) else ks_server_run re (Some cfg))"

end
