(* ===== verification/Kessel_Protocol_Correct.thy ===== *)
theory Kessel_Protocol_Correct
  imports Kessel_Protocol
begin

text \<open>
  The parser against the grammar, and the exact output of the formatters. The parser rewrites
  the line while it reads it: the lemmas follow what each loop leaves of the buffer, so that
  the strings the result points to are exactly the arguments of the line.
\<close>

section \<open>Strings in a buffer\<close>

lemma cstr_at_iff: "cstr_at buf i s \<longleftrightarrow> NUL \<notin> set s \<and> (\<exists>r. drop i buf = s @ NUL # r)"
proof -
  have "(\<exists>r. drop i buf = s @ NUL # r) \<longleftrightarrow> take (length s + 1) (drop i buf) = s @ [NUL]"
  proof
    assume "take (length s + 1) (drop i buf) = s @ [NUL]"
    then have "drop i buf = (s @ [NUL]) @ drop (length s + 1) (drop i buf)"
      by (metis append_take_drop_id)
    then show "\<exists>r. drop i buf = s @ NUL # r" by auto
  qed auto
  then show ?thesis by (auto simp: cstr_at_def)
qed

lemma rd_drop: "drop i buf = c # r \<Longrightarrow> rd buf i = Some c"
  by (metis drop_all list.distinct(1) nth_via_drop not_le rd_def)

lemma drop_Suc_eq: "drop i buf = c # r \<Longrightarrow> drop (Suc i) buf = r"
  by (metis drop_Suc list.sel(3) tl_drop)

lemma cstr_at_rd:
  assumes "cstr_at buf i s"
  shows "rd buf i = Some (if s = [] then NUL else hd s)" "i + length s < length buf"
    "rd buf (i + length s) = Some NUL"
proof -
  from assms obtain r where r: "drop i buf = s @ NUL # r" by (auto simp: cstr_at_iff)
  then show "rd buf i = Some (if s = [] then NUL else hd s)" by (cases s) (auto intro: rd_drop)
  have "drop (i + length s) buf = NUL # r"
    using arg_cong [OF r, of "drop (length s)"] by (simp add: add.commute)
  then show "rd buf (i + length s) = Some NUL" by (rule rd_drop)
  then show "i + length s < length buf" by (auto simp: rd_def split: if_splits)
qed

lemma cstr_at_hd: "cstr_at buf i s \<Longrightarrow> s \<noteq> [] \<Longrightarrow> hd s \<noteq> NUL"
  by (metis cstr_at_def hd_in_set)

lemma cstr_at_Cons:
  assumes "cstr_at buf i (c # s)" shows "cstr_at buf (Suc i) s" "rd buf i = Some c" "c \<noteq> NUL"
  using assms by (auto simp: cstr_at_iff intro: rd_drop drop_Suc_eq)

lemma cstr_at_append:
  assumes "cstr_at buf i (s @ t)" shows "cstr_at buf (i + length s) t"
  using assms
proof (induction s arbitrary: i)
  case (Cons c s)
  from Cons.IH [of "Suc i"] cstr_at_Cons(1) [of buf i c "s @ t"] Cons.prems show ?case by simp
qed simp

text \<open>What lies beyond a write, and below it, stays.\<close>

lemma cstr_at_drop: "cstr_at buf i s \<Longrightarrow> drop j buf' = drop j buf \<Longrightarrow> j \<le> i \<Longrightarrow> cstr_at buf' i s"
  by (simp add: cstr_at_iff) (metis drop_drop le_add_diff_inverse2)

lemma cstr_at_take:
  assumes s: "cstr_at buf i s" and t: "take j buf' = take j buf" and j: "i + length s < j"
  shows "cstr_at buf' i s"
proof -
  have cut: "take (length s + 1) (drop i b) = take (length s + 1) (drop i (take j b))" for b :: bytes
    using j by (simp add: drop_take min_def)
  show ?thesis using s t cut [of buf] cut [of buf'] by (simp add: cstr_at_def)
qed

lemma cstr_at_below: "cstr_at buf i s \<Longrightarrow> j < i \<Longrightarrow> cstr_at (buf[j := c]) i s"
  by (rule cstr_at_drop [where j = i]) simp_all

text \<open>Writing the NUL that ends a token.\<close>

lemma cstr_at_write:
  assumes "take (length s) (drop i buf) = s" "NUL \<notin> set s" "i + length s < length buf"
  shows "cstr_at (buf[i + length s := NUL]) i s"
proof -
  have "drop i (buf[i + length s := NUL]) = (drop i buf)[length s := NUL]"
    by (simp add: drop_update_swap)
  moreover have "take (length s + 1) ((drop i buf)[length s := NUL]) = s @ [NUL]"
    using assms by (simp add: take_Suc_conv_app_nth)
  ultimately show ?thesis using assms(2) by (simp add: cstr_at_def)
qed

lemma cstr_at_cut:
  assumes "cstr_at buf i (s @ t)" shows "cstr_at (buf[i + length s := NUL]) i s"
  using assms cstr_at_rd(2) [OF assms] by (intro cstr_at_write) (auto simp: cstr_at_iff)

section \<open>The loops\<close>

lemma not_separator_NUL [simp]: "\<not> is_separator NUL" "\<not> is_separator DQUOTE"
  by (simp_all add: is_separator_def)

lemma skip_separators_spec:
  assumes "cstr_at buf i s"
  shows "\<exists>j. skip_separators buf i = Some j \<and> i \<le> j \<and> cstr_at buf j (dropWhile is_separator s)"
  using assms
proof (induction s arbitrary: i)
  case Nil
  then show ?case
    using cstr_at_rd(1) [OF Nil] by (subst skip_separators.simps) simp
next
  case (Cons c s)
  note c = cstr_at_Cons [OF Cons.prems]
  show ?case
  proof (cases "is_separator c")
    case True
    from Cons.IH [OF c(1)] obtain j where "skip_separators buf (Suc i) = Some j" "Suc i \<le> j"
      "cstr_at buf j (dropWhile is_separator s)" by blast
    with True c(2) show ?thesis by (subst skip_separators.simps) simp
  next
    case False
    with c(2) Cons.prems show ?thesis by (subst skip_separators.simps) simp
  qed
qed

lemma scan_word_spec:
  assumes "cstr_at buf i s"
  shows "\<exists>j. scan_word buf i = Some (DQUOTE \<notin> set (takeWhile (\<lambda>c. \<not> is_separator c) s), j) \<and>
    (DQUOTE \<notin> set (takeWhile (\<lambda>c. \<not> is_separator c) s) \<longrightarrow>
       j = i + length (takeWhile (\<lambda>c. \<not> is_separator c) s))"
  using assms
proof (induction s arbitrary: i)
  case Nil
  then show ?case using cstr_at_rd(1) [OF Nil] by (subst scan_word.simps) simp
next
  case (Cons c s)
  note c = cstr_at_Cons [OF Cons.prems]
  from Cons.IH [OF c(1)] c(2,3) show ?case by (subst scan_word.simps) auto
qed

text \<open>
  The quoted token. \<open>d\<close> is copied down to \<open>w\<close>, never past what is still to be read, and
  the loop stops at the closing quote.
\<close>

lemma scan_quoted_step:
  assumes s: "cstr_at buf r (c # s)" and w: "w \<le> r" and c: "c \<noteq> DQUOTE"
  shows "c \<noteq> BSLASH \<Longrightarrow> scan_quoted buf r w = scan_quoted (buf[w := c]) (Suc r) (Suc w)"
    "c = BSLASH \<Longrightarrow> s = d # t \<Longrightarrow> d = DQUOTE \<or> d = BSLASH \<Longrightarrow>
       scan_quoted buf r w = scan_quoted (buf[w := d]) (Suc (Suc r)) (Suc w)"
    "c = BSLASH \<Longrightarrow> s = [] \<or> hd s \<noteq> DQUOTE \<and> hd s \<noteq> BSLASH \<Longrightarrow>
       scan_quoted buf r w = Some (False, buf, Suc r, w)"
proof -
  note cc = cstr_at_Cons [OF s] and len = cstr_at_rd(2) [OF s]
  show "c \<noteq> BSLASH \<Longrightarrow> scan_quoted buf r w = scan_quoted (buf[w := c]) (Suc r) (Suc w)"
    using cc w c len by (subst scan_quoted.simps) simp
  show "scan_quoted buf r w = scan_quoted (buf[w := d]) (Suc (Suc r)) (Suc w)"
    if "c = BSLASH" "s = d # t" "d = DQUOTE \<or> d = BSLASH"
    using cc w len that cstr_at_Cons(2) [of buf "Suc r" d t] by (subst scan_quoted.simps) auto
  show "scan_quoted buf r w = Some (False, buf, Suc r, w)"
    if "c = BSLASH" "s = [] \<or> hd s \<noteq> DQUOTE \<and> hd s \<noteq> BSLASH"
    using cc that cstr_at_rd(1) [OF cc(1)] by (subst scan_quoted.simps) auto
qed

definition quoted_result ::
    "bytes \<Rightarrow> nat \<Rightarrow> string \<Rightarrow> string \<Rightarrow> (bool \<times> bytes \<times> nat \<times> nat) option \<Rightarrow> bool" where
  "quoted_result buf w d rest res \<longleftrightarrow>
     (\<exists>buf' r'. res = Some (True, buf', r', w + length d) \<and> length buf' = length buf \<and>
        take w buf' = take w buf \<and> take (length d) (drop w buf') = d \<and> w + length d \<le> r' \<and>
        cstr_at buf' r' (DQUOTE # rest))"

lemma quoted_result_step:
  assumes "quoted_result (buf[w := c]) (Suc w) d rest res" "w < length buf"
  shows "quoted_result buf w (c # d) rest res"
proof -
  from assms(1) obtain buf' r' where b: "res = Some (True, buf', r', Suc w + length d)"
    "length buf' = length buf" "take (Suc w) buf' = take (Suc w) (buf[w := c])"
    "take (length d) (drop (Suc w) buf') = d" "Suc w + length d \<le> r'"
    "cstr_at buf' r' (DQUOTE # rest)" by (auto simp: quoted_result_def)
  have "take (Suc w) buf' = take w buf @ [c]"
    using b(3) assms(2) by (simp add: take_Suc_conv_app_nth)
  then have "take w buf' = take w buf" "buf' ! w = c"
    using assms(2) b(2) by (simp_all add: take_Suc_conv_app_nth)
  moreover have "drop w buf' = c # drop (Suc w) buf'"
    using assms(2) b(2) calculation(2) by (metis Cons_nth_drop_Suc)
  ultimately show ?thesis using b by (auto simp: quoted_result_def)
qed

lemma scan_quoted_spec:
  assumes "cstr_at buf r s" "w \<le> r"
  shows "case unquote s of
      Some (d, rest) \<Rightarrow> quoted_result buf w d rest (scan_quoted buf r w)
    | None \<Rightarrow> \<exists>ok buf' r' w'. scan_quoted buf r w = Some (ok, buf', r', w') \<and>
        (ok \<longrightarrow> rd buf' r' = Some NUL)"
  using assms
proof (induction s arbitrary: buf r w rule: unquote.induct)
  case (1 buf r w)
  then show ?case using cstr_at_rd(1) [OF 1(1)] by (subst scan_quoted.simps) auto
next
  case (2 c cs buf r w)
  note cc = cstr_at_Cons [OF "2.prems"(1)] and len = cstr_at_rd(2) [OF "2.prems"(1)]
  consider "c = DQUOTE" | "c \<noteq> DQUOTE" "c \<noteq> BSLASH"
    | d ds where "c = BSLASH" "cs = d # ds" "d = DQUOTE \<or> d = BSLASH"
    | "c = BSLASH" "cs = [] \<or> hd cs \<noteq> DQUOTE \<and> hd cs \<noteq> BSLASH"
    by (cases cs) auto
  then show ?case
  proof cases
    case 1
    with cc "2.prems" show ?thesis by (subst scan_quoted.simps) (auto simp: quoted_result_def)
  next
    case 3
    let ?b = "buf[w := d]"
    have "cstr_at ?b (Suc (Suc r)) ds"
      using cstr_at_Cons(1) [of buf "Suc r" d ds] cc(1) 3(2) "2.prems"(2)
      by (intro cstr_at_below) simp_all
    from "2.IH"(1) [OF _ 3(1,2,3) this, of "Suc w"] "2.prems"(2) 3 scan_quoted_step(2) [OF "2.prems"]
      quoted_result_step [of buf w d] len show ?thesis
      by (auto split: option.splits prod.splits)
  next
    case 4
    with scan_quoted_step(3) [OF "2.prems"] show ?thesis by (cases cs) auto
  next
    case c: 2
    let ?b = "buf[w := c]"
    have "cstr_at ?b (Suc r) cs"
      using cc(1) "2.prems"(2) by (intro cstr_at_below) simp_all
    from "2.IH"(2) [OF c this, of "Suc w"] "2.prems"(2) c scan_quoted_step(1) [OF "2.prems"]
      quoted_result_step [of buf w c] len show ?thesis
      by (auto split: option.splits prod.splits)
  qed
qed

lemma unquote_set: "unquote s = Some (w, rest) \<Longrightarrow> set w \<subseteq> set s"
  by (induction s arbitrary: w rest rule: unquote.induct)
    (fastforce split: if_splits list.splits)+

section \<open>One token\<close>

text \<open>
  A token that was read: its string is in place, the cursor stands at the next token or the
  end, nothing below the old cursor changed.
\<close>

definition token_result ::
    "bytes \<Rightarrow> nat \<Rightarrow> string \<Rightarrow> string \<Rightarrow> (bool \<times> bytes \<times> nat \<times> nat) option \<Rightarrow> bool" where
  "token_result buf i w rest res \<longleftrightarrow>
     (\<exists>buf' j tok. res = Some (True, buf', j, tok) \<and> length buf' = length buf \<and>
        take i buf' = take i buf \<and> i \<le> tok \<and> tok + length w \<le> j \<and> i < j \<and>
        cstr_at buf' tok w \<and> cstr_at buf' j (dropWhile is_separator rest))"

lemma parse_word:
  assumes s: "cstr_at buf i s" "s \<noteq> []" and c: "hd s \<noteq> DQUOTE" "\<not> is_separator (hd s)"
    and w: "w = takeWhile (\<lambda>c. \<not> is_separator c) s"
  shows "if DQUOTE \<in> set w then parse_token buf i = Some (False, buf, i, i)
    else token_result buf i w (drop (length w) s) (parse_token buf i)"
proof -
  have hd: "rd buf i = Some (hd s)" using cstr_at_rd(1) [OF s(1)] s(2) by simp
  from scan_word_spec [OF s(1)] obtain j where
    j: "scan_word buf i = Some (DQUOTE \<notin> set w, j)" "DQUOTE \<notin> set w \<Longrightarrow> j = i + length w"
    unfolding w by blast
  show ?thesis
  proof (cases "DQUOTE \<in> set w")
    case True
    with hd c j show ?thesis by (simp add: parse_token_def)
  next
    case False
    let ?rest = "drop (length w) s"
    have split: "s = w @ ?rest" unfolding w by (simp add: dropWhile_eq_drop [symmetric])
    then have rest: "cstr_at buf (i + length w) ?rest" using cstr_at_append s(1) by metis
    have w_ne: "w \<noteq> []" using s(2) c(2) by (cases s) (auto simp: w)
    show ?thesis
    proof (cases "?rest = []")
      case True
      then have "w = s" using split by simp
      with rest s(1) have "rd buf (i + length w) = Some NUL" using cstr_at_rd(3) by simp
      moreover from this have "skip_separators buf (i + length w) = Some (i + length w)"
        by (subst skip_separators.simps) simp
      ultimately have "parse_token buf i = Some (True, buf, i + length w, i)"
        using hd c j False by (simp add: parse_token_def)
      then show ?thesis
        using False True \<open>w = s\<close> s(1) rest w_ne by (auto simp: token_result_def)
    next
      case more: False
      then obtain x xs where x: "?rest = x # xs" by (cases ?rest) auto
      note xx = cstr_at_Cons [OF rest [unfolded x]] and len = cstr_at_rd(2) [OF rest]
      have sep: "is_separator x"
        using x unfolding w by (metis dropWhile_eq_drop hd_dropWhile list.sel(1) list.distinct(1))
      let ?b = "buf[i + length w := NUL]"
      have "cstr_at ?b (Suc (i + length w)) xs"
        by (rule cstr_at_below [OF xx(1)]) simp
      from skip_separators_spec [OF this] obtain k where
        k: "skip_separators ?b (Suc (i + length w)) = Some k" "Suc (i + length w) \<le> k"
          "cstr_at ?b k (dropWhile is_separator xs)" by blast
      have "cstr_at ?b i w" using cstr_at_cut [of buf i w ?rest] split s(1) by simp
      moreover have "parse_token buf i = Some (True, ?b, k, i)"
        using hd c j False xx(2,3) len k(1) by (simp add: parse_token_def wr_def)
      ultimately show ?thesis
        using False k sep x by (auto simp: token_result_def)
    qed
  qed
qed

lemma parse_quoted:
  assumes s: "cstr_at buf i (DQUOTE # s)"
  shows "case unquote s of
      Some (w, rest) \<Rightarrow>
        if rest = [] \<or> is_separator (hd rest) then token_result buf i w rest (parse_token buf i)
        else \<exists>buf'. parse_token buf i = Some (False, buf', i, Suc i)
    | None \<Rightarrow> \<exists>buf'. parse_token buf i = Some (False, buf', i, Suc i)"
proof -
  note ss = cstr_at_Cons [OF s]
  note scan = scan_quoted_spec [OF ss(1) order_refl]
  show ?thesis
  proof (cases "unquote s")
    case None
    from scan [unfolded None] ss(2) show ?thesis
      unfolding None by (auto simp: parse_token_def)
  next
    case (Some p)
    obtain w rest where p: "p = (w, rest)" by (cases p)
    from scan [unfolded Some p] obtain b r where
      b: "scan_quoted buf (Suc i) (Suc i) = Some (True, b, r, Suc i + length w)" "length b = length buf"
        "take (Suc i) b = take (Suc i) buf" "take (length w) (drop (Suc i) b) = w"
        "Suc i + length w \<le> r" "cstr_at b r (DQUOTE # rest)" by (auto simp: quoted_result_def)
    note bb = cstr_at_Cons [OF b(6)] and len = cstr_at_rd(2) [OF b(6)]
    note nx = cstr_at_rd(1) [OF bb(1)]
    have nul: "rest \<noteq> [] \<Longrightarrow> hd rest \<noteq> NUL" using bb(1) by (cases rest) (auto simp: cstr_at_def)
    show ?thesis
    proof (cases "rest = [] \<or> is_separator (hd rest)")
      case False
      with ss(2) b(1) bb nx nul show ?thesis
        unfolding Some p by (auto simp: parse_token_def)
    next
      case True
      let ?b = "b[Suc i + length w := NUL]"
      have "cstr_at ?b (Suc r) rest" using b(5) by (intro cstr_at_below [OF bb(1)]) simp
      from skip_separators_spec [OF this] obtain k where
        k: "skip_separators ?b (Suc r) = Some k" "Suc r \<le> k" "cstr_at ?b k (dropWhile is_separator rest)"
        by blast
      have "take i (take (Suc i) b) = take i (take (Suc i) buf)" using b(3) by simp
      then have "take i ?b = take i buf" by (simp add: min_def)
      moreover have "cstr_at ?b (Suc i) w"
        using b(4,5) len unquote_set [of s w rest] Some p ss(1) by (intro cstr_at_write) (auto simp: cstr_at_def)
      moreover have "parse_token buf i = Some (True, ?b, k, Suc i)"
        using ss(2) b(1,2,5) bb(2) nx True k(1) len by (auto simp: parse_token_def wr_def)
      ultimately have "token_result buf i w rest (parse_token buf i)"
        using b(2,5) k(2,3) by (auto simp: token_result_def)
      with True show ?thesis unfolding Some p by simp
    qed
  qed
qed

lemma parse_token_spec:
  assumes s: "cstr_at buf i s" "s \<noteq> []" "\<not> is_separator (hd s)"
  shows "case next_word s of
      Some (w, rest) \<Rightarrow> token_result buf i w rest (parse_token buf i)
    | None \<Rightarrow> \<exists>buf' tok. parse_token buf i = Some (False, buf', i, tok)"
proof (cases "hd s = DQUOTE")
  case True
  then obtain t where t: "s = DQUOTE # t" using s(2) by (cases s) auto
  show ?thesis using parse_quoted [OF s(1) [unfolded t]]
    by (auto simp: t next_word_def split: option.splits if_splits)
next
  case False
  have "next_word s = (let w = takeWhile (\<lambda>c. \<not> is_separator c) s
      in if DQUOTE \<in> set w then None else Some (w, drop (length w) s))"
    using False s(2) by (cases s) (simp_all add: next_word_def Let_def)
  with parse_word [OF s(1,2) False s(3) refl] show ?thesis by (simp add: Let_def split: if_splits)
qed

section \<open>The arguments\<close>

text \<open>
  In the result, strings that end at the old cursor or before it are kept: the command and the
  arguments read so far.
\<close>

lemma words_dropWhile: "words (dropWhile is_separator s) = words s"
  by (subst (1 2) words.simps) simp

lemma words_next:
  assumes "s \<noteq> []" "\<not> is_separator (hd s)"
  shows "words s = (case next_word s of None \<Rightarrow> None
    | Some (w, rest) \<Rightarrow> map_option ((#) w) (words (dropWhile is_separator rest)))"
proof -
  have d: "dropWhile is_separator s = s" using assms by (cases s) auto
  show ?thesis
    by (subst words.simps) (simp add: d assms(1) Let_def words_dropWhile split: option.split)
qed

lemma words_Nil [simp]: "words [] = Some []"
  by (simp add: words.simps)

lemma hd_dropWhile_separator:
  "dropWhile is_separator s = [] \<or> \<not> is_separator (hd (dropWhile is_separator s))"
  by (metis hd_dropWhile)

definition args_result ::
    "bytes \<Rightarrow> nat \<Rightarrow> ks_cmd \<Rightarrow> nat list \<Rightarrow> string list \<Rightarrow> (bool \<times> bytes \<times> ks_cmd) option \<Rightarrow> bool" where
  "args_result buf j out qs ws res \<longleftrightarrow>
     (\<exists>buf' ps. res = Some (True, buf', out\<lparr>
          c_argv := map Some (qs @ ps) @ replicate (KS_MAX_ARGS - length (qs @ ps)) None,
          c_argc := length (qs @ ps)\<rparr>) \<and>
        length buf' = length buf \<and> list_all2 (cstr_at buf') ps ws \<and> (\<forall>p \<in> set ps. j \<le> p) \<and>
        (\<forall>p w. cstr_at buf p w \<longrightarrow> p + length w \<le> j \<longrightarrow> cstr_at buf' p w))"

lemma clear_command_upd [simp]:
  "clear_command (out\<lparr>c_argv := a, c_argc := n\<rparr>) = clear_command out"
  "clear_command (out\<lparr>c_cmd := c\<rparr>) = clear_command out"
  "clear_command (clear_command out) = clear_command out"
  by (simp_all add: clear_command_def)

lemma cmd_upd_upd:
  "out\<lparr>c_argv := a, c_argc := n, c_argv := a', c_argc := n'\<rparr> = out\<lparr>c_argv := a', c_argc := n'\<rparr>"
  by simp

lemma next_argv:
  assumes "length qs < KS_MAX_ARGS"
  shows "(map Some qs @ replicate (KS_MAX_ARGS - length qs) None)[length qs := Some tok] =
    map Some (qs @ [tok]) @ replicate (KS_MAX_ARGS - length (qs @ [tok])) None"
proof -
  from assms obtain k where "KS_MAX_ARGS - length qs = Suc k" by (metis Suc_diff_Suc)
  then show ?thesis by (simp add: list_update_append)
qed

lemma args_result_step:
  assumes res: "args_result buf' j' out (qs @ [tok]) ws res"
    and tok: "length buf' = length buf" "take i buf' = take i buf" "i \<le> tok" "tok + length w \<le> j'"
      "i < j'" "cstr_at buf' tok w" and more: "rd buf i \<noteq> Some NUL"
  shows "args_result buf i out qs (w # ws) res"
proof -
  from res obtain b ps where b: "res = Some (True, b, out\<lparr>
        c_argv := map Some ((qs @ [tok]) @ ps) @ replicate (KS_MAX_ARGS - length ((qs @ [tok]) @ ps)) None,
        c_argc := length ((qs @ [tok]) @ ps)\<rparr>)"
    "length b = length buf'" "list_all2 (cstr_at b) ps ws" "\<forall>p \<in> set ps. j' \<le> p"
    "\<And>p w. cstr_at buf' p w \<Longrightarrow> p + length w \<le> j' \<Longrightarrow> cstr_at b p w"
    by (auto simp: args_result_def)
  have "cstr_at b p v" if v: "cstr_at buf p v" "p + length v \<le> i" for p v
  proof -
    from cstr_at_rd(3) [OF v(1)] more v(2) have "p + length v < i" by (cases "p + length v = i") auto
    from b(5) [OF cstr_at_take [OF v(1) tok(2) this]] this tok(5) show ?thesis by simp
  qed
  with b tok b(5) [OF tok(6,4)] show ?thesis
    unfolding args_result_def by (intro exI [of _ b] exI [of _ "tok # ps"]) auto
qed

lemma parse_args_spec:
  assumes "cstr_at buf i s" "s = [] \<or> \<not> is_separator (hd s)" "length qs \<le> KS_MAX_ARGS"
  shows "case words s of
      Some ws \<Rightarrow> if length qs + length ws \<le> KS_MAX_ARGS
        then args_result buf i out qs ws (parse_args buf i (out\<lparr>
          c_argv := map Some qs @ replicate (KS_MAX_ARGS - length qs) None, c_argc := length qs\<rparr>))
        else \<exists>buf'. parse_args buf i (out\<lparr>c_argv := map Some qs @ replicate (KS_MAX_ARGS - length qs) None,
          c_argc := length qs\<rparr>) = Some (False, buf', clear_command out)
    | None \<Rightarrow> \<exists>buf'. parse_args buf i (out\<lparr>c_argv := map Some qs @ replicate (KS_MAX_ARGS - length qs) None,
          c_argc := length qs\<rparr>) = Some (False, buf', clear_command out)"
  using assms
proof (induction "length s" arbitrary: s buf i qs rule: less_induct)
  case less
  let ?out = "\<lambda>qs. out\<lparr>c_argv := map Some qs @ replicate (KS_MAX_ARGS - length qs) None,
      c_argc := length qs\<rparr>"
  note rd = cstr_at_rd(1) [OF less.prems(1)]
  show ?case
  proof (cases "s = []")
    case True
    then have "parse_args buf i (?out qs) = Some (True, buf, ?out qs)"
      using rd by (subst parse_args.simps) simp
    with True less.prems(3) show ?thesis by (auto simp: args_result_def)
  next
    case False
    with less.prems have hd: "hd s \<noteq> NUL" "\<not> is_separator (hd s)"
      using cstr_at_hd by auto
    note tok = parse_token_spec [OF less.prems(1) False hd(2)] and ws = words_next [OF False hd(2)]
    show ?thesis
    proof (cases "length qs = KS_MAX_ARGS")
      case True
      then have "parse_args buf i (?out qs) = Some (False, buf, clear_command out)"
        using rd False hd by (subst parse_args.simps) simp
      with True show ?thesis
        unfolding ws by (auto split: option.splits)
    next
      case room: False
      then have room: "length qs < KS_MAX_ARGS" using less.prems(3) by simp
      show ?thesis
      proof (cases "next_word s")
        case None
        with tok obtain b t where "parse_token buf i = Some (False, b, i, t)" by auto
        then have "parse_args buf i (?out qs) = Some (False, b, clear_command out)"
          using rd False hd room by (subst parse_args.simps) simp
        with None show ?thesis unfolding ws by simp
      next
        case (Some p)
        obtain w rest where p: "p = (w, rest)" by (cases p)
        from tok Some p obtain b j t where
          t: "parse_token buf i = Some (True, b, j, t)" "length b = length buf" "take i b = take i buf"
            "i \<le> t" "t + length w \<le> j" "i < j" "cstr_at b t w"
            "cstr_at b j (dropWhile is_separator rest)" by (auto simp: token_result_def)
        have step: "parse_args buf i (?out qs) = parse_args b j (?out (qs @ [t]))"
          using rd False hd room t(1) next_argv [OF room, of t] by (subst parse_args.simps) simp
        have "length (dropWhile is_separator rest) < length s"
          using Some p by (intro le_less_trans [OF length_dropWhile_le next_word_shorter [OF _ False hd(2)]]) simp
        note IH = less.hyps [OF this t(8) hd_dropWhile_separator, of "qs @ [t]"]
        let ?r = "dropWhile is_separator rest"
        show ?thesis
        proof (cases "words ?r")
          case None
          with IH room Some p show ?thesis unfolding ws step by simp
        next
          case ws': (Some vs)
          have "rd buf i \<noteq> Some NUL" using rd False hd(1) by simp
          from args_result_step [OF _ t(2-7) this] show ?thesis
            using IH room Some p ws' unfolding ws step by (auto split: if_splits)
        qed
      qed
    qed
  qed
qed

section \<open>The line\<close>

definition content :: "bytes \<Rightarrow> string" where
  "content buf = takeWhile (\<lambda>c. c \<noteq> NUL) buf"

lemma cstr_at_content: "NUL \<in> set buf \<Longrightarrow> cstr_at buf 0 (content buf)"
proof -
  assume "NUL \<in> set buf"
  then obtain xs ys where b: "buf = xs @ NUL # ys" "NUL \<notin> set xs" by (metis split_list_first)
  then have "\<And>x. x \<in> set xs \<Longrightarrow> x \<noteq> NUL" by auto
  then have "content buf = xs" by (simp add: b(1) content_def takeWhile_append2)
  with b show ?thesis by (simp add: cstr_at_iff)
qed

lemma content_nth:
  assumes "n < length (content buf)" shows "n < length buf" "buf ! n \<noteq> NUL"
proof -
  show "n < length buf" using assms length_takeWhile_le unfolding content_def by (rule less_le_trans)
  have "content buf ! n \<in> set (content buf)" using assms by (rule nth_mem)
  then have "content buf ! n \<noteq> NUL" unfolding content_def by (rule set_takeWhileD [THEN conjunct2])
  then show "buf ! n \<noteq> NUL" using assms unfolding content_def by (simp add: takeWhile_nth)
qed

lemma content_end:
  assumes "length (content buf) < length buf" shows "buf ! length (content buf) = NUL"
  using assms nth_length_takeWhile [of "\<lambda>c. c \<noteq> NUL" buf] by (simp add: content_def)

lemma content_short:
  assumes "NUL \<in> set buf \<or> limit \<le> length buf" "length (content buf) < limit"
  shows "length (content buf) < length buf"
proof (cases "NUL \<in> set buf")
  case True
  from cstr_at_rd(2) [OF cstr_at_content [OF True]] show ?thesis by simp
next
  case False
  then have "content buf = buf" by (auto simp: content_def takeWhile_eq_all_conv)
  with False assms show ?thesis by simp
qed

lemma bounded_length_spec:
  assumes "NUL \<in> set buf \<or> limit \<le> length buf" "n \<le> length (content buf)" "n \<le> limit"
  shows "bounded_length_from buf limit n = Some (min limit (length (content buf)))"
  using assms(2,3)
proof (induction "limit - n" arbitrary: n)
  case 0
  then show ?case by (subst bounded_length_from.simps) simp
next
  case (Suc k)
  then have lim: "n < limit" by simp
  show ?case
  proof (cases "n = length (content buf)")
    case True
    with lim have "length (content buf) < limit" by simp
    from content_short [OF assms(1) this] have "rd buf n = Some NUL"
      using True content_end [of buf] by (simp add: rd_def)
    then show ?thesis
      using lim True by (subst bounded_length_from.simps) simp
  next
    case False
    then have n: "n < length (content buf)" using Suc.prems by simp
    have "bounded_length_from buf limit (Suc n) = Some (min limit (length (content buf)))"
      using Suc n lim by simp
    then show ?thesis
      using lim content_nth [OF n] by (subst bounded_length_from.simps) (simp add: rd_def)
  qed
qed

lemma trimmed_snoc: "trimmed (s @ [c]) = (if c = LF \<or> c = CR then trimmed s else s @ [c])"
  by (simp add: trimmed_def)

lemma trim_crlf_spec:
  assumes "cstr_at buf 0 s"
  shows "\<exists>buf'. trim_crlf buf (length s) = Some (buf', length (trimmed s)) \<and>
    cstr_at buf' 0 (trimmed s) \<and> length buf' = length buf"
  using assms
proof (induction s arbitrary: buf rule: rev_induct)
  case Nil
  then show ?case by (simp add: trimmed_def)
next
  case (snoc c s)
  have rd: "rd buf (length s) = Some c"
    using cstr_at_rd(1) [OF cstr_at_append [OF snoc.prems]] by simp
  then have len: "length s < length buf" by (auto simp: rd_def split: if_splits)
  have cut: "cstr_at (buf[length s := NUL]) 0 s" using cstr_at_cut [OF snoc.prems] by simp
  from snoc.IH [OF cut] rd len snoc.prems show ?case
    by (auto simp: trimmed_snoc wr_def)
qed

lemma c_toupper_NUL: "c \<noteq> NUL \<Longrightarrow> c_toupper c \<noteq> NUL"
proof -
  assume c: "c \<noteq> NUL"
  have "byte (char_of (byte c - 32)) = byte c - 32"
    by (intro byte_char_of less_imp_diff_less byte_less)
  moreover have "byte NUL = 0" by (simp add: byte_def)
  ultimately show ?thesis using c by (auto simp: c_toupper_def dest!: arg_cong [where f = byte])
qed

lemma upcase_spec:
  assumes "cstr_at buf p s"
  shows "\<exists>buf'. upcase_from buf p = Some buf' \<and> length buf' = length buf \<and> take p buf' = take p buf \<and>
    drop (p + length s) buf' = drop (p + length s) buf \<and> cstr_at buf' p (map c_toupper s)"
  using assms
proof (induction s arbitrary: buf p)
  case Nil
  then show ?case using cstr_at_rd(1) [OF Nil] by (subst upcase_from.simps) simp
next
  case (Cons c s)
  note c = cstr_at_Cons [OF Cons.prems]
  let ?b = "buf[p := c_toupper c]"
  have p: "p < length buf" using cstr_at_rd(2) [OF Cons.prems] by simp
  from Cons.IH [OF cstr_at_below [OF c(1), of p "c_toupper c"]] obtain b where
    b: "upcase_from ?b (Suc p) = Some b" "length b = length buf" "take (Suc p) b = take (Suc p) ?b"
      "drop (Suc p + length s) b = drop (Suc p + length s) buf" "cstr_at b (Suc p) (map c_toupper s)"
    by auto
  have run: "upcase_from buf p = Some b"
    using c(2,3) b(1) by (subst upcase_from.simps) simp
  have "take (Suc p) b = take p buf @ [c_toupper c]"
    using b(3) p by (simp add: take_Suc_conv_app_nth)
  then have tp: "take p b = take p buf" "b ! p = c_toupper c"
    using p b(2) by (simp_all add: take_Suc_conv_app_nth)
  moreover from tp have "drop p b = c_toupper c # drop (Suc p) b"
    using p b(2) by (metis Cons_nth_drop_Suc)
  then have "cstr_at b p (map c_toupper (c # s))"
    using b(5) c_toupper_NUL [OF c(3)] by (auto simp: cstr_at_def)
  ultimately show ?case using run b(2,4) by (intro exI [of _ b]) simp
qed

section \<open>The whole parser\<close>

definition parse_result ::
    "ks_cmd \<Rightarrow> bytes \<Rightarrow> (string \<times> string list) option \<Rightarrow> (bool \<times> bytes option \<times> ks_cmd) option \<Rightarrow> bool" where
  "parse_result out buf spec res \<longleftrightarrow>
     (case spec of
        None \<Rightarrow> \<exists>buf'. res = Some (False, Some buf', clear_command out)
      | Some (cmd, args) \<Rightarrow>
          \<exists>buf' p ps. res = Some (True, Some buf', out\<lparr>c_cmd := Some p,
              c_argv := map Some ps @ replicate (KS_MAX_ARGS - length ps) None, c_argc := length ps\<rparr>) \<and>
            length buf' = length buf \<and> length ps \<le> KS_MAX_ARGS \<and>
            cstr_at buf' p cmd \<and> list_all2 (cstr_at buf') ps args)"

text \<open>From the command on.\<close>

lemma clear_cmd_eq:
  "(clear_command out)\<lparr>c_cmd := Some p\<rparr> = out\<lparr>c_cmd := Some p\<rparr>\<lparr>
     c_argv := map Some [] @ replicate (KS_MAX_ARGS - length ([] :: nat list)) None,
     c_argc := length ([] :: nat list)\<rparr>"
  by (simp add: clear_command_def)

definition parse_rest :: "bytes \<Rightarrow> nat \<Rightarrow> ks_cmd \<Rightarrow> (bool \<times> bytes option \<times> ks_cmd) option" where
  "parse_rest buf cursor out = do {
     (ok, buf, cursor, token) \<leftarrow> parse_token buf cursor;
     rejected \<leftarrow> (if \<not> ok then Some True else do { first \<leftarrow> rd buf token; Some (first = NUL) });
     if rejected then Some (False, Some buf, clear_command out)
     else do {
       (ok, buf, out) \<leftarrow> parse_args buf cursor (out\<lparr>c_cmd := Some token\<rparr>);
       if \<not> ok then Some (False, Some buf, out)
       else do { p \<leftarrow> c_cmd out; buf \<leftarrow> upcase_from buf p; Some (True, Some buf, out) } } }"

lemma parse_rest_spec:
  assumes s: "cstr_at buf i s" "s \<noteq> []" "\<not> is_separator (hd s)"
  shows "parse_result out buf
    (case words s of
       Some (cmd # args) \<Rightarrow>
         if cmd = [] \<or> length args > KS_MAX_ARGS then None else Some (map c_toupper cmd, args)
     | _ \<Rightarrow> None) (parse_rest buf i (clear_command out))"
proof (cases "next_word s")
  case None
  with parse_token_spec [OF s] obtain b t where "parse_token buf i = Some (False, b, i, t)" by auto
  with None show ?thesis
    by (simp add: parse_rest_def parse_result_def words_next [OF s(2,3)])
next
  case (Some q)
  obtain w rest where q: "q = (w, rest)" by (cases q)
  let ?r = "dropWhile is_separator rest"
  from parse_token_spec [OF s] Some q obtain b j t where
    t: "parse_token buf i = Some (True, b, j, t)" "length b = length buf" "t + length w \<le> j"
      "cstr_at b t w" "cstr_at b j ?r" by (auto simp: token_result_def)
  have words: "words s = map_option ((#) w) (words ?r)"
    using words_next [OF s(2,3)] Some q by simp
  have first: "rd b t = Some (if w = [] then NUL else hd w)" by (rule cstr_at_rd(1) [OF t(4)])
  let ?out = "out\<lparr>c_cmd := Some t\<rparr>"
  note args = parse_args_spec [OF t(5) hd_dropWhile_separator, of "[]" ?out, folded clear_cmd_eq]
  show ?thesis
  proof (cases "w = []")
    case True
    with first t(1) words show ?thesis
      by (auto simp: parse_rest_def parse_result_def split: option.splits)
  next
    case False
    have w: "hd w \<noteq> NUL" by (rule cstr_at_hd [OF t(4) False])
    have run: "parse_rest buf i (clear_command out) = do {
        (ok, buf, out) \<leftarrow> parse_args b j ((clear_command out)\<lparr>c_cmd := Some t\<rparr>);
        if \<not> ok then Some (False, Some buf, out)
        else do { p \<leftarrow> c_cmd out; buf \<leftarrow> upcase_from buf p; Some (True, Some buf, out) } }"
      using t(1) first False w by (simp add: parse_rest_def)
    show ?thesis
    proof (cases "\<exists>vs. words ?r = Some vs \<and> length vs \<le> KS_MAX_ARGS")
      case bad: False
      have "\<exists>b'. parse_args b j ((clear_command out)\<lparr>c_cmd := Some t\<rparr>) = Some (False, b', clear_command out)"
        using args bad by (auto split: option.splits if_splits)
      with bad words show ?thesis
        unfolding run by (auto simp: parse_result_def split: option.splits)
    next
      case True
      then obtain vs where vs: "words ?r = Some vs" "length vs \<le> KS_MAX_ARGS" by blast
      with args have "args_result b j ?out [] vs (parse_args b j ((clear_command out)\<lparr>c_cmd := Some t\<rparr>))"
        by simp
      then obtain b' ps where
        a: "parse_args b j ((clear_command out)\<lparr>c_cmd := Some t\<rparr>) = Some (True, b', ?out\<lparr>
              c_argv := map Some ps @ replicate (KS_MAX_ARGS - length ps) None, c_argc := length ps\<rparr>)"
          "length b' = length b" "list_all2 (cstr_at b') ps vs" "\<forall>p \<in> set ps. j \<le> p"
          "cstr_at b' t w"
        using t(3,4) unfolding args_result_def by auto
      from upcase_spec [OF a(5)] obtain b'' where
        u: "upcase_from b' t = Some b''" "length b'' = length b'"
          "drop (t + length w) b'' = drop (t + length w) b'" "cstr_at b'' t (map c_toupper w)" by blast
      have "list_all2 (cstr_at b'') ps vs"
        using a(3,4) cstr_at_drop [OF _ u(3)] order_trans [OF t(3)]
        by (auto simp: list_all2_conv_all_nth all_set_conv_all_nth)
      moreover have "length ps \<le> KS_MAX_ARGS" using vs(2) list_all2_lengthD [OF a(3)] by simp
      moreover have "parse_rest buf i (clear_command out) = Some (True, Some b'', ?out\<lparr>
          c_argv := map Some ps @ replicate (KS_MAX_ARGS - length ps) None, c_argc := length ps\<rparr>)"
        unfolding run a(1) using u(1) by simp
      ultimately show ?thesis
        using u(2,4) a(2) t(2) vs False words by (auto simp: parse_result_def)
    qed
  qed
qed

lemma parse_result_length: "length b = length buf \<Longrightarrow> parse_result out b = parse_result out buf"
  by (simp add: parse_result_def fun_eq_iff split: option.split)

lemma parse_line_result:
  assumes buf: "NUL \<in> set buf \<or> KS_MAX_REQUEST + 3 \<le> length buf"
  shows "parse_result out buf (parse_spec (content buf)) (ks_parse_line (Some buf) out)"
proof -
  let ?s = "content buf" and ?out = "clear_command out"
  have len: "bounded_length buf (KS_MAX_REQUEST + 3) = Some (min (KS_MAX_REQUEST + 3) (length ?s))"
    unfolding bounded_length_def by (rule bounded_length_spec [OF buf]) simp_all
  show ?thesis
  proof (cases "length ?s > KS_MAX_REQUEST + 2")
    case True
    with len show ?thesis by (simp add: ks_parse_line_def parse_spec_def parse_result_def)
  next
    case False
    then have "length ?s < KS_MAX_REQUEST + 3" by simp
    from content_short [OF buf this] content_end [of buf] have "NUL \<in> set buf" by (metis nth_mem)
    from trim_crlf_spec [OF cstr_at_content [OF this]] obtain b where
      b: "trim_crlf buf (length ?s) = Some (b, length (trimmed ?s))" "cstr_at b 0 (trimmed ?s)"
        "length b = length buf" by blast
    from skip_separators_spec [OF b(2)] obtain i where
      i: "skip_separators b 0 = Some i" "cstr_at b i (dropWhile is_separator (trimmed ?s))" by blast
    let ?r = "dropWhile is_separator (trimmed ?s)"
    have w: "words (trimmed ?s) = words ?r" by (simp only: words_dropWhile)
    have run: "ks_parse_line (Some buf) out =
        (if length (trimmed ?s) > KS_MAX_REQUEST then Some (False, Some b, ?out)
         else if ?r = [] then Some (False, Some b, ?out)
         else parse_rest b i ?out)"
      using False len b(1) i(1) cstr_at_rd(1) [OF i(2)] cstr_at_hd [OF i(2)]
      by (simp add: ks_parse_line_def parse_rest_def min_def Let_def del: dropWhile_eq_Nil_conv)
    consider "length (trimmed ?s) > KS_MAX_REQUEST" | "length (trimmed ?s) \<le> KS_MAX_REQUEST" "?r = []"
      | "length (trimmed ?s) \<le> KS_MAX_REQUEST" "?r \<noteq> []" by linarith
    then show ?thesis
    proof cases
      case 1
      with run show ?thesis by (simp add: parse_spec_def parse_result_def)
    next
      case 2
      with run show ?thesis by (simp add: parse_spec_def parse_result_def w del: dropWhile_eq_Nil_conv)
    next
      case 3
      then have "\<not> is_separator (hd ?r)" using hd_dropWhile_separator [of "trimmed ?s"] by blast
      from parse_rest_spec [OF i(2) 3(2) this, of out] 3 False show ?thesis
        unfolding run parse_result_length [OF b(3)]
        by (simp add: parse_spec_def w del: dropWhile_eq_Nil_conv)
    qed
  qed
qed

section \<open>Round trip\<close>

lemma unquote_escape: "unquote (escape s @ DQUOTE # r) = Some (s, r)"
  by (induction s) auto

lemma next_word_quote:
  assumes "r = [] \<or> is_separator (hd r)" shows "next_word (quote w @ r) = Some (w, r)"
  using assms by (simp add: next_word_def quote_def unquote_escape)

lemma words_render: "words (render ws) = Some ws"
proof (induction ws)
  case (Cons w ws)
  have quoted: "words (quote w @ r) = map_option ((#) w) (words r)" if "r = [] \<or> is_separator (hd r)" for r
    using words_next [of "quote w @ r"] next_word_quote [OF that, of w]
    by (simp add: quote_def words_dropWhile)
  have "words (SP # render ws) = words (render ws)"
    using words_dropWhile [of "SP # render ws"] words_dropWhile [of "render ws"]
    by (simp add: is_separator_def)
  with Cons quoted [of "[]"] quoted [of "SP # render ws"] show ?case
    by (auto simp: is_separator_def)
qed simp

lemma escape_no_NUL: "NUL \<notin> set w \<Longrightarrow> NUL \<notin> set (escape w)"
  by (induction w) auto

lemma render_no_NUL: "\<forall>w \<in> set ws. NUL \<notin> set w \<Longrightarrow> \<forall>c \<in> set (render ws). c \<noteq> NUL"
  by (induction ws) (auto simp: quote_def dest: escape_no_NUL)

lemma trimmed_render: "trimmed (render (w # ws)) = render (w # ws)"
proof -
  have "render (w # ws) \<noteq> [] \<and> last (render (w # ws)) = DQUOTE"
    by (induction ws arbitrary: w) (auto simp: quote_def)
  then have "render (w # ws) = butlast (render (w # ws)) @ [DQUOTE]"
    by (metis append_butlast_last_id)
  then show ?thesis using trimmed_snoc [of "butlast (render (w # ws))" DQUOTE] by simp
qed

section \<open>Formatters\<close>

lemma snprintf_emits:
  assumes cap: "0 < cap" "cap \<le> length d" "cap \<le> 2 ^ 31"
  shows "emits (map_option (apsnd Some) (snprintf_or_empty d cap text)) d cap text"
proof -
  from cap obtain x d' where d: "d = x # d'" by (cases d) auto
  show ?thesis
  proof (cases "length text < cap")
    case True
    then have "length text \<le> INT_MAX" using cap(3) by (simp add: INT_MAX_def)
    moreover have "drop (Suc (length text)) (NUL # d') = drop (Suc (length text)) d" by (simp add: d)
    ultimately show ?thesis
      using True cap(2) by (simp add: emits_def snprintf_or_empty_def c_snprintf_def wr_def d Let_def)
  next
    case False
    obtain y ys where y: "take (cap - 1) text @ [NUL] = y # ys"
      by (cases "take (cap - 1) text @ [NUL]") auto
    moreover from arg_cong [OF y, of length] have "Suc (length ys) = cap" using False cap(1) by simp
    ultimately show ?thesis
      using False cap by (auto simp: emits_def snprintf_or_empty_def c_snprintf_def wr_def d Let_def)
  qed
qed

lemma fmt_emits:
  assumes cap: "0 < cap" "cap \<le> length d" "cap \<le> 2 ^ 31"
  shows "emits (ks_fmt_simple (Some d) cap (Some s)) d cap (''+'' @ s @ [CR, LF])"
    "emits (ks_fmt_error (Some d) cap (Some s)) d cap (''-ERR '' @ s @ [CR, LF])"
    "emits (ks_fmt_int (Some d) cap i) d cap ('':'' @ fmt_int i @ [CR, LF])"
    "emits (ks_fmt_array_header (Some d) cap n) d cap (''*'' @ fmt_nat n @ [CR, LF])"
    "emits (ks_fmt_nil (Some d) cap) d cap (''$-1'' @ [CR, LF])"
proof -
  show "emits (ks_fmt_nil (Some d) cap) d cap (''$-1'' @ [CR, LF])"
  proof -
    from cap obtain x d' where d: "d = x # d'" by (cases d) auto
    show ?thesis using cap
      by (auto simp: emits_def ks_fmt_nil_def Let_def wr_def memcpy_def d)
  qed
qed (use cap snprintf_emits [OF cap] in \<open>simp_all add: ks_fmt_simple_def ks_fmt_error_def format_text_def
    ks_fmt_int_def ks_fmt_array_header_def\<close>)

text \<open>The tail of a bulk response, written behind its header.\<close>

lemma bulk_tail:
  assumes "length h + n + 3 \<le> length d" "n \<le> length src" "d1 = h @ NUL # drop (length h + 1) d"
  shows "do {
      d \<leftarrow> (if n \<noteq> 0 then memcpy d1 (length h) (take n src) else Some d1);
      d \<leftarrow> wr d (length h + n) CR;
      d \<leftarrow> wr d (length h + n + 1) LF;
      d \<leftarrow> wr d (length h + n + 2) NUL;
      f d } =
    f (h @ take n src @ [CR, LF, NUL] @ drop (length h + n + 3) d)"
proof -
  define rest where "rest = drop n (NUL # drop (length h + 1) d)"
  have len: "length rest = length d - length h - n" "3 \<le> length rest"
    using assms(1) by (simp_all add: rest_def)
  then obtain a b c rest' where rest: "rest = a # b # c # rest'"
    by (metis Suc_le_length_iff numeral_3_eq_3)
  have "rest' = drop 3 rest" by (simp add: rest)
  also have "\<dots> = drop (length h + n + 3) d"
    by (cases n) (simp_all add: rest_def add.commute add.left_commute numeral_3_eq_3)
  finally have rest': "rest' = drop (length h + n + 3) d" .
  have "(if n \<noteq> 0 then memcpy d1 (length h) (take n src) else Some d1) = Some (h @ take n src @ rest)"
    using assms by (auto simp: memcpy_def rest_def)
  then show ?thesis
    using assms(2) by (simp add: wr_def rest list_update_append rest')
qed

lemma fmt_bulk_emits:
  assumes cap: "0 < cap" "cap \<le> length d" "cap \<le> 2 ^ 31" and n: "n \<le> length src"
  shows "emits (ks_fmt_bulk (Some d) cap (Some src) n) d cap
    (''$'' @ fmt_nat n @ [CR, LF] @ take n src @ [CR, LF])"
proof -
  define h where "h = ''$'' @ fmt_nat n @ [CR, LF]"
  from cap obtain x d' where d: "d = x # d'" by (cases d) auto
  let ?T = "h @ take n src @ [CR, LF]"
  have len: "length ?T = length h + n + 2" using n by simp
  have "emits (ks_fmt_bulk (Some d) cap (Some src) n) d cap ?T"
  proof (cases "length h < cap")
    case False
    with snprintf_emits [OF cap, of h] obtain d2 where
      "snprintf_or_empty d cap h = Some (0, d2)" "length d2 = length d" "hd d2 = NUL"
      using cap(1) by (auto simp: emits_def split: option.splits)
    moreover have "ks_fmt_bulk (Some d) cap (Some src) n = map_option (apsnd Some) (snprintf_or_empty d cap h)"
      using False cap unfolding ks_fmt_bulk_def snprintf_or_empty_def h_def [symmetric]
      by (auto simp: wr_def c_snprintf_def d Let_def split: option.splits)
    ultimately show ?thesis using False len cap by (simp add: emits_def)
  next
    case True
    let ?d1 = "h @ NUL # drop (length h + 1) d"
    have int: "length h \<le> INT_MAX" using True cap(3) by (simp add: INT_MAX_def)
    have go: "ks_fmt_bulk (Some d) cap (Some src) n =
        (if cap - length h < 3 \<or> n > cap - length h - 3 then map_option (\<lambda>d. (0, Some d)) (wr ?d1 0 NUL)
         else do {
           d \<leftarrow> (if n \<noteq> 0 then memcpy ?d1 (length h) (take n src) else Some ?d1);
           d \<leftarrow> wr d (length h + n) CR;
           d \<leftarrow> wr d (length h + n + 1) LF;
           d \<leftarrow> wr d (length h + n + 2) NUL;
           Some (length h + n + 2, Some d) })"
      using True int cap n unfolding ks_fmt_bulk_def h_def [symmetric]
      by (auto simp: wr_def c_snprintf_def d Let_def split: option.splits)
    show ?thesis
    proof (cases "length ?T < cap")
      case T: True
      with len cap have "length h + n + 3 \<le> length d" by simp
      from bulk_tail [OF this n refl, of "\<lambda>d. Some (length h + n + 2, Some d)"] T len show ?thesis
        unfolding go emits_def by (auto simp: numeral_3_eq_3)
    next
      case F: False
      then show ?thesis using len True cap(1,2) unfolding go
        by (auto simp: emits_def wr_def d h_def)
    qed
  qed
  then show ?thesis by (simp add: h_def)
qed

section \<open>Properties\<close>

text \<open>
  C31. The in-place parser implements the request grammar. For every buffer that holds a NUL or
  is long enough for the length limit, the call returns, so it stays inside the buffer; it
  reports failure, with a cleared command, exactly for the lines the grammar rejects, and
  otherwise the returned pointers denote, in the rewritten buffer, exactly the upper-case command
  and the decoded arguments, in order.
\<close>

theorem parse_line_correct:
  assumes "NUL \<in> set buf \<or> KS_MAX_REQUEST + 3 \<le> length buf"
  shows "case parse_spec (content buf) of
      None \<Rightarrow> \<exists>buf'. ks_parse_line (Some buf) out = Some (False, Some buf', clear_command out)
    | Some (cmd, args) \<Rightarrow> \<exists>buf' p ps. ks_parse_line (Some buf) out =
          Some (True, Some buf', out\<lparr>c_cmd := Some p,
            c_argv := map Some ps @ replicate (KS_MAX_ARGS - length ps) None, c_argc := length ps\<rparr>) \<and>
        length buf' = length buf \<and> length ps \<le> KS_MAX_ARGS \<and>
        cstr_at buf' p cmd \<and> list_all2 (cstr_at buf') ps args"
  using parse_line_result [OF assms, of out] by (simp add: parse_result_def)

text \<open>An empty command structure, for the examples.\<close>

definition ex_cmd :: ks_cmd where
  "ex_cmd = \<lparr>c_cmd = None, c_argv = [], c_argc = 0\<rparr>"

theorem parse_line_correct_witness:
  "\<exists>buf' p q. ks_parse_line (Some (''get k'' @ [CR, LF, NUL])) ex_cmd =
      Some (True, Some buf', ex_cmd\<lparr>c_cmd := Some p, c_argv := Some q # replicate 15 None, c_argc := 1\<rparr>) \<and>
    cstr_at buf' p ''GET'' \<and> cstr_at buf' q ''k''"
proof -
  have "content (''get k'' @ [CR, LF, NUL]) = ''get k'' @ [CR, LF]"
    "trimmed (''get k'' @ [CR, LF]) = ''get k''" "words ''get k'' = Some [''get'', ''k'']"
    "map c_toupper ''get'' = ''GET''" by code_simp+
  then have "parse_spec (content (''get k'' @ [CR, LF, NUL])) = Some (''GET'', [''k''])"
    by (simp add: parse_spec_def KS_MAX_REQUEST_def KS_MAX_ARGS_def)
  with parse_line_correct [of "''get k'' @ [CR, LF, NUL]" ex_cmd] show ?thesis
    by (auto simp: list_all2_Cons2 KS_MAX_ARGS_def) blast
qed

text \<open>
  C32. Every request can be expressed: a command and up to sixteen arguments, of arbitrary bytes
  but NUL, quoted and escaped, is parsed back to exactly these arguments, the command in upper
  case, whenever it fits in a request.
\<close>

theorem parse_render_roundtrip:
  assumes "cmd \<noteq> []" "length args \<le> KS_MAX_ARGS" "length (render (cmd # args)) \<le> KS_MAX_REQUEST"
    and "\<forall>w \<in> set (cmd # args). NUL \<notin> set w"
  shows "\<exists>buf' p ps. ks_parse_line (Some (render (cmd # args) @ NUL # junk)) out =
      Some (True, Some buf', out\<lparr>c_cmd := Some p,
        c_argv := map Some ps @ replicate (KS_MAX_ARGS - length ps) None, c_argc := length args\<rparr>) \<and>
    cstr_at buf' p (map c_toupper cmd) \<and> list_all2 (cstr_at buf') ps args"
proof -
  let ?s = "render (cmd # args)"
  have "content (?s @ NUL # junk) = ?s"
    using render_no_NUL [OF assms(4)] unfolding content_def by (subst takeWhile_append2) auto
  moreover have "trimmed ?s = ?s" by (rule trimmed_render)
  ultimately have "parse_spec (content (?s @ NUL # junk)) = Some (map c_toupper cmd, args)"
    using assms(1-3) words_render [of "cmd # args"] by (simp add: parse_spec_def del: render.simps)
  with parse_line_result [of "?s @ NUL # junk" out] show ?thesis
    unfolding parse_result_def by (auto simp del: render.simps) (metis list_all2_lengthD)
qed

theorem parse_render_roundtrip_witness:
  "\<exists>buf' p ps. ks_parse_line (Some (render [''set'', ''k'', [DQUOTE, SP]] @ [NUL])) ex_cmd =
      Some (True, Some buf', ex_cmd\<lparr>c_cmd := Some p,
        c_argv := map Some ps @ replicate (KS_MAX_ARGS - length ps) None, c_argc := 2\<rparr>) \<and>
    cstr_at buf' p ''SET'' \<and> list_all2 (cstr_at buf') ps [''k'', [DQUOTE, SP]]"
proof -
  have "map c_toupper ''set'' = ''SET''" by code_simp
  then show ?thesis
    using parse_render_roundtrip [of "''set''" "[''k'', [DQUOTE, SP]]" "[]" ex_cmd]
    by (simp add: KS_MAX_ARGS_def KS_MAX_REQUEST_def quote_def numeral_2_eq_2)
qed

text \<open>
  C33. Every formatter writes exactly its response, CR LF and a terminating NUL, and returns the
  length, when that fits in the capacity; otherwise it returns 0 and leaves an empty string. It
  never writes outside the memory it was given.
\<close>

theorem formatters_exact:
  assumes "0 < cap" "cap \<le> length d" "cap \<le> 2 ^ 31" "n \<le> length src"
  shows "emits (ks_fmt_simple (Some d) cap (Some s)) d cap (''+'' @ s @ [CR, LF]) \<and>
    emits (ks_fmt_error (Some d) cap (Some s)) d cap (''-ERR '' @ s @ [CR, LF]) \<and>
    emits (ks_fmt_int (Some d) cap i) d cap ('':'' @ fmt_int i @ [CR, LF]) \<and>
    emits (ks_fmt_bulk (Some d) cap (Some src) n) d cap
      (''$'' @ fmt_nat n @ [CR, LF] @ take n src @ [CR, LF]) \<and>
    emits (ks_fmt_nil (Some d) cap) d cap (''$-1'' @ [CR, LF]) \<and>
    emits (ks_fmt_array_header (Some d) cap n) d cap (''*'' @ fmt_nat n @ [CR, LF])"
  using fmt_emits [OF assms(1-3)] fmt_bulk_emits [OF assms] by blast

theorem formatters_exact_witness:
  "ks_fmt_simple (Some (replicate 8 SP)) 8 (Some ''PONG'') =
     Some (7, Some (''+PONG'' @ [CR, LF, NUL])) \<and>
   (\<exists>d. ks_fmt_simple (Some (replicate 8 SP)) 7 (Some ''PONG'') = Some (0, Some d) \<and> hd d = NUL)"
  using formatters_exact [of 8 "replicate 8 SP" 0 "[]" "''PONG''" 0]
    formatters_exact [of 7 "replicate 8 SP" 0 "[]" "''PONG''" 0]
  by (simp add: emits_def) blast

end
