(* ===== verification/Kessel_Server_Buffers.thy ===== *)
theory Kessel_Server_Buffers
  imports Kessel_Server Kessel_Protocol_Correct
begin

text \<open>
  The buffers of a client. \<open>client_ok\<close> is the type invariant of a client structure, and
  \<open>outbox\<close> is what the output buffer means: the bytes that are queued and not yet sent. Queueing
  appends to it or refuses without a change, writing takes from its front.
\<close>

section \<open>Invariant and meaning\<close>

definition client_ok :: "ks_client \<Rightarrow> bool" where
  "client_ok c \<longleftrightarrow>
     (if cl_used c then
        length (cl_input c) = KS_INPUT_CAP + 1 \<and> cl_input_len c \<le> KS_INPUT_CAP \<and>
        length (cl_output c) = KS_OUTPUT_CAP \<and> cl_output_offset c \<le> cl_output_len c \<and>
        cl_output_len c \<le> KS_OUTPUT_CAP
      else c = zero_client)"

definition outbox :: "ks_client \<Rightarrow> bytes" where
  "outbox c = take (pending c) (drop (cl_output_offset c) (cl_output c))"

definition inbox :: "ks_client \<Rightarrow> bytes" where
  "inbox c = take (cl_input_len c) (cl_input c)"

text \<open>\<open>c'\<close> is \<open>c\<close> with \<open>text\<close> appended to the queue, and nothing else changed.\<close>

definition queued :: "ks_client \<Rightarrow> bytes \<Rightarrow> ks_client \<Rightarrow> bool" where
  "queued c text c' \<longleftrightarrow> client_ok c' \<and> outbox c' = outbox c @ text \<and>
     c' = c\<lparr>cl_output := cl_output c', cl_output_offset := cl_output_offset c',
            cl_output_len := cl_output_len c'\<rparr>"

lemma client_okD:
  assumes "client_ok c" "cl_used c"
  shows "length (cl_input c) = KS_INPUT_CAP + 1" "cl_input_len c \<le> KS_INPUT_CAP"
    "length (cl_output c) = KS_OUTPUT_CAP" "cl_output_offset c \<le> cl_output_len c"
    "cl_output_len c \<le> KS_OUTPUT_CAP" "pending c \<le> KS_OUTPUT_CAP" "length (outbox c) = pending c"
  using assms by (auto simp: client_ok_def pending_def outbox_def)

lemma client_ok_zero [simp]: "client_ok zero_client"
  by (simp add: client_ok_def zero_client_def)

lemma queuedD:
  assumes "queued c text c'"
  shows "client_ok c'" "outbox c' = outbox c @ text" "cl_used c' = cl_used c" "cl_fd c' = cl_fd c"
    "cl_id c' = cl_id c" "cl_close_after_write c' = cl_close_after_write c"
    "cl_drop_connection c' = cl_drop_connection c" "cl_input c' = cl_input c"
    "cl_input_len c' = cl_input_len c"
  using assms by (auto simp: queued_def) (metis ks_client.select_convs ks_client.surjective ks_client.update_convs)+

lemma pending_outbox: "client_ok c \<Longrightarrow> cl_used c \<Longrightarrow> pending c = length (outbox c)"
  using client_okD(7) by simp

lemma queued_pending:
  assumes "queued c text c'" "client_ok c" "cl_used c"
  shows "pending c' = pending c + length text"
  using assms queuedD [OF assms(1)] by (simp add: pending_outbox)

section \<open>Queueing\<close>

text \<open>The output buffer after the pending bytes are moved to its front.\<close>

definition compacted :: "ks_client \<Rightarrow> ks_client" where
  "compacted c = (if cl_output_offset c > 0
     then c\<lparr>cl_output := outbox c @ drop (pending c) (cl_output c), cl_output_offset := 0,
            cl_output_len := pending c\<rparr>
     else c)"

lemma compacted_ok:
  assumes "client_ok c" "cl_used c"
  shows "queued c [] (compacted c)" "cl_output_offset (compacted c) = 0"
    "cl_output_len (compacted c) = pending c" "pending (compacted c) = pending c"
  using assms client_okD [OF assms]
  by (auto simp: compacted_def queued_def client_ok_def outbox_def pending_def)

lemma client_queue_compacted:
  assumes "client_ok c" "cl_used c"
  shows "client_queue c data n = do {
      let c = compacted c;
      if n > KS_OUTPUT_CAP - cl_output_len c then Some (- 1, c)
      else if length data < n then None
      else do {
        out \<leftarrow> memcpy (cl_output c) (cl_output_len c) (take n data);
        Some (0, c\<lparr>cl_output := out, cl_output_len := cl_output_len c + n\<rparr>) } }"
  using client_okD [OF assms]
  by (simp add: client_queue_def compacted_def memcpy_def outbox_def pending_def Let_def) arith

lemma client_queue_spec:
  assumes c: "client_ok c" "cl_used c" and data: "n \<le> length data"
  shows "\<exists>c'. if pending c + n \<le> KS_OUTPUT_CAP
    then client_queue c data n = Some (0, c') \<and> queued c (take n data) c'
    else client_queue c data n = Some (- 1, c') \<and> queued c [] c'"
proof -
  let ?c = "compacted c"
  note k = compacted_ok [OF c]
  note q = queuedD [OF k(1)]
  have ok: "client_ok ?c" "cl_used ?c" using q c by simp_all
  note d = client_okD [OF ok]
  show ?thesis
  proof (cases "pending c + n \<le> KS_OUTPUT_CAP")
    case True
    let ?c' = "?c\<lparr>cl_output := take (pending c) (cl_output ?c) @ take n data @ drop (pending c + n) (cl_output ?c),
      cl_output_len := pending c + n\<rparr>"
    have "client_queue c data n = Some (0, ?c')"
      using True k d(3) data by (simp add: client_queue_compacted [OF c] memcpy_def Let_def)
    moreover have "outbox ?c' = outbox ?c @ take n data"
      using k d(3) data True by (simp add: outbox_def pending_def)
    then have "queued c (take n data) ?c'"
      using q k d True data c(2)
      by (auto simp: queued_def client_ok_def)
    ultimately show ?thesis using True by auto
  next
    case False
    with client_okD(6) [OF c] have "KS_OUTPUT_CAP - pending c < n" by arith
    then show ?thesis using False k by (simp add: client_queue_compacted [OF c] Let_def)
  qed
qed

text \<open>
  A formatted response is queued whenever it fits in the response buffer and in the room that is
  left; every text the server formats is compared with the limits through this lemma.
\<close>

lemma queue_text:
  assumes c: "client_ok c" "cl_used c" and room: "pending c + length text \<le> KS_OUTPUT_CAP"
    and e: "emits r dst cap text" "length text < cap" "cap \<le> length dst"
  obtains data c' where "r = Some (length text, Some data)"
    "client_queue c data (length text) = Some (0, c')" "queued c text c'"
proof -
  let ?data = "text @ NUL # drop (length text + 1) dst"
  from e have r: "r = Some (length text, Some ?data)" by (simp add: emits_def)
  from client_queue_spec [OF c, of "length text" ?data] room obtain c' where
    "client_queue c ?data (length text) = Some (0, c')" "queued c text c'" by auto
  with r show thesis by (rule that)
qed

lemma queue_error_spec:
  assumes c: "client_ok c" "cl_used c" and room: "pending c < KS_OUTPUT_HIGH_WATER"
    and m: "length message < 240"
  shows "\<exists>c'. queue_error c message = Some (0, c') \<and> queued c (''-ERR '' @ message @ [CR, LF]) c'"
proof -
  have e: "emits (ks_fmt_error (Some (fresh 256)) 256 (Some message)) (fresh 256) 256
      (''-ERR '' @ message @ [CR, LF])" by (rule fmt_emits(2)) (simp_all add: fresh_def)
  show ?thesis
    by (rule queue_text [OF c _ e])
      (use room m in \<open>auto simp: queue_error_def fresh_def KS_OUTPUT_HIGH_WATER_def KS_OUTPUT_CAP_def KS_MAX_REQUEST_def\<close>)
qed

section \<open>Writing\<close>

text \<open>What one run of \<open>write_client\<close> does: the bytes given to \<open>send\<close> are a prefix of the queue.\<close>

lemma outbox_advance:
  assumes "client_ok c" "cl_used c" "n \<le> pending c"
  shows "outbox c = take n (drop (cl_output_offset c) (cl_output c)) @
      outbox (c\<lparr>cl_output_offset := cl_output_offset c + n\<rparr>)"
    "client_ok (c\<lparr>cl_output_offset := cl_output_offset c + n\<rparr>)"
proof -
  let ?d = "drop (cl_output_offset c) (cl_output c)"
  have "take (pending c) ?d = take n ?d @ take (pending c - n) (drop n ?d)"
    using assms(3) by (metis le_add_diff_inverse take_add)
  then show "outbox c = take n ?d @ outbox (c\<lparr>cl_output_offset := cl_output_offset c + n\<rparr>)"
    by (simp add: outbox_def pending_def add.commute)
  show "client_ok (c\<lparr>cl_output_offset := cl_output_offset c + n\<rparr>)"
    using assms client_okD [OF assms(1,2)] by (auto simp: client_ok_def pending_def)
qed

lemma write_loop_spec:
  assumes "client_ok c" "cl_used c" "settles os"
  shows "\<exists>r c' out' os'. write_loop c os out = Some (r, c', out @ out', os') \<and>
    client_ok c' \<and> outbox c = out' @ outbox c' \<and> c' = c\<lparr>cl_output_offset := cl_output_offset c'\<rparr> \<and>
    (r = None \<longrightarrow> outbox c' = []) \<and> (\<forall>n. r = Some n \<longrightarrow> n \<in> {0, - 1} \<and> outbox c' \<noteq> [])"
  using assms
proof (induction "length os" arbitrary: c os out rule: less_induct)
  case less
  note d = client_okD [OF less.prems(1,2)]
  show ?case
  proof (cases "cl_output_offset c < cl_output_len c")
    case False
    then show ?thesis
      using less.prems d(4) by (subst write_loop.simps) (auto simp: outbox_def pending_def)
  next
    case True
    then have p: "0 < pending c" by (simp add: pending_def)
    with d(7) have ne: "outbox c \<noteq> []" by auto
    from send_settles [OF less.prems(3), of "pending c"] obtain st n os' where
      s: "send_loop (pending c) os = Some (st, n, os')" "n \<le> pending c" "n \<noteq> 0 \<longleftrightarrow> st = KS_IO_OK"
        "st = KS_IO_OK \<Longrightarrow> settles os' \<and> length os' < length os" by blast
    have send: "ks_send os (pending c) = Some (st, n, os')" using s(1) p by (simp add: ks_send_def)
    show ?thesis
    proof (cases "st = KS_IO_OK")
      case ok: True
      let ?c = "c\<lparr>cl_output_offset := cl_output_offset c + n\<rparr>"
      note adv = outbox_advance [OF less.prems(1,2) s(2)]
      let ?out = "take n (drop (cl_output_offset c) (cl_output c))"
      have step: "write_loop c os out = write_loop ?c os' (out @ ?out)"
        using True send ok by (subst write_loop.simps) simp
      have "cl_used ?c" "length os' < length os" "settles os'" using less.prems(2) s(4) ok by auto
      from less.hyps [OF this(2) adv(2) this(1,3), of "out @ ?out"] adv(1) show ?thesis
        unfolding step by auto
    next
      case False
      then have "st = KS_IO_WOULD_BLOCK \<or> st = KS_IO_CLOSED \<or> st = KS_IO_ERROR" by (cases st) auto
      then show ?thesis
        using True send less.prems(1) ne by (subst write_loop.simps) auto
    qed
  qed
qed

lemma write_client_spec:
  assumes "client_ok c" "cl_used c" "settles os"
  obtains r c' out os' where "write_client c os = Some (r, c', out, os')" "client_ok c'"
    "outbox c = out @ outbox c'" "r \<in> {0, - 1}"
    "c' = c\<lparr>cl_output_offset := cl_output_offset c', cl_output_len := cl_output_len c'\<rparr>"
    "outbox c' = [] \<Longrightarrow> (r = 0 \<longleftrightarrow> \<not> cl_close_after_write c)"
proof -
  from write_loop_spec [OF assms, of "[]"] obtain r c' out os' where
    w: "write_loop c os [] = Some (r, c', out, os')" "client_ok c'" "outbox c = out @ outbox c'"
      "c' = c\<lparr>cl_output_offset := cl_output_offset c'\<rparr>" "r = None \<Longrightarrow> outbox c' = []"
      "\<And>n. r = Some n \<Longrightarrow> n \<in> {0, - 1} \<and> outbox c' \<noteq> []" by auto
  from w(4) obtain k where k: "c' = c\<lparr>cl_output_offset := k\<rparr>" by blast
  show thesis
  proof (cases r)
    case None
    let ?c = "c\<lparr>cl_output_offset := 0, cl_output_len := 0\<rparr>"
    have "client_ok ?c" "outbox ?c = []"
      using client_okD [OF assms(1,2)] assms(2) by (auto simp: client_ok_def outbox_def pending_def)
    then show thesis
      using w(1,3,5) None by (intro that [of "if cl_close_after_write c then - 1 else 0" ?c out os'])
        (simp_all add: write_client_def k)
  next
    case (Some n)
    show thesis
    proof (rule that [of n c' out os'])
      show "write_client c os = Some (n, c', out, os')" using w(1) Some by (simp add: write_client_def)
      show "c' = c\<lparr>cl_output_offset := cl_output_offset c', cl_output_len := cl_output_len c'\<rparr>"
        by (simp add: k)
    qed (use w Some in auto)
  qed
qed

end
