(* ===== verification/Kessel_Ds_Probe.thy ===== *)
theory Kessel_Ds_Probe
  imports Kessel_Ds
begin

text \<open>
  The slot array of the hash table: what the probe loop of \<open>ks_ds_find\<close> returns, how a
  write to one slot changes the array invariant \<open>es_inv\<close>, and how it changes the map that
  the array stands for.
\<close>

section \<open>Probing\<close>

lemma nonempty_occ [simp]: "occ e \<Longrightarrow> nonempty e"
  by (simp add: occ_def nonempty_def)

lemma es_inv_length:
  assumes "es_inv hf es"
  obtains n where "3 \<le> n" "n < 60" "length es = 2 ^ n" "8 \<le> length es" "length es < 2 ^ 60"
proof -
  from assms obtain n where n: "3 \<le> n" "n < 60" "length es = 2 ^ n"
    by (auto simp: es_inv_def)
  have "(2::nat) ^ 3 \<le> 2 ^ n"
    using n(1) by (rule power_increasing) simp
  moreover have "(2::nat) ^ n < 2 ^ 60"
    using n(2) by (rule power_strict_increasing) simp
  ultimately show thesis using n by (intro that [of n]) simp_all
qed

lemma next_index:
  fixes i c :: u64
  assumes "unat c = 2 ^ n" "n < 60" "unat i < 2 ^ n"
  shows "unat ((i + 1) AND (c - 1)) = Suc (unat i) mod 2 ^ n"
proof -
  have "(2::nat) ^ n < 2 ^ 60"
    using assms(2) by (intro power_strict_increasing) auto
  with assms(3) have "unat (i + 1) = Suc (unat i)"
    by (subst unat_add_lem [THEN iffD1]) auto
  then show ?thesis
    by (simp add: unat_and_mask_pow2 [OF assms(1)])
qed

lemma slot_Suc_index:
  fixes i c :: u64
  assumes "unat i = (s + j) mod length es" "length es = 2 ^ n" "n < 60" "unat c = 2 ^ n"
  shows "unat ((i + 1) AND (c - 1)) = (s + Suc j) mod length es"
proof -
  have "unat i < 2 ^ n" using assms by simp
  then have "unat ((i + 1) AND (c - 1)) = Suc (unat i) mod 2 ^ n"
    by (rule next_index [OF assms(4,3)])
  with assms show ?thesis
    by (simp add: mod_Suc_eq)
qed

lemma mod_slot_less [simp]: "es \<noteq> [] \<Longrightarrow> (s + j) mod length es < length es"
  by simp

text \<open>
  The loop invariant of the probe: after \<open>j\<close> steps no slot passed was empty or held the
  key, and \<open>first_tombstone\<close> is unset or the position of a tombstone that was passed.
\<close>

lemma find_loop_result:
  assumes shape: "length es = 2 ^ n" "n < 60" "unat c = 2 ^ n"
    and D: "\<not> nonempty (slot es s D)" "\<forall>j<D. nonempty (slot es s j)"
    and j: "j \<le> D" "unat i = (s + j) mod length es"
    and nomatch: "\<forall>m<j. \<not> (occ (slot es s m) \<and> entry_matches eq k h (slot es s m))"
    and ft: "ft = SIZE_MAX \<or> (\<exists>m<j. unat ft = (s + m) mod length es \<and> \<not> occ (slot es s m))"
  shows "\<exists>p f. ks_ds_find_loop es eq c k h i ft = Some (p, f) \<and>
     (if f then \<exists>m<D. unat p = (s + m) mod length es \<and> occ (slot es s m) \<and>
                      entry_matches eq k h (slot es s m)
      else (\<exists>m\<le>D. unat p = (s + m) mod length es \<and> \<not> occ (slot es s m)) \<and>
           (\<forall>m<D. \<not> (occ (slot es s m) \<and> entry_matches eq k h (slot es s m))))"
  using j nomatch ft
proof (induction "D - j" arbitrary: j i ft)
  case 0
  then have jD: "j = D" by simp
  have ne: "es \<noteq> []" using shape by auto
  have "e_state (es ! unat i) = KS_DS_EMPTY" "unat i < length es"
    using D(1) 0 jD ne by (auto simp: slot_def nonempty_def)
  moreover have "\<not> occ (slot es s D)" using D(1) by (auto simp: nonempty_def occ_def)
  ultimately show ?case
    using 0 jD
    by (subst ks_ds_find_loop.simps) (auto intro: less_imp_le)
next
  case (Suc x)
  have ne: "es \<noteq> []" using shape by auto
  have jD: "j < D" using Suc.hyps(2) by simp
  have e: "es ! unat i = slot es s j" and il: "unat i < length es"
    using Suc.prems ne by (auto simp: slot_def)
  have iM: "i \<noteq> SIZE_MAX"
  proof
    assume "i = SIZE_MAX"
    moreover have "(2::nat) ^ n < 2 ^ 60"
      using shape(2) by (intro power_strict_increasing) auto
    ultimately show False using il shape by simp
  qed
  have nonE: "e_state (slot es s j) \<noteq> KS_DS_EMPTY"
    using D(2) jD by (auto simp: nonempty_def)
  note nxt = slot_Suc_index [OF Suc.prems(2) shape(1,2,3)]
  show ?case
  proof (cases "occ (slot es s j) \<and> entry_matches eq k h (slot es s j)")
    case True
    then have "ks_ds_find_loop es eq c k h i ft = Some (i, True)"
      using e il by (subst ks_ds_find_loop.simps) (simp add: occ_def)
    with True jD Suc.prems(2) show ?thesis by auto
  next
    case False
    define ft' where "ft' = (if e_state (slot es s j) = KS_DS_TOMBSTONE \<and> ft = SIZE_MAX
                             then i else ft)"
    have step: "ks_ds_find_loop es eq c k h i ft =
        ks_ds_find_loop es eq c k h ((i + 1) AND (c - 1)) ft'"
      using e il nonE False ft'_def
      by (subst ks_ds_find_loop.simps)
        (cases "e_state (slot es s j)"; auto simp: occ_def)
    have "ft' = SIZE_MAX \<or> (\<exists>m<Suc j. unat ft' = (s + m) mod length es \<and> \<not> occ (slot es s m))"
      using Suc.prems(2,4) by (auto simp: ft'_def occ_def less_Suc_eq)
    moreover have "\<forall>m<Suc j. \<not> (occ (slot es s m) \<and> entry_matches eq k h (slot es s m))"
      using Suc.prems(3) False by (auto simp: less_Suc_eq)
    ultimately show ?thesis
      unfolding step using Suc.hyps(1) [of "Suc j"] Suc.hyps(2) jD nxt by auto
  qed
qed

text \<open>From any position some probe distance below the capacity leads to any slot.\<close>

lemma slot_cover:
  assumes "i < length es"
  obtains d where "d < length es" "(s + d) mod length es = i"
proof
  let ?C = "length es"
  show "(i + (?C - s mod ?C)) mod ?C < ?C"
    using assms by (intro mod_less_divisor) auto
  have "s mod ?C < ?C"
    using assms by (intro mod_less_divisor) auto
  then have "s + (i + (?C - s mod ?C)) = i + ?C * Suc (s div ?C)"
    using mult_div_mod_eq [of ?C s] unfolding mult_Suc_right by linarith
  then have "(s + (i + (?C - s mod ?C))) mod ?C = i"
    using assms by (simp only: mod_mult_self2 mod_less)
  then show "(s + (i + (?C - s mod ?C)) mod ?C) mod ?C = i"
    by (simp only: mod_add_right_eq)
qed

lemma first_empty:
  assumes "length (filter nonempty es) < length es"
  obtains D where "D < length es" "\<not> nonempty (slot es s D)" "\<forall>j<D. nonempty (slot es s j)"
proof -
  from exists_not_filtered [OF assms] obtain i where "i < length es" "\<not> nonempty (es ! i)"
    by auto
  moreover obtain d where "d < length es" "(s + d) mod length es = i"
    using slot_cover [OF \<open>i < length es\<close>] .
  ultimately have d: "d < length es" "\<not> nonempty (slot es s d)"
    by (auto simp: slot_def)
  define D where "D = (LEAST D. \<not> nonempty (slot es s D))"
  have "\<not> nonempty (slot es s D)"
    unfolding D_def using d(2) by (rule LeastI)
  moreover have "D \<le> d"
    unfolding D_def using d(2) by (rule Least_le)
  moreover have "\<forall>j<D. nonempty (slot es s j)"
    unfolding D_def using not_less_Least by blast
  ultimately show thesis using d(1) by (intro that [of D]) auto
qed

text \<open>The start of a probe, and that a probe from there finds every live key.\<close>

lemma unat_ks_ds_index:
  assumes "es_inv hf es" "length es = unat c"
  shows "unat (ks_ds_index h c) = unat h mod length es"
proof -
  from es_inv_length [OF assms(1)] obtain n where "length es = 2 ^ n" by blast
  then show ?thesis
    using unat_and_mask_pow2 [of c n h] assms(2) by (simp add: ks_ds_index_def)
qed

lemma es_inv_key:
  assumes "es_inv hf es" "i < length es" "occ (es ! i)" "e_key (es ! i) = Some k"
  shows "e_hash (es ! i) = hf k" "es_reach es (unat (hf k) mod length es) i"
  using assms by (auto simp: es_inv_def)

lemma es_reach_before_empty:
  assumes "es_reach es s i" "\<not> nonempty (slot es s D)" "nonempty (es ! i)"
  obtains m where "m < D" "i = (s + m) mod length es"
proof -
  from assms(1) obtain d where d: "i = (s + d) mod length es" "\<forall>j<d. nonempty (slot es s j)"
    by (auto simp: es_reach_def)
  have "D \<noteq> d" using assms(2,3) d(1) by (auto simp: slot_def)
  moreover have "\<not> D < d" using d(2) assms(2) by auto
  ultimately show thesis using d(1) by (intro that [of d]) auto
qed

lemma find_cases:
  assumes t: "ds_entries t = Some es" "ds_equal t = Some (=)" "length es = unat (ds_capacity t)"
    and inv: "es_inv hf es" and room: "length (filter nonempty es) < length es"
  obtains (found) p where "ks_ds_find t k (hf k) = Some (p, True)" "unat p < length es"
      "occ (es ! unat p)" "e_key (es ! unat p) = Some k" "e_hash (es ! unat p) = hf k"
  | (missing) p where "ks_ds_find t k (hf k) = Some (p, False)" "unat p < length es"
      "\<not> occ (es ! unat p)" "es_reach es (unat (hf k) mod length es) (unat p)"
      "\<forall>i < length es. occ (es ! i) \<longrightarrow> e_key (es ! i) \<noteq> Some k"
proof -
  let ?s = "unat (hf k) mod length es"
  from es_inv_length [OF inv] obtain n where n: "n < 60" "length es = 2 ^ n" by metis
  then have ne: "es \<noteq> []" by auto
  from first_empty [OF room, of ?s] obtain D where D: "D < length es"
    "\<not> nonempty (slot es ?s D)" "\<forall>j<D. nonempty (slot es ?s j)" .
  have "unat (ks_ds_index (hf k) (ds_capacity t)) = (?s + 0) mod length es"
    using unat_ks_ds_index [OF inv t(3)] by simp
  from find_loop_result [OF n(2,1) t(3) [symmetric, unfolded n(2)] D(2,3) _ this,
      of "(=)" k "hf k" SIZE_MAX]
  obtain p f where pf: "ks_ds_find t k (hf k) = Some (p, f)" and
    res: "if f then \<exists>m<D. unat p = (?s + m) mod length es \<and> occ (slot es ?s m) \<and>
                      entry_matches (=) k (hf k) (slot es ?s m)
      else (\<exists>m\<le>D. unat p = (?s + m) mod length es \<and> \<not> occ (slot es ?s m)) \<and>
           (\<forall>m<D. \<not> (occ (slot es ?s m) \<and> entry_matches (=) k (hf k) (slot es ?s m)))"
    by (auto simp: ks_ds_find_def t)
  have p: "unat p < length es"
    using res ne by (auto split: if_splits)
  show thesis
  proof (cases f)
    case True
    with res p pf found show ?thesis
      by (auto simp: slot_def entry_matches_def split: option.splits)
  next
    case False
    have none: "e_key (es ! i) \<noteq> Some k" if i: "i < length es" "occ (es ! i)" for i
    proof
      assume k: "e_key (es ! i) = Some k"
      from es_inv_key [OF inv i k] obtain m where "m < D" "i = (?s + m) mod length es"
        using es_reach_before_empty D(2) i(2) by (metis nonempty_occ)
      with res False i k es_inv_key(1) [OF inv i k] show False
        by (auto simp: slot_def entry_matches_def)
    qed
    from res False obtain m where m: "m \<le> D" "unat p = (?s + m) mod length es" "\<not> occ (slot es ?s m)"
      by auto
    then have "es_reach es ?s (unat p)"
      using D by (auto simp: es_reach_def intro!: exI [of _ m])
    with m none False pf p show ?thesis
      by (intro missing [of p]) (auto simp: slot_def)
  qed
qed

section \<open>Writing a slot\<close>

lemma slot_update:
  assumes "i < length es"
  shows "slot (es[i := e]) s j = (if (s + j) mod length es = i then e else slot es s j)"
  using assms by (auto simp: slot_def nth_list_update)

lemma es_reach_update:
  assumes "es_reach es s j" "i < length es" "nonempty e"
  shows "es_reach (es[i := e]) s j"
proof -
  from assms(1) obtain d where "d < length es" "j = (s + d) mod length es"
    "\<forall>m<d. nonempty (slot es s m)"
    by (auto simp: es_reach_def)
  with assms(2,3) show ?thesis
    unfolding es_reach_def by (intro exI [of _ d]) (simp add: slot_update)
qed

lemma es_inv_inj:
  assumes "es_inv hf es" "i < length es" "j < length es" "occ (es ! i)" "occ (es ! j)"
    "e_key (es ! i) = e_key (es ! j)"
  shows "i = j"
  using assms unfolding es_inv_def by blast

lemma es_inv_occ_key:
  assumes "es_inv hf es" "i < length es" "occ (es ! i)"
  obtains k where "e_key (es ! i) = Some k" "e_hash (es ! i) = hf k"
    "es_reach es (unat (hf k) mod length es) i"
  using assms unfolding es_inv_def by blast

text \<open>Writing a slot keeps the array invariant if what is written is a tombstone or in place.\<close>

lemma es_inv_update:
  assumes inv: "es_inv hf es" and i: "i < length es" and ne: "nonempty e"
    and e: "occ e \<Longrightarrow> \<exists>k. e_key e = Some k \<and> e_hash e = hf k \<and>
             es_reach es (unat (hf k) mod length es) i"
    and only: "\<And>j. occ e \<Longrightarrow> j < length es \<Longrightarrow> occ (es ! j) \<Longrightarrow>
             e_key (es ! j) = e_key e \<Longrightarrow> j = i"
  shows "es_inv hf (es[i := e])"
  unfolding es_inv_def
proof (intro conjI allI impI)
  show "\<exists>n. 3 \<le> n \<and> n < 60 \<and> length (es[i := e]) = 2 ^ n"
    using es_inv_length [OF inv] by (metis length_list_update)
next
  fix j assume j: "j < length (es[i := e])" and o: "occ (es[i := e] ! j)"
  note up = es_reach_update [OF _ i ne]
  show "\<exists>k. e_key (es[i := e] ! j) = Some k \<and> e_hash (es[i := e] ! j) = hf k \<and>
      es_reach (es[i := e]) (unat (hf k) mod length (es[i := e])) j"
  proof (cases "j = i")
    case True
    with j o have ej: "es[i := e] ! j = e" "occ e" by auto
    with e obtain k where "e_key e = Some k" "e_hash e = hf k"
      "es_reach es (unat (hf k) mod length es) i" by blast
    with ej True up show ?thesis by (intro exI [of _ k]) simp
  next
    case False
    with j o have ej: "es[i := e] ! j = es ! j" "occ (es ! j)" "j < length es" by auto
    from es_inv_occ_key [OF inv ej(3,2)] obtain k where "e_key (es ! j) = Some k"
      "e_hash (es ! j) = hf k" "es_reach es (unat (hf k) mod length es) j" .
    with ej up show ?thesis by (intro exI [of _ k]) simp
  qed
next
  fix j l
  assume jl: "j < length (es[i := e])" "l < length (es[i := e])" "occ (es[i := e] ! j)"
    "occ (es[i := e] ! l)" "e_key (es[i := e] ! j) = e_key (es[i := e] ! l)"
  consider "j = i" "l = i" | "j = i" "l \<noteq> i" | "j \<noteq> i" "l = i" | "j \<noteq> i" "l \<noteq> i" by blast
  then show "j = l"
  proof cases
    case 2 with jl only [of l] show ?thesis by simp
  next
    case 3 with jl only [of j] show ?thesis by simp
  next
    case 4 with jl es_inv_inj [OF inv, of j l] show ?thesis by simp
  qed simp
qed

lemma es_inv_put:
  assumes "es_inv hf es" "i < length es" "es_reach es (unat (hf k) mod length es) i"
    and "\<forall>j < length es. occ (es ! j) \<longrightarrow> e_key (es ! j) = Some k \<longrightarrow> j = i"
    and "occ e" "e_key e = Some k" "e_hash e = hf k"
  shows "es_inv hf (es[i := e])"
  using assms by (intro es_inv_update) auto

lemma tombstone_simps [simp]:
  "\<not> occ tombstone_entry" "nonempty tombstone_entry" "\<not> occ zero_entry" "\<not> nonempty zero_entry"
  by (simp_all add: occ_def nonempty_def tombstone_entry_def zero_entry_def)

lemma es_inv_remove:
  assumes "es_inv hf es" "i < length es"
  shows "es_inv hf (es[i := tombstone_entry])"
  using assms by (intro es_inv_update) auto

section \<open>The abstract map of a slot array\<close>

lemma es_pairs_iff:
  assumes "es_inv hf es"
  shows "(k, v) \<in> set (es_pairs es) \<longleftrightarrow>
    (\<exists>i < length es. occ (es ! i) \<and> e_key (es ! i) = Some k \<and> e_value (es ! i) = v)"
proof -
  have "e_key e = Some (the (e_key e))" if "e \<in> set es" "occ e" for e
    using that es_inv_occ_key [OF assms] by (metis in_set_conv_nth option.sel)
  then have "(k, v) \<in> set (es_pairs es) \<longleftrightarrow>
      (\<exists>e \<in> set es. occ e \<and> e_key e = Some k \<and> e_value e = v)"
    by (force simp: es_pairs_def)
  then show ?thesis
    unfolding set_conv_nth by blast
qed

lemma es_pairs_distinct:
  assumes inv: "es_inv hf es"
  shows "distinct (map fst (es_pairs es))"
proof -
  let ?ks = "map (\<lambda>e. the (e_key e))"
  have "map fst (es_pairs es) = ?ks (filter occ es)"
    by (simp add: es_pairs_def)
  also have "distinct \<dots>"
  proof -
    have "distinct (?ks (filter occ xs))"
      if "\<And>i j. i < length xs \<Longrightarrow> j < length xs \<Longrightarrow> occ (xs ! i) \<Longrightarrow> occ (xs ! j) \<Longrightarrow>
            the (e_key (xs ! i)) = the (e_key (xs ! j)) \<Longrightarrow> i = j" for xs :: "('a, 'b) ks_ds_entry list"
      using that
    proof (induction xs)
      case (Cons x xs)
      have "distinct (?ks (filter occ xs))"
      proof (rule Cons.IH)
        fix i j
        assume "i < length xs" "j < length xs" "occ (xs ! i)" "occ (xs ! j)"
          "the (e_key (xs ! i)) = the (e_key (xs ! j))"
        then show "i = j" using Cons.prems [of "Suc i" "Suc j"] by simp
      qed
      moreover have "the (e_key x) \<noteq> the (e_key y)" if "occ x" "y \<in> set xs" "occ y" for y
      proof -
        from that(2) obtain j where "j < length xs" "y = xs ! j" by (auto simp: in_set_conv_nth)
        then show ?thesis using that Cons.prems [of 0 "Suc j"] by auto
      qed
      ultimately show ?case by auto
    qed simp
    moreover have "i = j"
      if "i < length es" "j < length es" "occ (es ! i)" "occ (es ! j)"
        "the (e_key (es ! i)) = the (e_key (es ! j))" for i j
      using that es_inv_occ_key [OF inv] es_inv_inj [OF inv, of i j] by (metis option.sel)
    ultimately show ?thesis by blast
  qed
  finally show ?thesis .
qed

lemma map_of_es_pairs:
  assumes "es_inv hf es"
  shows "map_of (es_pairs es) k = Some v \<longleftrightarrow>
    (\<exists>i < length es. occ (es ! i) \<and> e_key (es ! i) = Some k \<and> e_value (es ! i) = v)"
  using es_pairs_iff [OF assms] es_pairs_distinct [OF assms]
  by (simp add: map_of_eq_Some_iff)

lemma map_of_es_pairs_at:
  assumes "es_inv hf es" "i < length es" "occ (es ! i)" "e_key (es ! i) = Some k"
  shows "map_of (es_pairs es) k = Some (e_value (es ! i))"
  using assms by (auto simp: map_of_es_pairs)

lemma map_of_es_pairs_None:
  assumes "es_inv hf es"
  shows "map_of (es_pairs es) k = None \<longleftrightarrow>
    (\<forall>i < length es. occ (es ! i) \<longrightarrow> e_key (es ! i) \<noteq> Some k)"
  using map_of_es_pairs [OF assms, of k] by (metis not_None_eq)

lemma es_pairs_put:
  assumes inv: "es_inv hf es" "es_inv hf (es[i := e])" and i: "i < length es"
    and e: "occ e" "e_key e = Some k"
    and only: "occ (es ! i) \<Longrightarrow> e_key (es ! i) = Some k"
  shows "map_of (es_pairs (es[i := e])) = (map_of (es_pairs es))(k \<mapsto> e_value e)"
proof
  fix k'
  show "map_of (es_pairs (es[i := e])) k' = ((map_of (es_pairs es))(k \<mapsto> e_value e)) k'"
  proof (cases "k' = k")
    case True
    then show ?thesis
      using map_of_es_pairs_at [OF inv(2), of i k] i e by simp
  next
    case False
    have "occ (es[i := e] ! j) \<and> e_key (es[i := e] ! j) = Some k' \<longleftrightarrow>
        occ (es ! j) \<and> e_key (es ! j) = Some k'" if "j < length es" for j
      using False e only that by (cases "j = i") auto
    moreover have "e_value (es[i := e] ! j) = e_value (es ! j)"
      if "j < length es" "occ (es ! j)" "e_key (es ! j) = Some k'" for j
      using False only that by (cases "j = i") auto
    ultimately have "map_of (es_pairs (es[i := e])) k' = Some v \<longleftrightarrow> map_of (es_pairs es) k' = Some v"
      for v
      unfolding map_of_es_pairs [OF inv(1)] map_of_es_pairs [OF inv(2)] by (auto; metis)
    then show ?thesis using False by (simp, metis not_None_eq)
  qed
qed

lemma es_pairs_remove:
  assumes inv: "es_inv hf es" and i: "i < length es" "occ (es ! i)" "e_key (es ! i) = Some k"
  shows "map_of (es_pairs (es[i := tombstone_entry])) = (map_of (es_pairs es))(k := None)"
proof
  fix k'
  note inv' = es_inv_remove [OF inv i(1)]
  have "occ (es[i := tombstone_entry] ! j) \<and> e_key (es[i := tombstone_entry] ! j) = Some k' \<longleftrightarrow>
      k' \<noteq> k \<and> occ (es ! j) \<and> e_key (es ! j) = Some k'" if "j < length es" for j
    using es_inv_inj [OF inv, of i j] i that by (cases "j = i") auto
  moreover have "e_value (es[i := tombstone_entry] ! j) = e_value (es ! j)"
    if "k' \<noteq> k" "j < length es" "occ (es ! j)" "e_key (es ! j) = Some k'" for j
    using i that by (cases "j = i") auto
  ultimately have "map_of (es_pairs (es[i := tombstone_entry])) k' = Some v \<longleftrightarrow>
      ((map_of (es_pairs es))(k := None)) k' = Some v" for v
    by (auto simp: map_of_es_pairs [OF inv] map_of_es_pairs [OF inv']; metis)
  then show "map_of (es_pairs (es[i := tombstone_entry])) k' = ((map_of (es_pairs es))(k := None)) k'"
    by (metis not_None_eq)
qed

end
