(* ===== verification/Kessel_Ds_Map.thy ===== *)
theory Kessel_Ds_Map
  imports Kessel_Ds_Probe
begin

text \<open>
  The operations of the hash table against the finite map it stands for, case by case:
  lookup, removal, rebuilding and growth, insertion and replacement, initialisation and
  destruction. The last section states what a client relies on as the locale \<open>table\<close> and
  interprets it on the operations of \<^verbatim>\<open>ks_ds.c\<close>.
\<close>

section \<open>Lookup, membership, removal\<close>

lemma ds_repD:
  assumes "ds_rep t es hf"
  shows "ds_entries t = Some es" "ds_hash t = Some hf" "ds_equal t = Some (=)"
    "es_inv hf es" "length es = unat (ds_capacity t)"
    "unat (ds_size t) = length (filter occ es)"
    "unat (ds_occupied t) = length (filter nonempty es)"
    "10 * length (filter nonempty es) \<le> 7 * length es"
    "ds_pairs t = es_pairs es"
  using assms by (auto simp: ds_rep_def ds_pairs_def)

lemma ds_rep_room: "ds_rep t es hf \<Longrightarrow> length (filter nonempty es) < length es"
  using es_inv_length [of hf es] by (fastforce simp: ds_rep_def)

lemma ds_invI: "ds_rep t es hf \<Longrightarrow> ds_inv t"
  by (auto simp: ds_inv_def)

lemmas ds_find_cases =
  find_cases [OF ds_repD(1) ds_repD(3) ds_repD(5) ds_repD(4) ds_rep_room]

lemma ds_map_distinct:
  assumes "ds_inv t" shows "distinct (map fst (ds_pairs t))"
proof -
  from assms obtain es hf where t: "ds_rep t es hf" by (auto simp: ds_inv_def)
  show ?thesis
    using es_pairs_distinct [OF ds_repD(4) [OF t]] by (simp add: ds_repD(9) [OF t])
qed

lemma ds_map_found:
  assumes "ds_rep t es hf" "i < length es" "occ (es ! i)" "e_key (es ! i) = Some k"
  shows "ds_map t k = Some (e_value (es ! i))"
  using map_of_es_pairs_at [OF ds_repD(4) [OF assms(1)] assms(2-4)]
  by (simp add: ds_map_def ds_repD(9) [OF assms(1)])

lemma ds_map_missing:
  assumes "ds_rep t es hf" "\<forall>i < length es. occ (es ! i) \<longrightarrow> e_key (es ! i) \<noteq> Some k"
  shows "ds_map t k = None"
  using map_of_es_pairs_None [OF ds_repD(4) [OF assms(1)], of k] assms(2)
  by (simp add: ds_map_def ds_repD(9) [OF assms(1)])

lemma ks_ds_get_map:
  assumes "ds_inv t"
  shows "ks_ds_get t (Some k) = Some (case ds_map t k of None \<Rightarrow> None | Some v \<Rightarrow> v)"
proof -
  from assms obtain es hf where t: "ds_rep t es hf" by (auto simp: ds_inv_def)
  then show ?thesis
  proof (cases rule: ds_find_cases [OF t t t t t, of k, case_names found missing])
    case (found p)
    with ds_map_found [OF t found(2-4)] ds_repD [OF t] show ?thesis by (simp add: ks_ds_get_def)
  next
    case (missing p)
    with ds_map_missing [OF t missing(5)] ds_repD [OF t] show ?thesis by (simp add: ks_ds_get_def)
  qed
qed

lemma ks_ds_contains_map:
  assumes "ds_inv t"
  shows "ks_ds_contains t (Some k) = Some (k \<in> dom (ds_map t))"
proof -
  from assms obtain es hf where t: "ds_rep t es hf" by (auto simp: ds_inv_def)
  then show ?thesis
  proof (cases rule: ds_find_cases [OF t t t t t, of k, case_names found missing])
    case (found p)
    with ds_map_found [OF t found(2-4)] ds_repD [OF t] show ?thesis
      by (auto simp: ks_ds_contains_def)
  next
    case (missing p)
    with ds_map_missing [OF t missing(5)] ds_repD [OF t] show ?thesis
      by (simp add: ks_ds_contains_def domIff)
  qed
qed

lemma same_callbacks_refl [simp]: "same_callbacks t t"
  by (simp add: same_callbacks_def)

text \<open>A removal turns the slot that holds the key into a tombstone.\<close>

lemma remove_at:
  assumes t: "ds_rep t es hf" and i: "i < length es" "occ (es ! i)" "e_key (es ! i) = Some k"
  obtains t' where
    "ks_ds_remove t (Some k) = Some (True, t', released t [(k, e_value (es ! i))])"
    "ds_rep t' (es[i := tombstone_entry]) hf" "same_callbacks t t'" "ds_capacity t' = ds_capacity t"
proof (cases rule: ds_find_cases [OF t t t t t, of k, case_names found missing])
  case (missing p)
  with i show ?thesis by blast
next
  case (found p)
  note t' = ds_repD [OF t]
  from es_inv_inj [OF t'(4) found(2) i(1) found(3) i(2)] found(4) i(3) have p: "unat p = i" by simp
  let ?es = "es[i := tombstone_entry]"
  let ?t = "t\<lparr>ds_entries := Some ?es, ds_size := ds_size t - 1\<rparr>"
  note cnt = length_filter_update [OF i(1), where y = tombstone_entry]
  have occs: "Suc (length (filter occ ?es)) = length (filter occ es)"
    and nonE: "length (filter nonempty ?es) = length (filter nonempty es)"
    using cnt [of occ] cnt [of nonempty] i(2) by simp_all
  have "unat (ds_size t - 1) = length (filter occ ?es)"
    using t'(6) occs by (metis diff_Suc_1 nat.distinct(1) unat_0 unat_minus_one)
  then have "ds_rep ?t ?es hf"
    using t' es_inv_remove [OF t'(4) i(1)] nonE by (simp add: ds_rep_def)
  moreover have "ks_ds_remove t (Some k) = Some (True, ?t, released t [(k, e_value (es ! i))])"
    using found p t'
    by (simp add: ks_ds_remove_def released_def pair_events_def ks_ds_release_def)
  ultimately show ?thesis
    by (intro that [of ?t]) (auto simp: same_callbacks_def)
qed

lemma ks_ds_remove_map:
  assumes "ds_inv t"
  obtains t' kvs where
    "ks_ds_remove t (Some k) = Some (k \<in> dom (ds_map t), t', released t kvs)"
    "ds_inv t'" "ds_map t' = (ds_map t)(k := None)" "same_callbacks t t'"
    "ds_capacity t' = ds_capacity t"
    "mset (ds_pairs t) = mset (ds_pairs t') + mset kvs"
    "k \<notin> dom (ds_map t) \<Longrightarrow> t' = t"
proof -
  from assms obtain es hf where t: "ds_rep t es hf" by (auto simp: ds_inv_def)
  note t' = ds_repD [OF t]
  show thesis
  proof (cases rule: ds_find_cases [OF t t t t t, of k, case_names found missing])
    case (missing p)
    then have "ks_ds_remove t (Some k) = Some (False, t, [])"
      using t' by (simp add: ks_ds_remove_def)
    with assms ds_map_missing [OF t missing(5)] show ?thesis
      by (intro that [of t "[]"]) (auto simp: released_def domIff)
  next
    case (found p)
    let ?e = "es ! unat p" and ?es = "es[unat p := tombstone_entry]"
    from remove_at [OF t found(2-4)] obtain t2 where
      r: "ks_ds_remove t (Some k) = Some (True, t2, released t [(k, e_value ?e)])"
        "ds_rep t2 ?es hf" "same_callbacks t t2" "ds_capacity t2 = ds_capacity t" .
    have "ds_map t2 = (ds_map t)(k := None)"
      using es_pairs_remove [OF t'(4) found(2-4)] t'(9) ds_repD(9) [OF r(2)]
      by (simp add: ds_map_def)
    moreover have "mset (ds_pairs t) = mset (ds_pairs t2) + mset [(k, e_value ?e)]"
      using mset_map_filter_update [OF found(2), of "\<lambda>e. (the (e_key e), e_value e)" occ tombstone_entry]
        found(3,4) by (simp add: es_pairs_def t'(9) ds_repD(9) [OF r(2)])
    moreover have "k \<in> dom (ds_map t)"
      using ds_map_found [OF t found(2-4)] by auto
    ultimately show ?thesis
      using r by (intro that [of t2 "[(k, e_value ?e)]"]) (auto intro: ds_invI)
  qed
qed

lemma ds_size_card:
  assumes "ds_inv t"
  shows "unat (ks_ds_size t) = card (dom (ds_map t))"
proof -
  from assms obtain es hf where t: "ds_rep t es hf" by (auto simp: ds_inv_def)
  have "card (dom (ds_map t)) = card (set (map fst (ds_pairs t)))"
    by (simp add: ds_map_def dom_map_of_conv_image_fst)
  also have "\<dots> = length (ds_pairs t)"
    using distinct_card [OF ds_map_distinct [OF assms]] by simp
  finally show ?thesis
    using ds_repD [OF t] by (simp add: ks_ds_size_def es_pairs_def)
qed

section \<open>Rebuilding\<close>

lemma es_inv_movable: "es_inv hf es \<Longrightarrow> movable hf es"
  unfolding movable_def by (metis es_inv_occ_key in_set_conv_nth)

lemma filter_nonempty_no_tombstones:
  assumes "\<forall>e \<in> set es. nonempty e \<longrightarrow> occ e"
  shows "filter nonempty es = filter occ es"
proof (rule filter_cong [OF refl])
  fix e assume "e \<in> set es"
  with assms show "nonempty e = occ e" using nonempty_occ by blast
qed

lemma length_es_pairs: "length (es_pairs es) = length (filter occ es)"
  by (simp add: es_pairs_def)

lemma rebuild_loop_moves:
  assumes "ds_entries t = Some es" "ds_equal t = Some (=)" "length es = unat (ds_capacity t)"
    and "es_inv hf es" "movable hf old" "\<forall>e \<in> set es. nonempty e \<longrightarrow> occ e"
    and "distinct (map fst (es_pairs es @ es_pairs old))"
    and "length (es_pairs es) + length (es_pairs old) < length es"
  shows "\<exists>es'. ks_ds_rebuild_loop old t = Some (t\<lparr>ds_entries := Some es'\<rparr>) \<and>
     es_inv hf es' \<and> length es' = length es \<and> (\<forall>e \<in> set es'. nonempty e \<longrightarrow> occ e) \<and>
     mset (es_pairs es') = mset (es_pairs es) + mset (es_pairs old)"
  using assms
proof (induction old arbitrary: t es)
  case Nil
  then show ?case by (intro exI [of _ es]) (auto simp: es_pairs_def)
next
  case (Cons e old)
  show ?case
  proof (cases "occ e")
    case False
    with Cons.prems have "movable hf old" "es_pairs (e # old) = es_pairs old"
      by (auto simp: movable_def es_pairs_def)
    with False Cons.IH [OF Cons.prems(1-4)] Cons.prems show ?thesis
      by (simp add: occ_def)
  next
    case True
    with Cons.prems(5) obtain k where k: "e_key e = Some k" "e_hash e = hf k"
      by (auto simp: movable_def)
    let ?kv = "\<lambda>e. (the (e_key e), e_value e)"
    have pairs: "es_pairs (e # old) = (k, e_value e) # es_pairs old"
      using True k by (simp add: es_pairs_def)
    have room: "length (filter nonempty es) < length es"
      using Cons.prems(6,8) pairs
      by (simp add: filter_nonempty_no_tombstones length_es_pairs)
    from Cons.prems(7) pairs have new: "k \<notin> fst ` set (es_pairs es)" by auto
    show ?thesis
    proof (cases rule: find_cases [OF Cons.prems(1-4) room, of k, case_names found missing])
      case (found p)
      with map_of_es_pairs_at [OF Cons.prems(4) found(2-4)] new show ?thesis
        by (metis (no_types, opaque_lifting) map_of_eq_None_iff option.distinct(1))
    next
      case (missing p)
      let ?es = "es[unat p := e]" and ?t = "t\<lparr>ds_entries := Some (es[unat p := e])\<rparr>"
      have inv: "es_inv hf ?es"
        using missing True k by (intro es_inv_put [OF Cons.prems(4)]) auto
      have full: "\<forall>e \<in> set ?es. nonempty e \<longrightarrow> occ e"
        using Cons.prems(6) True by (auto dest!: set_update_subset_insert [THEN subsetD])
      have ms: "mset (es_pairs ?es) = add_mset (k, e_value e) (mset (es_pairs es))"
        using mset_map_filter_update [OF missing(2), of ?kv occ e] missing(3) True k
        by (simp add: es_pairs_def)
      have "mset (map fst (es_pairs ?es @ es_pairs old)) =
          mset (map fst (es_pairs es @ es_pairs (e # old)))"
        using ms by (simp add: pairs)
      then have dist: "distinct (map fst (es_pairs ?es @ es_pairs old))"
        using Cons.prems(7) by (metis mset_eq_imp_distinct_iff)
      have len: "length (es_pairs ?es) + length (es_pairs old) < length ?es"
        using Cons.prems(8) arg_cong [OF ms, of size] by (simp add: pairs)
      have "movable hf old" using Cons.prems(5) by (simp add: movable_def)
      from Cons.IH [OF _ _ _ inv this full dist len, of ?t] Cons.prems(2,3)
      obtain es' where "ks_ds_rebuild_loop old ?t = Some (?t\<lparr>ds_entries := Some es'\<rparr>)"
        "es_inv hf es'" "length es' = length ?es" "\<forall>e \<in> set es'. nonempty e \<longrightarrow> occ e"
        "mset (es_pairs es') = mset (es_pairs ?es) + mset (es_pairs old)"
        by auto
      then show ?thesis
        using missing True k Cons.prems(1) ms pairs
        by (intro exI [of _ es']) (simp add: occ_def)
    qed
  qed
qed

lemma ds_map_mset_eq:
  assumes "ds_inv t" "ds_inv t'" "mset (ds_pairs t') = mset (ds_pairs t)"
  shows "ds_map t' = ds_map t"
  unfolding ds_map_def
  using map_of_inject_set [OF ds_map_distinct [OF assms(2)] ds_map_distinct [OF assms(1)]]
    mset_eq_setD [OF assms(3)] by simp

lemma c_calloc_pow2:
  assumes "c_calloc al Site_ds_entries c sizeof_ks_ds_entry" "unat c = 2 ^ m"
  shows "m < 60"
proof (rule ccontr)
  assume "\<not> m < 60"
  then have "(2::nat) ^ 60 \<le> 2 ^ m" by (intro power_increasing) auto
  with assms show False by (simp add: c_calloc_def sizeof_ks_ds_entry_def)
qed

lemma es_inv_fresh:
  assumes "3 \<le> m" "m < 60"
  shows "es_inv hf (replicate (2 ^ m) zero_entry)"
  using assms by (auto simp: es_inv_def)

lemma es_pairs_fresh [simp]: "es_pairs (replicate m zero_entry) = []"
  by (simp add: es_pairs_def)

lemma ks_ds_rebuild_spec:
  assumes "ds_inv t" "unat c = 2 ^ m" "3 \<le> m" "10 * (unat (ds_size t) + 1) \<le> 7 * unat c"
    and al: "c_calloc al Site_ds_entries c sizeof_ks_ds_entry"
  obtains t' where "ks_ds_rebuild al t c = Some (True, t')" "ds_inv t'"
    "mset (ds_pairs t') = mset (ds_pairs t)" "same_callbacks t t'"
    "ds_capacity t' = c" "ds_occupied t' = ds_size t" "ds_size t' = ds_size t"
proof -
  from assms(1) obtain es hf where t: "ds_rep t es hf" by (auto simp: ds_inv_def)
  note t' = ds_repD [OF t]
  define fresh :: "('a, 'b) ks_ds_entry list" where "fresh = replicate (unat c) zero_entry"
  let ?t = "t\<lparr>ds_entries := Some fresh, ds_capacity := c, ds_occupied := ds_size t\<rparr>"
  have fresh: "es_inv hf fresh" "length fresh = unat c" "es_pairs fresh = []"
      "\<forall>e \<in> set fresh. nonempty e \<longrightarrow> occ e"
    using es_inv_fresh [OF assms(3) c_calloc_pow2 [OF al assms(2)], of hf] assms(2)
    by (simp_all add: fresh_def)
  have "\<exists>es'. ks_ds_rebuild_loop es ?t = Some (?t\<lparr>ds_entries := Some es'\<rparr>) \<and>
     es_inv hf es' \<and> length es' = length fresh \<and> (\<forall>e \<in> set es'. nonempty e \<longrightarrow> occ e) \<and>
     mset (es_pairs es') = mset (es_pairs fresh) + mset (es_pairs es)"
    using t' assms(4) fresh es_inv_movable [OF t'(4)] es_pairs_distinct [OF t'(4)]
    by (intro rebuild_loop_moves) (simp_all add: length_es_pairs)
  then obtain es' where es': "ks_ds_rebuild_loop es ?t = Some (?t\<lparr>ds_entries := Some es'\<rparr>)"
    "es_inv hf es'" "length es' = unat c" "\<forall>e \<in> set es'. nonempty e \<longrightarrow> occ e"
    "mset (es_pairs es') = mset (es_pairs es)"
    using fresh by auto
  from arg_cong [OF es'(5), of size] have n: "length (filter occ es') = length (filter occ es)"
    by (simp add: length_es_pairs)
  have "ds_rep (?t\<lparr>ds_entries := Some es'\<rparr>) es' hf"
    using t' es' n assms(4) by (simp add: ds_rep_def filter_nonempty_no_tombstones)
  moreover have "ks_ds_rebuild al t c = Some (True, ?t\<lparr>ds_entries := Some es'\<rparr>)"
    using al t' es'(1) by (simp add: ks_ds_rebuild_def fresh_def)
  ultimately show thesis
    using es'(5) t'(9) by (intro that [of "?t\<lparr>ds_entries := Some es'\<rparr>"])
      (auto simp: same_callbacks_def ds_pairs_def intro: ds_invI)
qed

section \<open>Growth\<close>

text \<open>The load-factor arithmetic does not wrap around: a table has less than \<open>2 ^ 60\<close> slots.\<close>

lemma load_arith:
  fixes x c :: u64
  assumes "unat x < 2 ^ 60"
  shows "unat ((x + 1) * 10) = (unat x + 1) * 10" "unat (x * 7) = unat x * 7"
    "unat (x * 2) = unat x * 2"
  using assms by (simp_all add: unat_word_ariths)

lemma ds_inv_bounds:
  assumes "ds_inv t"
  shows "unat (ds_capacity t) < 2 ^ 60" "8 \<le> unat (ds_capacity t)"
    "10 * unat (ds_occupied t) \<le> 7 * unat (ds_capacity t)"
    "unat (ds_size t) \<le> unat (ds_occupied t)" "\<exists>n. 3 \<le> n \<and> unat (ds_capacity t) = 2 ^ n"
proof -
  from assms obtain es hf where t: "ds_rep t es hf" by (auto simp: ds_inv_def)
  note t' = ds_repD [OF t]
  from es_inv_length [OF t'(4)] show "unat (ds_capacity t) < 2 ^ 60" "8 \<le> unat (ds_capacity t)"
    "\<exists>n. 3 \<le> n \<and> unat (ds_capacity t) = 2 ^ n"
    using t'(5) by metis+
  show "10 * unat (ds_occupied t) \<le> 7 * unat (ds_capacity t)"
    using t'(5,7,8) by simp
  show "unat (ds_size t) \<le> unat (ds_occupied t)"
    using t'(6,7) by (auto intro: length_filter_imp)
qed

lemma prepare_insert_cases:
  assumes inv: "ds_inv t"
  obtains (ready) t' where "ks_ds_prepare_insert al t = Some (True, t')" "ds_inv t'"
      "mset (ds_pairs t') = mset (ds_pairs t)" "same_callbacks t t'" "ds_size t' = ds_size t"
      "10 * (unat (ds_occupied t') + 1) \<le> 7 * unat (ds_capacity t')"
      "ds_capacity t' \<in> {ds_capacity t, ds_capacity t * 2}"
  | (no_memory) c where "ks_ds_prepare_insert al t = Some (False, t)"
      "c \<in> {ds_capacity t, ds_capacity t * 2}"
      "\<not> c_calloc al Site_ds_entries c sizeof_ks_ds_entry"
proof -
  let ?C = "ds_capacity t"
  note b = ds_inv_bounds [OF inv]
  from b(5) obtain n where n: "3 \<le> n" "unat ?C = 2 ^ n" by blast
  have small: "unat (ds_occupied t) < 2 ^ 60" "unat (ds_size t) < 2 ^ 60"
    using b(1,3,4) by simp_all
  note arith = load_arith(1) [OF small(1)] load_arith(1) [OF small(2)] load_arith(2) [OF b(1)]
    load_arith(3) [OF b(1)]
  have grow: "\<not> ?C > SIZE_MAX div 2"
    using b(1) by (simp add: word_less_nat_alt unat_div)
  define c where "c = (if (ds_size t + 1) * 10 > ?C * 7 then ?C * 2 else ?C)"
  have pow: "\<exists>m. unat c = 2 ^ m \<and> 3 \<le> m"
  proof (cases "(ds_size t + 1) * 10 > ?C * 7")
    case True
    then show ?thesis using n arith by (intro exI [of _ "Suc n"]) (simp add: c_def)
  next
    case False
    then show ?thesis using n by (intro exI [of _ n]) (simp add: c_def)
  qed
  have fits: "10 * (unat (ds_size t) + 1) \<le> 7 * unat c"
    using b(2,3,4) arith by (auto simp: c_def word_less_nat_alt not_less)
  show thesis
  proof (cases "(ds_occupied t + 1) * 10 \<le> ?C * 7")
    case True
    then show ?thesis
      using inv arith by (intro ready [of t]) (simp_all add: ks_ds_prepare_insert_def word_le_nat_alt)
  next
    case False
    then have step: "ks_ds_prepare_insert al t = ks_ds_rebuild al t c"
      using grow by (simp add: ks_ds_prepare_insert_def c_def)
    have c: "c \<in> {?C, ?C * 2}" by (simp add: c_def)
    show ?thesis
    proof (cases "c_calloc al Site_ds_entries c sizeof_ks_ds_entry")
      case True
      from pow obtain m where "unat c = 2 ^ m" "3 \<le> m" by blast
      from ks_ds_rebuild_spec [OF inv this fits True] show ?thesis
        using ready step c fits by metis
    next
      case False
      then show ?thesis
        using no_memory [OF _ c False] step by (simp add: ks_ds_rebuild_def)
    qed
  qed
qed

section \<open>Insertion and replacement\<close>

lemma put_slot:
  assumes t: "ds_rep t es hf" and i: "i < length es"
    and reach: "es_reach es (unat (hf k) mod length es) i"
    and only: "\<forall>j < length es. occ (es ! j) \<longrightarrow> e_key (es ! j) = Some k \<longrightarrow> j = i"
    and e: "occ e" "e_key e = Some k" "e_hash e = hf k"
    and old: "occ (es ! i) \<Longrightarrow> e_key (es ! i) = Some k"
  shows "es_inv hf (es[i := e])"
    "map_of (es_pairs (es[i := e])) = (ds_map t)(k \<mapsto> e_value e)"
    "mset (es_pairs (es[i := e])) + (if occ (es ! i) then {#(k, e_value (es ! i))#} else {#}) =
       add_mset (k, e_value e) (mset (ds_pairs t))"
proof -
  note t' = ds_repD [OF t]
  show inv: "es_inv hf (es[i := e])"
    by (rule es_inv_put [OF t'(4) i reach only e])
  show "map_of (es_pairs (es[i := e])) = (ds_map t)(k \<mapsto> e_value e)"
    using es_pairs_put [OF t'(4) inv i e(1,2) old] t'(9) by (simp add: ds_map_def)
  show "mset (es_pairs (es[i := e])) + (if occ (es ! i) then {#(k, e_value (es ! i))#} else {#}) =
       add_mset (k, e_value e) (mset (ds_pairs t))"
    using mset_map_filter_update [OF i, of "\<lambda>e. (the (e_key e), e_value e)" occ e] e old t'(9)
    by (simp add: es_pairs_def split: if_splits)
qed

lemma put_replace:
  assumes t: "ds_rep t es hf" and found: "ks_ds_find t k (hf k) = Some (p, True)"
      "unat p < length es" "occ (es ! unat p)" "e_key (es ! unat p) = Some k"
      "e_hash (es ! unat p) = hf k"
  obtains t' where "ks_ds_put al t (Some k) v = Some (KS_DS_PUT_REPLACED, t',
      released t [(k, e_value (es ! unat p))])"
    "ds_inv t'" "ds_map t' = (ds_map t)(k \<mapsto> v)" "same_callbacks t t'"
    "mset (ds_pairs t') + mset [(k, e_value (es ! unat p))] = add_mset (k, v) (mset (ds_pairs t))"
    "ds_capacity t' = ds_capacity t"
proof -
  note t' = ds_repD [OF t]
  let ?e = "(es ! unat p)\<lparr>e_key := Some k, e_value := v, e_hash := hf k\<rparr>"
  let ?es = "es[unat p := ?e]" and ?t = "t\<lparr>ds_entries := Some (es[unat p := ?e])\<rparr>"
  have e: "occ ?e" using found(3) by (simp add: occ_def)
  have only: "\<forall>j < length es. occ (es ! j) \<longrightarrow> e_key (es ! j) = Some k \<longrightarrow> j = unat p"
    using es_inv_inj [OF t'(4) _ found(2) _ found(3)] found(4) by auto
  have reach: "es_reach es (unat (hf k) mod length es) (unat p)"
    by (rule es_inv_key(2) [OF t'(4) found(2-4)])
  note ps = put_slot [OF t found(2) reach only e]
  have "length (filter occ ?es) = length (filter occ es)"
    "length (filter nonempty ?es) = length (filter nonempty es)"
    using length_filter_update [OF found(2), of occ ?e] found(3) e
      length_filter_update [OF found(2), of nonempty ?e] by simp_all
  then have "ds_rep ?t ?es hf"
    using t' ps(1) found(4) by (simp add: ds_rep_def)
  moreover have "ks_ds_put al t (Some k) v =
      Some (KS_DS_PUT_REPLACED, ?t, released t [(k, e_value (es ! unat p))])"
    using found t'
    by (simp add: ks_ds_put_def Let_def released_def pair_events_def ks_ds_release_def)
  ultimately show thesis
    using ps(2,3) found(3,4) by (intro that [of ?t])
      (auto simp: ds_map_def ds_pairs_def same_callbacks_def intro: ds_invI)
qed

lemma put_insert:
  assumes t: "ds_rep t es hf" "ds_map t k = None"
    and find: "ks_ds_find t k (hf k) = Some (q, False)"
    and prep: "ks_ds_prepare_insert al t = Some (True, u)" "ds_inv u"
      "mset (ds_pairs u) = mset (ds_pairs t)" "same_callbacks t u" "ds_size u = ds_size t"
      "10 * (unat (ds_occupied u) + 1) \<le> 7 * unat (ds_capacity u)"
  obtains t' where "ks_ds_put al t (Some k) v = Some (KS_DS_PUT_INSERTED, t', [])"
    "ds_inv t'" "ds_map t' = (ds_map t)(k \<mapsto> v)" "same_callbacks t t'"
    "mset (ds_pairs t') = add_mset (k, v) (mset (ds_pairs t))"
    "ds_capacity t' = ds_capacity u"
proof -
  have same_map: "ds_map u = ds_map t"
    by (rule ds_map_mset_eq [OF ds_invI [OF t(1)] prep(2,3)])
  from prep(2,4) ds_repD [OF t(1)] obtain es' where u: "ds_rep u es' hf"
    by (auto simp: ds_inv_def ds_rep_def same_callbacks_def)
  note u' = ds_repD [OF u]
  show thesis
  proof (cases rule: ds_find_cases [OF u u u u u, of k, case_names found missing])
    case (found p)
    with ds_map_found [OF u found(2-4)] same_map t(2) show ?thesis by simp
  next
    case (missing p)
    let ?e = "\<lparr>e_hash = hf k, e_key = Some k, e_value = v, e_state = KS_DS_OCCUPIED\<rparr>"
    let ?es = "es'[unat p := ?e]"
    let ?occ = "if e_state (es' ! unat p) = KS_DS_EMPTY then ds_occupied u + 1 else ds_occupied u"
    let ?t = "u\<lparr>ds_entries := Some ?es, ds_occupied := ?occ, ds_size := ds_size u + 1\<rparr>"
    have e: "occ ?e" by (simp add: occ_def)
    have ps: "es_inv hf ?es" "map_of (es_pairs ?es) = (ds_map u)(k \<mapsto> v)"
      "mset (es_pairs ?es) = add_mset (k, v) (mset (ds_pairs u))"
      using put_slot [OF u missing(2,4) _ e] missing(3,5) by simp_all
    note bd = ds_inv_bounds [OF prep(2)]
    have sz: "unat (ds_size u + 1) = unat (ds_size u) + 1"
      "unat (ds_occupied u + 1) = unat (ds_occupied u) + 1"
      using bd(1,3,4) by (simp_all add: unat_word_ariths)
    have "length (filter occ ?es) = length (filter occ es') + 1"
      "length (filter nonempty ?es) = length (filter nonempty es') +
         (if e_state (es' ! unat p) = KS_DS_EMPTY then 1 else 0)"
      using length_filter_update [OF missing(2), of occ ?e] missing(3) e
        length_filter_update [OF missing(2), of nonempty ?e]
      by (simp_all add: nonempty_def split: if_splits)
    then have "ds_rep ?t ?es hf"
      using u' ps(1) sz prep(6) by (auto simp: ds_rep_def)
    moreover have "ks_ds_put al t (Some k) v = Some (KS_DS_PUT_INSERTED, ?t, [])"
      using find ds_repD [OF t(1)] prep(1) missing(1) u'(1)
      by (simp add: ks_ds_put_def Let_def)
    ultimately show ?thesis
      using ps(2,3) same_map prep(3,4) by (intro that [of ?t])
        (auto simp: ds_map_def ds_pairs_def same_callbacks_def intro: ds_invI)
  qed
qed

lemma ks_ds_put_cases:
  assumes inv: "ds_inv t"
  obtains (replaced) t' old where
      "ks_ds_put al t (Some k) v = Some (KS_DS_PUT_REPLACED, t', released t [(k, old)])"
      "ds_map t k = Some old" "ds_inv t'" "ds_map t' = (ds_map t)(k \<mapsto> v)" "same_callbacks t t'"
      "mset (ds_pairs t') + mset [(k, old)] = add_mset (k, v) (mset (ds_pairs t))"
      "ds_capacity t' = ds_capacity t"
  | (inserted) t' where
      "ks_ds_put al t (Some k) v = Some (KS_DS_PUT_INSERTED, t', [])"
      "ds_map t k = None" "ds_inv t'" "ds_map t' = (ds_map t)(k \<mapsto> v)" "same_callbacks t t'"
      "mset (ds_pairs t') = add_mset (k, v) (mset (ds_pairs t))"
      "ds_capacity t' \<in> {ds_capacity t, ds_capacity t * 2}"
  | (no_memory) c where "ks_ds_put al t (Some k) v = Some (KS_DS_PUT_ERROR, t, [])"
      "ds_map t k = None" "c \<in> {ds_capacity t, ds_capacity t * 2}"
      "\<not> c_calloc al Site_ds_entries c sizeof_ks_ds_entry"
proof -
  from inv obtain es hf where t: "ds_rep t es hf" by (auto simp: ds_inv_def)
  show thesis
  proof (cases rule: ds_find_cases [OF t t t t t, of k, case_names found missing])
    case (found p)
    from put_replace [OF t found, of al v] ds_map_found [OF t found(2-4)] show ?thesis
      using replaced by metis
  next
    case (missing p)
    note none = ds_map_missing [OF t missing(5)]
    show ?thesis
    proof (cases rule: prepare_insert_cases [OF inv, of al, case_names ready no_memory])
      case (ready u)
      from put_insert [OF t none missing(1) ready(1-6), of v] show ?thesis
        using inserted none ready(7) by metis
    next
      case (no_memory c)
      then have "ks_ds_put al t (Some k) v = Some (KS_DS_PUT_ERROR, t, [])"
        using missing(1) ds_repD [OF t] by (simp add: ks_ds_put_def Let_def)
      with no_memory none that(3) show ?thesis by blast
    qed
  qed
qed

text \<open>A write through the value pointer that a lookup returned.\<close>

lemma write_value:
  assumes t: "ds_rep t es hf" and found: "unat p < length es" "occ (es ! unat p)"
      "e_key (es ! unat p) = Some k" "e_hash (es ! unat p) = hf k"
    and t': "t' = t\<lparr>ds_entries := Some (es[unat p := (es ! unat p)\<lparr>e_value := w\<rparr>])\<rparr>"
  shows "ds_inv t'" "ds_map t' = (ds_map t)(k \<mapsto> w)" "same_callbacks t t'"
proof -
  note r = ds_repD [OF t]
  let ?e = "(es ! unat p)\<lparr>e_value := w\<rparr>"
  have e: "occ ?e" using found(2) by (simp add: occ_def)
  have only: "\<forall>j < length es. occ (es ! j) \<longrightarrow> e_key (es ! j) = Some k \<longrightarrow> j = unat p"
    using es_inv_inj [OF r(4) _ found(1) _ found(2)] found(3) by auto
  have reach: "es_reach es (unat (hf k) mod length es) (unat p)"
    by (rule es_inv_key(2) [OF r(4) found(1-3)])
  note ps = put_slot [OF t found(1) reach only e]
  have "length (filter occ (es[unat p := ?e])) = length (filter occ es)"
    "length (filter nonempty (es[unat p := ?e])) = length (filter nonempty es)"
    using length_filter_update [OF found(1), of occ ?e] found(2) e
      length_filter_update [OF found(1), of nonempty ?e] by simp_all
  then have "ds_rep t' (es[unat p := ?e]) hf"
    using r ps(1) found(3,4) by (simp add: ds_rep_def t')
  then show "ds_inv t'" by (rule ds_invI)
  show "ds_map t' = (ds_map t)(k \<mapsto> w)" "same_callbacks t t'"
    using ps(2) found(3,4) by (simp_all add: t' ds_map_def ds_pairs_def same_callbacks_def)
qed

section \<open>Initialisation and destruction\<close>

lemma ks_ds_init_inv:
  assumes "ks_ds_init al (Some hf) (Some (=)) dk dv = Some t"
  shows "ds_inv t" "ds_map t = Map.empty" "ds_pairs t = []" "ds_hash t = Some hf"
    "ds_destroy_key t = dk" "ds_destroy_value t = dv"
proof -
  have t: "t = \<lparr>ds_entries = Some (replicate 8 zero_entry), ds_capacity = 8, ds_size = 0,
      ds_occupied = 0, ds_hash = Some hf, ds_equal = Some (=), ds_destroy_key = dk,
      ds_destroy_value = dv\<rparr>"
    using assms by (simp add: ks_ds_init_def KS_DS_INITIAL_CAPACITY_def split: if_splits)
  have "ds_rep t (replicate 8 zero_entry) hf"
    using es_inv_fresh [of 3 hf] by (simp add: t ds_rep_def)
  then show "ds_inv t" by (rule ds_invI)
  show "ds_map t = Map.empty" "ds_pairs t = []" "ds_hash t = Some hf"
    "ds_destroy_key t = dk" "ds_destroy_value t = dv"
    by (simp_all add: t ds_map_def ds_pairs_def)
qed

lemma destroy_loop_released:
  assumes "movable hf es"
  shows "ks_ds_destroy_loop t es = released t (es_pairs es)"
  using assms
  by (induction es)
    (auto simp: movable_def es_pairs_def released_def pair_events_def ks_ds_release_def occ_def)

lemma ks_ds_destroy_released:
  assumes "ds_inv t"
  shows "ks_ds_destroy t = (zero_ds, released t (ds_pairs t))"
proof -
  from assms obtain es hf where t: "ds_rep t es hf" by (auto simp: ds_inv_def)
  note t' = ds_repD [OF t]
  show ?thesis
    using destroy_loop_released [OF es_inv_movable [OF t'(4)], of t] t'
    by (simp add: ks_ds_destroy_def)
qed

lemma after_destroy:
  shows "ks_ds_get zero_ds k = Some None" "ks_ds_contains zero_ds k = Some False"
    "ks_ds_remove zero_ds k = Some (False, zero_ds, [])"
    "ks_ds_put al zero_ds k v = Some (KS_DS_PUT_ERROR, zero_ds, [])"
  by (simp_all add: ks_ds_get_def ks_ds_contains_def ks_ds_remove_def ks_ds_put_def zero_ds_def)

section \<open>The table as an interface\<close>

text \<open>
  What the clients of a table rely on: a lookup returns the binding, a store either binds
  the key or reports an error and changes nothing, a removal unbinds the key and says
  whether it was bound; each of them returns and keeps the invariant. The allocator of the
  store is an argument, so the laws hold for any pattern of allocation failures.
\<close>

locale table =
  fixes invar :: "'t \<Rightarrow> bool"
    and amap :: "'t \<Rightarrow> 'k \<rightharpoonup> 'v"
    and get :: "'t \<Rightarrow> 'k \<Rightarrow> 'v option option"
    and put :: "'a \<Rightarrow> 't \<Rightarrow> 'k \<Rightarrow> 'v \<Rightarrow> (bool \<times> 't) option"
    and del :: "'t \<Rightarrow> 'k \<Rightarrow> (bool \<times> 't) option"
  assumes get_law: "invar t \<Longrightarrow> get t k = Some (amap t k)"
    and put_law: "invar t \<Longrightarrow> \<exists>ok t'. put al t k v = Some (ok, t') \<and> invar t' \<and>
          amap t' = (if ok then (amap t)(k \<mapsto> v) else amap t)"
    and del_law: "invar t \<Longrightarrow> \<exists>t'. del t k = Some (k \<in> dom (amap t), t') \<and> invar t' \<and>
          amap t' = (amap t)(k := None)"
begin

lemma get_after_put:
  assumes "invar t" "put al t k v = Some (True, t')"
  shows "get t' k' = Some (if k' = k then Some v else amap t k')"
proof -
  from put_law [OF assms(1), of al k v] assms(2) have "invar t'" "amap t' = (amap t)(k \<mapsto> v)"
    by auto
  then show ?thesis by (simp add: get_law)
qed

lemma get_after_failed_put:
  assumes "invar t" "put al t k v = Some (False, t')"
  shows "get t' k' = get t k'"
proof -
  from put_law [OF assms(1), of al k v] assms(2) have "invar t'" "amap t' = amap t" by auto
  then show ?thesis using assms(1) by (simp add: get_law)
qed

lemma get_after_del:
  assumes "invar t" "del t k = Some (b, t')"
  shows "get t' k' = Some (if k' = k then None else amap t k')" "b \<longleftrightarrow> get t k \<noteq> Some None"
proof -
  from del_law [OF assms(1), of k] assms(2)
  have "invar t'" "amap t' = (amap t)(k := None)" "b \<longleftrightarrow> k \<in> dom (amap t)" by auto
  then show "get t' k' = Some (if k' = k then None else amap t k')" "b \<longleftrightarrow> get t k \<noteq> Some None"
    using assms(1) by (auto simp: get_law)
qed

text \<open>A whole history of stores (with the allocator of each) and removals.\<close>

fun run :: "('a \<times> 'k \<times> 'v option) list \<Rightarrow> 't \<Rightarrow> (bool list \<times> 't) option" where
  "run [] t = Some ([], t)"
| "run ((al, k, Some v) # ops) t = do {
     (b, t') \<leftarrow> put al t k v; (bs, t'') \<leftarrow> run ops t'; Some (b # bs, t'') }"
| "run ((al, k, None) # ops) t = do {
     (b, t') \<leftarrow> del t k; (bs, t'') \<leftarrow> run ops t'; Some (b # bs, t'') }"

fun spec :: "('a \<times> 'k \<times> 'v option) list \<Rightarrow> bool list \<Rightarrow> ('k \<rightharpoonup> 'v) \<Rightarrow> ('k \<rightharpoonup> 'v)" where
  "spec ((al, k, vo) # ops) (b # bs) m = spec ops bs (if b then m(k := vo) else m)"
| "spec ops bs m = m"

lemma run_spec:
  assumes "invar t"
  shows "\<exists>bs t'. run ops t = Some (bs, t') \<and> length bs = length ops \<and> invar t' \<and>
    amap t' = spec ops bs (amap t)"
  using assms
proof (induction ops t rule: run.induct)
  case (1 t)
  then show ?case by simp
next
  case (2 al k v ops t)
  from put_law [OF "2.prems", of al k v] obtain b t' where
    b: "put al t k v = Some (b, t')" "invar t'" "amap t' = (if b then (amap t)(k \<mapsto> v) else amap t)"
    by auto
  from "2.IH" [of "(b, t')" b t'] b obtain bs t'' where "run ops t' = Some (bs, t'')"
    "length bs = length ops" "invar t''" "amap t'' = spec ops bs (amap t')" by auto
  with b show ?case by auto
next
  case (3 al k ops t)
  from del_law [OF "3.prems", of k] obtain t' where
    b: "del t k = Some (k \<in> dom (amap t), t')" "invar t'" "amap t' = (amap t)(k := None)"
    by auto
  have m: "amap t' = (if k \<in> dom (amap t) then (amap t)(k := None) else amap t)"
    unfolding b(3) by (rule ext) (simp add: domIff)
  from "3.IH" [OF b(1) refl b(2)] obtain bs t'' where r: "run ops t' = Some (bs, t'')"
    "length bs = length ops" "invar t''" "amap t'' = spec ops bs (amap t')" by auto
  from b(1) r(1) have "run ((al, k, None) # ops) t = Some ((k \<in> dom (amap t)) # bs, t'')"
    by simp
  with r m show ?case
    by (intro exI [of _ "(k \<in> dom (amap t)) # bs"] exI [of _ t'']) simp
qed

end

lemma tab_map_upd [simp]:
  "ds_map t' = (ds_map t)(k \<mapsto> Some v) \<Longrightarrow> tab_map t' = (tab_map t)(k \<mapsto> v)"
  "ds_map t' = (ds_map t)(k := None) \<Longrightarrow> tab_map t' = (tab_map t)(k := None)"
  by (auto simp: tab_map_def fun_eq_iff)

lemma dom_tab_map: "tab_inv t \<Longrightarrow> dom (tab_map t) = dom (ds_map t)"
  unfolding tab_inv_def tab_map_def dom_def ran_def
  by (auto split: option.splits) (metis not_None_eq)

lemma tab_remove:
  assumes t: "tab_inv t"
  obtains t' ev where "ks_ds_remove t (Some k) = Some (k \<in> dom (tab_map t), t', ev)"
    "tab_inv t'" "tab_map t' = (tab_map t)(k := None)" "same_callbacks t t'"
    "ds_capacity t' = ds_capacity t"
proof -
  from t have inv: "ds_inv t" by (simp add: tab_inv_def)
  from inv show thesis
  proof (rule ks_ds_remove_map [of t k])
    fix t' kvs
    assume "ks_ds_remove t (Some k) = Some (k \<in> dom (ds_map t), t', released t kvs)"
      "ds_inv t'" "ds_map t' = (ds_map t)(k := None)" "same_callbacks t t'"
      "ds_capacity t' = ds_capacity t"
    with t show thesis
      by (intro that [of t' "released t kvs"])
        (auto simp: dom_tab_map tab_inv_def ran_def split: if_splits)
  qed
qed

lemma tab_put_cases:
  assumes t: "tab_inv t"
  obtains (replaced) t' ev where "ks_ds_put al t (Some k) (Some v) = Some (KS_DS_PUT_REPLACED, t', ev)"
      "k \<in> dom (tab_map t)" "tab_inv t'" "tab_map t' = (tab_map t)(k \<mapsto> v)" "same_callbacks t t'"
  | (inserted) t' where "ks_ds_put al t (Some k) (Some v) = Some (KS_DS_PUT_INSERTED, t', [])"
      "k \<notin> dom (tab_map t)" "tab_inv t'" "tab_map t' = (tab_map t)(k \<mapsto> v)" "same_callbacks t t'"
  | (no_memory) c where "ks_ds_put al t (Some k) (Some v) = Some (KS_DS_PUT_ERROR, t, [])"
      "c \<in> {ds_capacity t, ds_capacity t * 2}"
      "\<not> c_calloc al Site_ds_entries c sizeof_ks_ds_entry"
proof -
  from t have inv: "ds_inv t" by (simp add: tab_inv_def)
  show thesis
  proof (cases rule: ks_ds_put_cases [OF inv, of al k "Some v", case_names replaced inserted no_memory])
    case (replaced t' old)
    with t show ?thesis by (intro that(1)) (auto simp: tab_inv_def dom_tab_map [OF t] ran_def)
  next
    case (inserted t')
    with t show ?thesis by (intro that(2)) (auto simp: tab_inv_def dom_tab_map [OF t] ran_def)
  next
    case (no_memory c)
    with that(3) show ?thesis by blast
  qed
qed

interpretation ht: table tab_inv tab_map tab_get tab_put tab_del
proof unfold_locales
  fix t :: "('k, 'v) ks_ds" and k
  assume t: "tab_inv t"
  then show "tab_get t k = Some (tab_map t k)"
    by (simp add: tab_inv_def tab_get_def ks_ds_get_map tab_map_def)
  from t show "\<exists>t'. tab_del t k = Some (k \<in> dom (tab_map t), t') \<and> tab_inv t' \<and>
      tab_map t' = (tab_map t)(k := None)"
    by (rule tab_remove [of t k]) (auto simp: tab_del_def)
next
  fix t :: "('k, 'v) ks_ds" and al k v
  assume t: "tab_inv t"
  show "\<exists>ok t'. tab_put al t k v = Some (ok, t') \<and> tab_inv t' \<and>
      tab_map t' = (if ok then (tab_map t)(k \<mapsto> v) else tab_map t)"
    by (cases rule: tab_put_cases [OF t, of al k v]) (use t in \<open>auto simp: tab_put_def\<close>)
qed

section \<open>Properties\<close>

text \<open>A table with one binding, made by the operations: the input of the examples.\<close>

definition ex_hash :: "string \<Rightarrow> u64" where
  "ex_hash k = of_nat (length k)"

definition ex_table :: "(string, nat) ks_ds" where
  "ex_table = (case do { t \<leftarrow> ks_ds_init mem_ok (Some ex_hash) (Some (=)) True True;
                         ks_ds_put mem_ok t (Some ''a'') (Some 1) }
               of Some (r, t', ev) \<Rightarrow> t' | None \<Rightarrow> zero_ds)"

lemma mem_ok_calloc: "unat c < 2 ^ 32 \<Longrightarrow> s \<le> 2 ^ 31 \<Longrightarrow> c_calloc mem_ok site c s"
proof -
  assume "unat c < 2 ^ 32" "s \<le> 2 ^ 31"
  then have "unat c * s \<le> 2 ^ 32 * 2 ^ 31" by (intro mult_mono) auto
  then show ?thesis by (simp add: c_calloc_def mem_ok_def)
qed

lemma ex_table: "ds_inv ex_table" "ds_map ex_table = [''a'' \<mapsto> Some 1]" "ds_hash ex_table = Some ex_hash"
proof -
  obtain t :: "(string, nat) ks_ds" where
    t: "ks_ds_init mem_ok (Some ex_hash) (Some (=)) True True = Some t" "ds_capacity t = 8"
    using mem_ok_calloc [of 8 sizeof_ks_ds_entry Site_ds_entries]
    by (simp add: ks_ds_init_def sizeof_ks_ds_entry_def KS_DS_INITIAL_CAPACITY_def)
  note i = ks_ds_init_inv [OF t(1)]
  have "ds_inv ex_table \<and> ds_map ex_table = [''a'' \<mapsto> Some 1] \<and> ds_hash ex_table = Some ex_hash"
  proof (cases rule: ks_ds_put_cases [OF i(1), of mem_ok "''a''" "Some 1",
      case_names replaced inserted no_memory])
    case (replaced t' old)
    with i(2) show ?thesis by simp
  next
    case (inserted t')
    then show ?thesis using t(1) i by (simp add: ex_table_def same_callbacks_def)
  next
    case (no_memory c)
    with t(2) have "unat c < 2 ^ 32" by auto
    with no_memory(4) mem_ok_calloc [of c] show ?thesis by (simp add: sizeof_ks_ds_entry_def)
  qed
  then show "ds_inv ex_table" "ds_map ex_table = [''a'' \<mapsto> Some 1]" "ds_hash ex_table = Some ex_hash"
    by simp_all
qed

text \<open>
  C6. Storing a binding, for every pattern of allocation failures: the call returns; it
  replaces the value of a bound key, or inserts an unbound one, or, when the array of the
  resize cannot be allocated, fails and changes nothing. The invariant is kept, the finite map
  is updated at that key only, exactly the replaced key and value are released, and the bag of
  stored pairs is exact, so a resize loses and duplicates nothing.
\<close>

theorem ds_put_correct:
  assumes "ds_inv t"
  shows "(\<exists>t' old. ks_ds_put al t (Some k) v =
           Some (KS_DS_PUT_REPLACED, t', released t [(k, old)]) \<and> ds_map t k = Some old \<and>
           ds_inv t' \<and> ds_map t' = (ds_map t)(k \<mapsto> v) \<and>
           mset (ds_pairs t') + {#(k, old)#} = add_mset (k, v) (mset (ds_pairs t))) \<or>
         (\<exists>t'. ks_ds_put al t (Some k) v = Some (KS_DS_PUT_INSERTED, t', []) \<and> ds_map t k = None \<and>
           ds_inv t' \<and> ds_map t' = (ds_map t)(k \<mapsto> v) \<and>
           mset (ds_pairs t') = add_mset (k, v) (mset (ds_pairs t))) \<or>
         (\<exists>c. ks_ds_put al t (Some k) v = Some (KS_DS_PUT_ERROR, t, []) \<and> ds_map t k = None \<and>
           c \<in> {ds_capacity t, ds_capacity t * 2} \<and>
           \<not> c_calloc al Site_ds_entries c sizeof_ks_ds_entry)"
  by (cases rule: ks_ds_put_cases [OF assms, of al k v]) auto

theorem ds_put_correct_witness:
  "\<exists>t'. ks_ds_put mem_fail ex_table (Some ''a'') (Some 2) =
      Some (KS_DS_PUT_REPLACED, t', released ex_table [(''a'', Some 1)]) \<and>
    ds_map t' = [''a'' \<mapsto> Some 2]"
  using ds_put_correct [OF ex_table(1), of mem_fail "''a''" "Some 2"] by (auto simp: ex_table(2))

text \<open>
  C7. The probe loop of the table, which has no bound of its own, stops for every key and
  within the array, and reports the key found exactly when it is bound.
\<close>

theorem ds_find_returns:
  assumes "ds_inv t" "ds_hash t = Some hf"
  shows "\<exists>p found. ks_ds_find t k (hf k) = Some (p, found) \<and>
    unat p < unat (ds_capacity t) \<and> (found \<longleftrightarrow> k \<in> dom (ds_map t))"
proof -
  from assms obtain es where t: "ds_rep t es hf" by (auto simp: ds_inv_def ds_rep_def)
  show ?thesis
  proof (cases rule: ds_find_cases [OF t t t t t, of k, case_names found missing])
    case (found p)
    with ds_map_found [OF t found(2-4)] ds_repD(5) [OF t] show ?thesis by auto
  next
    case (missing p)
    with ds_map_missing [OF t missing(5)] ds_repD(5) [OF t] show ?thesis by auto
  qed
qed

theorem ds_find_returns_witness:
  "\<exists>p. ks_ds_find ex_table ''b'' (ex_hash ''b'') = Some (p, False)"
  using ds_find_returns [OF ex_table(1,3), of "''b''"] by (auto simp: ex_table(2))

text \<open>
  Lookup and membership agree with the finite map; a \<open>NULL\<close> value and an absent key
  both read as \<open>NULL\<close>.
\<close>

lemma ds_get_correct:
  assumes "ds_inv t"
  shows "ks_ds_get t (Some k) = Some (case ds_map t k of None \<Rightarrow> None | Some v \<Rightarrow> v) \<and>
    ks_ds_contains t (Some k) = Some (k \<in> dom (ds_map t))"
  using assms by (simp add: ks_ds_get_map ks_ds_contains_map)

lemma ds_get_example:
  "ks_ds_get ex_table (Some ''a'') = Some (Some 1) \<and> ks_ds_contains ex_table (Some ''b'') = Some False"
  using ds_get_correct [OF ex_table(1), of "''a''"] ds_get_correct [OF ex_table(1), of "''b''"]
  by (simp add: ex_table(2))

text \<open>
  C18. Removal reports whether the key was bound, unbinds it and nothing else, keeps the
  invariant, and releases exactly the pairs that left the table.
\<close>

theorem ds_remove_correct:
  assumes "ds_inv t"
  shows "\<exists>t' kvs. ks_ds_remove t (Some k) = Some (k \<in> dom (ds_map t), t', released t kvs) \<and>
    ds_inv t' \<and> ds_map t' = (ds_map t)(k := None) \<and>
    mset (ds_pairs t) = mset (ds_pairs t') + mset kvs \<and>
    unat (ks_ds_size t') = card (dom (ds_map t) - {k})"
proof (rule ks_ds_remove_map [OF assms, of k])
  fix t' kvs
  assume r: "ks_ds_remove t (Some k) = Some (k \<in> dom (ds_map t), t', released t kvs)" "ds_inv t'"
    "ds_map t' = (ds_map t)(k := None)" "mset (ds_pairs t) = mset (ds_pairs t') + mset kvs"
  then show ?thesis using ds_size_card [OF r(2)] by (intro exI [of _ t'] exI [of _ kvs]) simp
qed

theorem ds_remove_correct_witness:
  "\<exists>t' ev. ks_ds_remove ex_table (Some ''a'') = Some (True, t', ev) \<and>
    ds_map t' = Map.empty \<and> unat (ks_ds_size t') = 0"
  using ds_remove_correct [OF ex_table(1), of "''a''"] by (auto simp: ex_table(2))

text \<open>
  C19. The life of a table: initialisation gives an empty one with the invariant or fails;
  destruction releases every stored key and value exactly once and leaves a zeroed table, on
  which every operation is a harmless no-op.
\<close>

theorem ds_lifecycle:
  assumes "ks_ds_init al (Some hf) (Some (=)) dk dv = Some t" and "ds_inv u"
  shows "ds_inv t \<and> ds_map t = Map.empty \<and> unat (ks_ds_size t) = 0 \<and>
    ks_ds_destroy u = (zero_ds, released u (ds_pairs u)) \<and>
    ks_ds_get (fst (ks_ds_destroy u)) k = Some None \<and>
    ks_ds_remove (fst (ks_ds_destroy u)) k = Some (False, zero_ds, []) \<and>
    ks_ds_put al' (fst (ks_ds_destroy u)) k v = Some (KS_DS_PUT_ERROR, zero_ds, [])"
  using ks_ds_init_inv [OF assms(1)] ds_size_card [of t] assms(2)
  by (simp add: ks_ds_destroy_released after_destroy)

theorem ds_lifecycle_witness:
  "\<exists>t. ks_ds_init mem_ok (Some ex_hash) (Some (=)) True False = Some (t :: (string, nat) ks_ds) \<and>
    ds_map t = Map.empty \<and> fst (ks_ds_destroy ex_table) = zero_ds"
proof -
  obtain t :: "(string, nat) ks_ds" where
    t: "ks_ds_init mem_ok (Some ex_hash) (Some (=)) True False = Some t"
    using mem_ok_calloc [of 8 sizeof_ks_ds_entry Site_ds_entries]
    by (simp add: ks_ds_init_def sizeof_ks_ds_entry_def KS_DS_INITIAL_CAPACITY_def)
  from ds_lifecycle [OF t ex_table(1)] t show ?thesis by auto
qed

end
