(* ===== verification/Kessel_Kv_Correct.thy ===== *)
theory Kessel_Kv_Correct
  imports Kessel_Kv Kessel_Ds_Map
begin

text \<open>
  The key-value store against its specification: each operation returns, keeps \<open>kv_inv\<close>,
  answers from the bindings that are live at the time it reads from the clock, and changes
  the live bindings exactly as its name says. Keys dropped because they had expired are not
  observable at that time or later.
\<close>

section \<open>Preliminaries\<close>

lemma ks_kv_equal_eq: "ks_kv_equal = (=)"
  by (simp add: ks_kv_equal_def fun_eq_iff)

lemma kv_invD:
  assumes "kv_inv s"
  shows "tab_inv (kv_entries s)" "ds_hash (kv_entries s) = Some ks_kv_hash"
    "ds_inv (kv_entries s)"
  using assms by (auto simp: kv_inv_def tab_inv_def)

lemma kv_get_raw:
  assumes "kv_inv s" shows "ks_ds_get (kv_entries s) (Some k) = Some (kv_map s k)"
  using ht.get_law [OF kv_invD(1) [OF assms], of k] by (simp add: tab_get_def kv_map_def)

lemma kv_live_iff:
  "kv_live t s k = Some v \<longleftrightarrow> kv_map s k = Some v \<and> \<not> expired t v"
  by (auto simp: kv_live_def split: option.splits)

lemma kv_live_None:
  "kv_live t s k = None \<longleftrightarrow> (\<forall>v. kv_map s k = Some v \<longrightarrow> expired t v)"
  by (auto simp: kv_live_def split: option.splits)

lemma expired_mono: "expired t v \<Longrightarrow> t \<le> t' \<Longrightarrow> expired t' v"
  by (auto simp: expired_def)

text \<open>The live bindings depend only on the map.\<close>

lemma kv_live_cong: "kv_map s' = kv_map s \<Longrightarrow> kv_live t s' = kv_live t s"
  by (simp add: kv_live_def fun_eq_iff)

lemma kv_live_upd:
  assumes "kv_map s' = (kv_map s)(k := vo)"
  shows "kv_live t s' = (kv_live t s)(k := (case vo of None \<Rightarrow> None
    | Some v \<Rightarrow> if expired t v then None else Some v))"
  using assms by (auto simp: kv_live_def fun_eq_iff split: option.splits)

lemma same_live_refl: "same_live t s s"
  by (simp add: same_live_def)

lemma same_live_map: "kv_map s' = kv_map s \<Longrightarrow> same_live t s s'"
  unfolding same_live_def by (intro allI impI kv_live_cong)

lemma same_live_trans: "same_live t s s' \<Longrightarrow> same_live t s' s'' \<Longrightarrow> same_live t s s''"
  by (simp add: same_live_def)

lemma same_live_drop:
  assumes "kv_map s k = Some v" "expired t v" "kv_map s' = (kv_map s)(k := None)"
  shows "same_live t s s'"
  unfolding same_live_def
proof (intro allI impI)
  fix t' assume "t \<le> t'"
  with assms(2) have "expired t' v" by (rule expired_mono)
  with assms(1) have "kv_live t' s k = None" by (simp add: kv_live_def)
  then show "kv_live t' s' = kv_live t' s"
    by (simp add: kv_live_upd [OF assms(3)] fun_upd_idem)
qed

section \<open>Changing parts of a store\<close>

lemma kv_inv_clock:
  assumes "kv_inv s"
  shows "kv_inv (s\<lparr>kv_clock := snd (ks_ttl_now (kv_clock s))\<rparr>)"
  using assms by (simp add: kv_inv_def kv_map_def ks_ttl_now_clock)

lemma kv_inv_entries:
  assumes "kv_inv s" "tab_inv t" "same_callbacks (kv_entries s) t"
    and "\<forall>v \<in> ran (tab_map t). value_ok v"
  shows "kv_inv (s\<lparr>kv_entries := t\<rparr>)"
  using assms by (simp add: kv_inv_def kv_map_def same_callbacks_def)

lemma kv_map_simps [simp]:
  "kv_map (s\<lparr>kv_clock := c\<rparr>) = kv_map s"
  "kv_map (s\<lparr>kv_reaper_cursor := i\<rparr>) = kv_map s"
  "kv_map (s\<lparr>kv_entries := t\<rparr>) = tab_map t"
  by (simp_all add: kv_map_def)

text \<open>Removing a key, as every operation that drops or deletes one does it.\<close>

lemma kv_remove:
  assumes inv: "kv_inv s"
  obtains t ev where "ks_ds_remove (kv_entries s) (Some k) = Some (k \<in> dom (kv_map s), t, ev)"
    "kv_inv (s\<lparr>kv_entries := t\<rparr>)" "tab_map t = (kv_map s)(k := None)"
    "ds_capacity t = ds_capacity (kv_entries s)"
proof (rule tab_remove [OF kv_invD(1) [OF inv], of k])
  fix t ev
  assume t: "ks_ds_remove (kv_entries s) (Some k) = Some (k \<in> dom (tab_map (kv_entries s)), t, ev)"
    "tab_inv t" "tab_map t = (tab_map (kv_entries s))(k := None)"
    "same_callbacks (kv_entries s) t" "ds_capacity t = ds_capacity (kv_entries s)"
  have "\<forall>v \<in> ran (tab_map t). value_ok v"
    using inv by (auto simp: t(3) kv_inv_def kv_map_def ran_def split: if_splits)
  with t show thesis
    by (intro that [of t ev] kv_inv_entries [OF inv]) (simp_all add: kv_map_def)
qed

section \<open>Lookup with lazy expiry\<close>

lemma find_live:
  assumes inv: "kv_inv s"
  obtains s' where "ks_kv_find_live s (Some k) = Some (kv_live (kv_now s) s k, s')"
    "kv_inv s'" "same_live (kv_now s) s s'"
    "kv_live (kv_now s) s k \<noteq> None \<Longrightarrow> kv_map s' = kv_map s"
    "kv_live (kv_now s) s k = None \<Longrightarrow> k \<notin> dom (kv_map s')"
    "kv_map s' \<in> {kv_map s, (kv_map s)(k := None)}"
    "kv_clock s' \<in> {kv_clock s, snd (ks_ttl_now (kv_clock s))}"
    "kv_reaper_cursor s' = kv_reaper_cursor s"
    "ds_capacity (kv_entries s') = ds_capacity (kv_entries s)"
proof (cases "kv_map s k")
  case None
  then have "ks_kv_find_live s (Some k) = Some (None, s)" "kv_live (kv_now s) s k = None"
    using kv_get_raw [OF inv] by (simp_all add: ks_kv_find_live_def kv_live_def)
  with inv None show thesis by (intro that [of s]) (auto simp: same_live_refl)
next
  case (Some v)
  note get = kv_get_raw [OF inv, of k]
  obtain clk where now: "ks_ttl_now (kv_clock s) = (kv_now s, clk)"
    by (cases "ks_ttl_now (kv_clock s)") (simp add: kv_now_def)
  let ?s = "s\<lparr>kv_clock := clk\<rparr>"
  have inv': "kv_inv ?s" using kv_inv_clock [OF inv] now by simp
  consider "v_deadline_ms v = 0" | "v_deadline_ms v \<noteq> 0" "\<not> expired (kv_now s) v"
    | "expired (kv_now s) v" by (auto simp: expired_def)
  then show thesis
  proof cases
    case 1
    with Some get have "ks_kv_find_live s (Some k) = Some (Some v, s)"
      "kv_live (kv_now s) s k = Some v"
      by (simp_all add: ks_kv_find_live_def kv_live_def expired_def)
    with inv Some show thesis by (intro that [of s]) (auto simp: same_live_refl)
  next
    case 2
    with Some get have "ks_kv_find_live s (Some k) = Some (Some v, ?s)"
      "kv_live (kv_now s) s k = Some v"
      by (simp_all add: ks_kv_find_live_def kv_live_def expired_def now)
    with inv' Some now show thesis
      by (intro that [of ?s]) (auto simp: same_live_map)
  next
    case 3
    from kv_remove [OF inv', of k] obtain t ev where
      r: "ks_ds_remove (kv_entries ?s) (Some k) = Some (k \<in> dom (kv_map ?s), t, ev)"
        "kv_inv (?s\<lparr>kv_entries := t\<rparr>)" "tab_map t = (kv_map ?s)(k := None)"
        "ds_capacity t = ds_capacity (kv_entries ?s)" .
    from 3 Some get r(1) have "ks_kv_find_live s (Some k) = Some (None, ?s\<lparr>kv_entries := t\<rparr>)"
      "kv_live (kv_now s) s k = None"
      by (simp_all add: ks_kv_find_live_def kv_live_def expired_def now)
    moreover have "same_live (kv_now s) s (?s\<lparr>kv_entries := t\<rparr>)"
      using Some 3 r(3) by (intro same_live_drop [of s k v]) simp_all
    ultimately show thesis
      using r(2-4) now by (intro that [of "?s\<lparr>kv_entries := t\<rparr>"]) simp_all
  qed
qed

section \<open>Reading and deleting\<close>

lemma kv_get:
  assumes inv: "kv_inv s"
  shows "\<exists>s'. ks_kv_get s (Some k) =
      Some (case kv_live (kv_now s) s k of None \<Rightarrow> (None, 0, s')
            | Some v \<Rightarrow> (Some (v_data v), v_size v, s')) \<and>
    kv_inv s' \<and> same_live (kv_now s) s s'"
proof (rule find_live [OF inv, of k])
  fix s'
  assume "ks_kv_find_live s (Some k) = Some (kv_live (kv_now s) s k, s')" "kv_inv s'"
    "same_live (kv_now s) s s'"
  then show ?thesis by (intro exI [of _ s']) (simp add: ks_kv_get_def)
qed

lemma kv_exists:
  assumes inv: "kv_inv s"
  shows "\<exists>s'. ks_kv_exists s (Some k) = Some (kv_live (kv_now s) s k \<noteq> None, s') \<and>
    kv_inv s' \<and> same_live (kv_now s) s s'"
proof (rule find_live [OF inv, of k])
  fix s'
  assume "ks_kv_find_live s (Some k) = Some (kv_live (kv_now s) s k, s')" "kv_inv s'"
    "same_live (kv_now s) s s'"
  then show ?thesis by (intro exI [of _ s']) (simp add: ks_kv_exists_def)
qed

text \<open>The live bindings after a removal that follows a lookup.\<close>

lemma live_after_remove:
  assumes "same_live now s s'" "kv_map s'' = (kv_map s')(k := None)" "now \<le> t"
  shows "kv_live t s'' = (kv_live t s)(k := None)"
  using assms by (simp add: kv_live_upd [OF assms(2)] same_live_def)

lemma kv_delete:
  assumes inv: "kv_inv s"
  shows "\<exists>s'. ks_kv_delete s (Some k) = Some (kv_live (kv_now s) s k \<noteq> None, s') \<and>
    kv_inv s' \<and> (\<forall>t \<ge> kv_now s. kv_live t s' = (kv_live t s)(k := None))"
proof (rule find_live [OF inv, of k])
  fix s1
  assume f: "ks_kv_find_live s (Some k) = Some (kv_live (kv_now s) s k, s1)" "kv_inv s1"
    "same_live (kv_now s) s s1" "kv_live (kv_now s) s k \<noteq> None \<Longrightarrow> kv_map s1 = kv_map s"
    "kv_live (kv_now s) s k = None \<Longrightarrow> k \<notin> dom (kv_map s1)"
  show ?thesis
  proof (cases "kv_live (kv_now s) s k")
    case None
    with f(5) have "kv_map s1 = (kv_map s1)(k := None)" by (auto simp: fun_upd_idem)
    from live_after_remove [OF f(3) this] None f show ?thesis
      by (intro exI [of _ s1]) (simp add: ks_kv_delete_def)
  next
    case (Some v)
    with f(4) have "k \<in> dom (kv_map s1)" by (auto simp: kv_live_iff)
    moreover from kv_remove [OF f(2), of k] obtain t ev where
      r: "ks_ds_remove (kv_entries s1) (Some k) = Some (k \<in> dom (kv_map s1), t, ev)"
        "kv_inv (s1\<lparr>kv_entries := t\<rparr>)" "tab_map t = (kv_map s1)(k := None)"
        "ds_capacity t = ds_capacity (kv_entries s1)" .
    ultimately show ?thesis
      using Some f(1) live_after_remove [OF f(3), of "s1\<lparr>kv_entries := t\<rparr>" k]
      by (intro exI [of _ "s1\<lparr>kv_entries := t\<rparr>"]) (simp add: ks_kv_delete_def)
  qed
qed

section \<open>Storing\<close>

lemma value_ok_new: "unat n \<le> length val \<Longrightarrow> value_ok (new_value val n d)"
  by (simp add: value_ok_def new_value_def)

lemma copy_value_cases:
  "ks_kv_copy_value al val n d = None \<or> ks_kv_copy_value al val n d = Some (new_value val n d)"
  by (auto simp: ks_kv_copy_value_def new_value_def)

lemma copy_value_None:
  assumes "ks_kv_copy_value al val n d = None"
  shows "\<not> c_malloc al Site_value_copy (sizeof_ks_kv_value + unat n + 1)"
proof (cases "n > SIZE_MAX - of_nat sizeof_ks_kv_value - 1")
  case True
  then have "unat (SIZE_MAX - 16 - 1) < unat n"
    by (simp add: sizeof_ks_kv_value_def word_less_nat_alt)
  moreover have "unat (SIZE_MAX - 16 - 1 :: u64) = 2 ^ 64 - 1 - 17"
    by (simp add: SIZE_MAX_def)
  ultimately show ?thesis by (simp add: c_malloc_def sizeof_ks_kv_value_def)
next
  case False
  with assms show ?thesis by (simp add: ks_kv_copy_value_def split: if_splits)
qed

lemma set_ex_split:
  assumes f: "ks_kv_find_live s (Some k) = Some (live, s1)"
    and clk: "ks_ttl_now (kv_clock s1) = (now, clk)"
  shows "ks_kv_set_ex al s (Some k) (Some val) n ttl =
    (let s2 = (if ttl = 0 then s1 else s1\<lparr>kv_clock := clk\<rparr>) in
     case set_deadline now ttl of None \<Rightarrow> Some (KS_KV_SET_ERROR, s2)
     | Some d \<Rightarrow>
         if ks_kv_copy_key al k = None \<or> ks_kv_copy_value al val n d = None
         then Some (KS_KV_SET_ERROR, s2)
         else do {
           (result, entries, ev) \<leftarrow> ks_ds_put al (kv_entries s2) (Some k) (Some (new_value val n d));
           Some (case result of
                    KS_DS_PUT_ERROR \<Rightarrow> KS_KV_SET_ERROR
                  | KS_DS_PUT_INSERTED \<Rightarrow> KS_KV_SET_INSERTED
                  | KS_DS_PUT_REPLACED \<Rightarrow> KS_KV_SET_REPLACED,
                  s2\<lparr>kv_entries := entries\<rparr>) })"
proof -
  have key: "ks_kv_copy_key al k = None \<or> ks_kv_copy_key al k = Some k"
    by (simp add: ks_kv_copy_key_def)
  show ?thesis
  proof (cases "ttl = 0")
    case True
    then have d0: "ks_ttl_deadline 0 ttl = None" by (simp add: ks_ttl_deadline_def)
    show ?thesis
      using f clk key copy_value_cases [of al val n 0] True d0
      by (auto simp: ks_kv_set_ex_def set_deadline_def Let_def)
  next
    case False
    show ?thesis
    proof (cases "ks_ttl_deadline now ttl")
      case None
      with f clk False show ?thesis
        by (simp add: ks_kv_set_ex_def set_deadline_def Let_def)
    next
      case (Some d)
      with f clk False key copy_value_cases [of al val n d] show ?thesis
        by (auto simp: ks_kv_set_ex_def set_deadline_def Let_def)
    qed
  qed
qed

text \<open>The last step: the value and key copies exist and go into the table.\<close>

lemma kv_put_cases:
  assumes inv: "kv_inv s" and v: "value_ok v"
  obtains (replaced) t ev where
      "ks_ds_put al (kv_entries s) (Some k) (Some v) = Some (KS_DS_PUT_REPLACED, t, ev)"
      "k \<in> dom (kv_map s)" "kv_inv (s\<lparr>kv_entries := t\<rparr>)" "tab_map t = (kv_map s)(k \<mapsto> v)"
  | (inserted) t ev where
      "ks_ds_put al (kv_entries s) (Some k) (Some v) = Some (KS_DS_PUT_INSERTED, t, ev)"
      "k \<notin> dom (kv_map s)" "kv_inv (s\<lparr>kv_entries := t\<rparr>)" "tab_map t = (kv_map s)(k \<mapsto> v)"
  | (no_memory) c where
      "ks_ds_put al (kv_entries s) (Some k) (Some v) = Some (KS_DS_PUT_ERROR, kv_entries s, [])"
      "c \<in> {ds_capacity (kv_entries s), ds_capacity (kv_entries s) * 2}"
      "\<not> c_calloc al Site_ds_entries c sizeof_ks_ds_entry"
proof -
  have ok: "\<forall>v' \<in> ran (tab_map t). value_ok v'" if "tab_map t = (tab_map (kv_entries s))(k \<mapsto> v)" for t
    using that inv v by (auto simp: kv_inv_def kv_map_def ran_def split: if_splits)
  show thesis
  proof (cases rule: tab_put_cases [OF kv_invD(1) [OF inv], of al k v,
      case_names replaced inserted no_memory])
    case (replaced t ev)
    then show ?thesis
      using kv_inv_entries [OF inv replaced(3,5) ok [OF replaced(4)]]
      by (intro that(1)) (simp_all add: kv_map_def)
  next
    case (inserted t)
    then show ?thesis
      using kv_inv_entries [OF inv inserted(3,5) ok [OF inserted(4)]]
      by (intro that(2)) (simp_all add: kv_map_def)
  next
    case (no_memory c)
    then show ?thesis by (rule that(3))
  qed
qed

lemma set_ex_cases:
  assumes inv: "kv_inv s" and val: "unat n \<le> length val"
  obtains (stored) s1 s' d where
      "ks_kv_find_live s (Some k) = Some (kv_live (kv_now s) s k, s1)"
      "set_deadline (kv_now s1) ttl = Some d"
      "ks_kv_set_ex al s (Some k) (Some val) n ttl =
         Some (if kv_live (kv_now s) s k = None then KS_KV_SET_INSERTED else KS_KV_SET_REPLACED, s')"
      "kv_inv s'" "same_live (kv_now s) s s1" "kv_map s' = (kv_map s1)(k \<mapsto> new_value val n d)"
  | (refused) s1 s' where
      "ks_kv_find_live s (Some k) = Some (kv_live (kv_now s) s k, s1)"
      "ks_kv_set_ex al s (Some k) (Some val) n ttl = Some (KS_KV_SET_ERROR, s')"
      "kv_inv s'" "same_live (kv_now s) s s'"
      "set_deadline (kv_now s1) ttl = None \<or> out_of_memory al s k n"
proof (rule find_live [OF inv, of k])
  fix s1
  assume f: "ks_kv_find_live s (Some k) = Some (kv_live (kv_now s) s k, s1)" "kv_inv s1"
    "same_live (kv_now s) s s1" "kv_live (kv_now s) s k \<noteq> None \<Longrightarrow> kv_map s1 = kv_map s"
    "kv_live (kv_now s) s k = None \<Longrightarrow> k \<notin> dom (kv_map s1)"
    "ds_capacity (kv_entries s1) = ds_capacity (kv_entries s)"
  obtain clk where clk: "ks_ttl_now (kv_clock s1) = (kv_now s1, clk)"
    by (cases "ks_ttl_now (kv_clock s1)") (simp add: kv_now_def)
  define s2 where "s2 = (if ttl = 0 then s1 else s1\<lparr>kv_clock := clk\<rparr>)"
  have s2: "kv_inv s2" "kv_map s2 = kv_map s1" "kv_entries s2 = kv_entries s1"
    using f(2) kv_inv_clock [OF f(2)] clk by (simp_all add: s2_def)
  have dom: "k \<in> dom (kv_map s2) \<longleftrightarrow> kv_live (kv_now s) s k \<noteq> None"
    using f(4,5) s2(2)
    by (cases "kv_live (kv_now s) s k") (auto simp: kv_live_iff simp flip: domIff)
  have live2: "same_live (kv_now s) s s2"
    by (rule same_live_trans [OF f(3) same_live_map [OF s2(2)]])
  note split = set_ex_split [OF f(1) clk, of al val n ttl, unfolded s2_def [symmetric] Let_def]
  have err: thesis if "ks_kv_set_ex al s (Some k) (Some val) n ttl = Some (KS_KV_SET_ERROR, s2)"
    "set_deadline (kv_now s1) ttl = None \<or> out_of_memory al s k n"
    using refused [OF f(1) that(1) s2(1) live2 that(2)] .
  show thesis
  proof (cases "set_deadline (kv_now s1) ttl")
    case None
    with split err show ?thesis by simp
  next
    case (Some d)
    show ?thesis
    proof (cases "ks_kv_copy_key al k = None \<or> ks_kv_copy_value al val n d = None")
      case True
      then have "out_of_memory al s k n"
        using copy_value_None [of al val n d]
        by (auto simp: out_of_memory_def ks_kv_copy_key_def split: if_splits)
      with True Some split err show ?thesis by simp
    next
      case False
      note go = split [unfolded Some, simplified False if_False option.case]
      show ?thesis
      proof (cases rule: kv_put_cases [OF s2(1) value_ok_new [OF val, of d], of al k,
          case_names replaced inserted no_memory])
        case (replaced t ev)
        with go dom s2(2) show ?thesis
          by (intro stored [OF f(1) Some _ replaced(3) f(3)]) auto
      next
        case (inserted t ev)
        with go dom s2(2) show ?thesis
          by (intro stored [OF f(1) Some _ inserted(3) f(3)]) auto
      next
        case (no_memory c)
        have "s2\<lparr>kv_entries := kv_entries s2\<rparr> = s2" by simp
        moreover have "out_of_memory al s k n"
          using no_memory(2,3) f(6) s2(3) by (auto simp: out_of_memory_def)
        ultimately show ?thesis using no_memory(1) go err by simp
      qed
    qed
  qed
qed

lemma live_after_set:
  assumes "same_live now s s1" "kv_map s' = (kv_map s1)(k \<mapsto> v)" "now \<le> t"
  shows "kv_live t s' = (kv_live t s)(k := (if expired t v then None else Some v))"
  using assms by (simp add: kv_live_upd [OF assms(2)] same_live_def)

section \<open>Changing and reading the time to live\<close>

lemma kv_write_deadline:
  assumes inv: "kv_inv s" and k: "kv_map s k = Some v"
  obtains t where "write_deadline s k d = Some (s\<lparr>kv_entries := t\<rparr>)"
    "kv_inv (s\<lparr>kv_entries := t\<rparr>)" "tab_map t = (kv_map s)(k \<mapsto> v\<lparr>v_deadline_ms := d\<rparr>)"
proof -
  let ?t = "kv_entries s" and ?v = "v\<lparr>v_deadline_ms := d\<rparr>"
  from kv_invD [OF inv] obtain es where t: "ds_rep ?t es ks_kv_hash"
    by (auto simp: ds_inv_def ds_rep_def)
  from k have raw: "ds_map ?t k = Some (Some v)"
    by (simp add: kv_map_def tab_map_def split: option.splits)
  show thesis
  proof (cases rule: ds_find_cases [OF t t t t t, of k, case_names found missing])
    case (missing p)
    with ds_map_missing [OF t missing(5)] raw show ?thesis by simp
  next
    case (found p)
    from ds_map_found [OF t found(2-4)] raw have ev: "e_value (es ! unat p) = Some v" by simp
    let ?t' = "?t\<lparr>ds_entries := Some (es[unat p := (es ! unat p)\<lparr>e_value := Some ?v\<rparr>])\<rparr>"
    have w: "ds_inv ?t'" "ds_map ?t' = (ds_map ?t)(k \<mapsto> Some ?v)" "same_callbacks ?t ?t'"
      using write_value [OF t found(2-5) refl, of "Some ?v"] by auto
    have tab: "tab_inv ?t'" "tab_map ?t' = (tab_map ?t)(k \<mapsto> ?v)"
      using w kv_invD(1) [OF inv] by (auto simp: tab_inv_def ran_def)
    have "value_ok v" using inv k by (auto simp: kv_inv_def ran_def)
    then have "value_ok ?v" by (simp add: value_ok_def)
    then have "\<forall>v' \<in> ran (tab_map ?t'). value_ok v'"
      using inv unfolding tab(2) by (auto simp: kv_inv_def kv_map_def ran_def split: if_splits)
    from kv_inv_entries [OF inv tab(1) w(3) this] have "kv_inv (s\<lparr>kv_entries := ?t'\<rparr>)" .
    moreover have "write_deadline s k d = Some (s\<lparr>kv_entries := ?t'\<rparr>)"
      using found ds_repD [OF t] ev by (simp add: write_deadline_def Let_def)
    ultimately show ?thesis
      using tab(2) by (intro that [of ?t']) (simp_all add: kv_map_def)
  qed
qed

lemma kv_expire_cases:
  assumes inv: "kv_inv s" and ttl: "ttl \<noteq> 0"
  obtains (updated) s1 s' v d where
      "ks_kv_find_live s (Some k) = Some (Some v, s1)" "kv_live (kv_now s) s k = Some v"
      "ks_ttl_deadline (kv_now s1) ttl = Some d"
      "ks_kv_expire s (Some k) ttl = Some (KS_KV_EXPIRE_UPDATED, s')" "kv_inv s'"
      "same_live (kv_now s) s s1" "kv_map s' = (kv_map s1)(k \<mapsto> v\<lparr>v_deadline_ms := d\<rparr>)"
  | (missing) s' where "kv_live (kv_now s) s k = None"
      "ks_kv_expire s (Some k) ttl = Some (KS_KV_EXPIRE_MISSING, s')" "kv_inv s'"
      "same_live (kv_now s) s s'"
  | (refused) s1 s' v where "ks_kv_find_live s (Some k) = Some (Some v, s1)"
      "kv_live (kv_now s) s k = Some v" "ks_ttl_deadline (kv_now s1) ttl = None"
      "ks_kv_expire s (Some k) ttl = Some (KS_KV_EXPIRE_ERROR, s')" "kv_inv s'"
      "same_live (kv_now s) s s'"
proof (rule find_live [OF inv, of k])
  fix s1
  assume f: "ks_kv_find_live s (Some k) = Some (kv_live (kv_now s) s k, s1)" "kv_inv s1"
    "same_live (kv_now s) s s1" "kv_live (kv_now s) s k \<noteq> None \<Longrightarrow> kv_map s1 = kv_map s"
  obtain clk where clk: "ks_ttl_now (kv_clock s1) = (kv_now s1, clk)"
    by (cases "ks_ttl_now (kv_clock s1)") (simp add: kv_now_def)
  let ?s2 = "s1\<lparr>kv_clock := clk\<rparr>"
  have s2: "kv_inv ?s2" using kv_inv_clock [OF f(2)] clk by simp
  show thesis
  proof (cases "kv_live (kv_now s) s k")
    case None
    with f show ?thesis by (intro missing [of s1]) (simp_all add: ks_kv_expire_def)
  next
    case (Some v)
    with f(4) have m: "kv_map ?s2 k = Some v" by (auto simp: kv_live_iff)
    show ?thesis
    proof (cases "ks_ttl_deadline (kv_now s1) ttl")
      case None
      with f Some ttl clk s2 show ?thesis
        by (intro refused [of v s1 ?s2])
          (simp_all add: ks_kv_expire_def Let_def same_live_trans [OF f(3) same_live_map])
    next
      fix d assume d: "ks_ttl_deadline (kv_now s1) ttl = Some d"
      from kv_write_deadline [OF s2 m, of d] obtain t where
        w: "write_deadline ?s2 k d = Some (?s2\<lparr>kv_entries := t\<rparr>)"
          "kv_inv (?s2\<lparr>kv_entries := t\<rparr>)" "tab_map t = (kv_map ?s2)(k \<mapsto> v\<lparr>v_deadline_ms := d\<rparr>)" .
      with d f Some ttl clk show ?thesis
        by (intro updated [of v s1 d "?s2\<lparr>kv_entries := t\<rparr>"])
          (simp_all add: ks_kv_expire_def Let_def)
    qed
  qed
qed

lemma kv_expire_zero:
  assumes inv: "kv_inv s"
  shows "\<exists>s'. ks_kv_expire s (Some k) 0 =
      Some (if kv_live (kv_now s) s k = None then KS_KV_EXPIRE_MISSING else KS_KV_EXPIRE_UPDATED, s') \<and>
    kv_inv s' \<and> (\<forall>t \<ge> kv_now s. kv_live t s' = (kv_live t s)(k := None))"
proof -
  have "ks_kv_expire s (Some k) 0 =
      map_option (\<lambda>(b, s'). (if b then KS_KV_EXPIRE_UPDATED else KS_KV_EXPIRE_MISSING, s'))
        (ks_kv_delete s (Some k))"
    by (auto simp: ks_kv_expire_def ks_kv_delete_def map_option_case split: option.splits
        bind_splits)
  moreover from kv_delete [OF inv, of k] obtain s' where
    "ks_kv_delete s (Some k) = Some (kv_live (kv_now s) s k \<noteq> None, s')" "kv_inv s'"
    "\<forall>t \<ge> kv_now s. kv_live t s' = (kv_live t s)(k := None)" by blast
  ultimately show ?thesis by (intro exI [of _ s']) simp
qed

lemma sint_div_1000:
  fixes x :: u64
  shows "sint (x div 1000) = int (unat x div 1000)"
proof -
  have x: "unat x < 2 ^ 64" using unsigned_less [of x, where ?'a = nat] by simp
  have u: "unat (x div 1000) = unat x div 1000" by (simp add: unat_div)
  have "unat x div 1000 < 2 ^ 63" using x by (simp add: less_mult_imp_div_less)
  then have "int (unat (x div 1000)) < int (2 ^ 63)" unfolding u by (simp only: of_nat_less_iff)
  then have "uint (x div 1000) < 2 ^ 63" by simp
  moreover have "- (2 ^ 63) \<le> uint (x div 1000)"
    by (rule order_trans [OF _ uint_nonnegative]) simp
  ultimately have "sint (x div 1000) = uint (x div 1000)"
    by (simp add: sint_uint signed_take_bit_int_eq_self)
  also have "\<dots> = int (unat (x div 1000))" by simp
  finally show ?thesis unfolding u .
qed

lemma kv_ttl:
  assumes inv: "kv_inv s"
  obtains s1 s' where "ks_kv_find_live s (Some k) = Some (kv_live (kv_now s) s k, s1)"
    "ks_kv_ttl s (Some k) = Some (ttl_answer (kv_now s1) (kv_live (kv_now s) s k), s')"
    "kv_inv s'" "\<And>t. kv_now s \<le> t \<Longrightarrow> kv_now s1 \<le> t \<Longrightarrow> kv_live t s' = kv_live t s"
proof (rule find_live [OF inv, of k])
  fix s1
  assume f: "ks_kv_find_live s (Some k) = Some (kv_live (kv_now s) s k, s1)" "kv_inv s1"
    "same_live (kv_now s) s s1" "kv_live (kv_now s) s k \<noteq> None \<Longrightarrow> kv_map s1 = kv_map s"
  obtain clk where clk: "ks_ttl_now (kv_clock s1) = (kv_now s1, clk)"
    by (cases "ks_ttl_now (kv_clock s1)") (simp add: kv_now_def)
  let ?s2 = "s1\<lparr>kv_clock := clk\<rparr>"
  have s2: "kv_inv ?s2" using kv_inv_clock [OF f(2)] clk by simp
  have l2: "same_live (kv_now s) s ?s2"
    by (rule same_live_trans [OF f(3) same_live_map]) simp
  consider "kv_live (kv_now s) s k = None"
    | v where "kv_live (kv_now s) s k = Some v" "v_deadline_ms v = 0"
    | v where "kv_live (kv_now s) s k = Some v" "v_deadline_ms v \<noteq> 0" "\<not> expired (kv_now s1) v"
    | v where "kv_live (kv_now s) s k = Some v" "expired (kv_now s1) v"
    by (cases "kv_live (kv_now s) s k") auto
  then show thesis
  proof cases
    case 1
    with f show ?thesis
      by (intro that [of s1 s1]) (simp_all add: ks_kv_ttl_def ttl_answer_def same_live_def)
  next
    case (2 v)
    with f show ?thesis
      by (intro that [of s1 s1]) (simp_all add: ks_kv_ttl_def ttl_answer_def same_live_def)
  next
    case (3 v)
    then have "kv_now s1 \<le> v_deadline_ms v" by (auto simp: expired_def)
    then have "unat (v_deadline_ms v - kv_now s1) = unat (v_deadline_ms v) - unat (kv_now s1)"
      by (rule unat_sub)
    with 3 f clk s2 l2 show ?thesis
      by (intro that [of s1 ?s2])
        (auto simp: ks_kv_ttl_def ttl_answer_def same_live_def expired_def sint_div_1000)
  next
    case (4 v)
    then have m: "kv_map ?s2 k = Some v" using f(4) by (auto simp: kv_live_iff)
    from kv_remove [OF s2, of k] obtain t ev where
      r: "ks_ds_remove (kv_entries ?s2) (Some k) = Some (k \<in> dom (kv_map ?s2), t, ev)"
        "kv_inv (?s2\<lparr>kv_entries := t\<rparr>)" "tab_map t = (kv_map ?s2)(k := None)"
        "ds_capacity t = ds_capacity (kv_entries ?s2)" .
    have "same_live (kv_now s1) ?s2 (?s2\<lparr>kv_entries := t\<rparr>)"
      using m 4(2) r(3) by (intro same_live_drop [of ?s2 k v]) simp_all
    with 4 f clk r l2 show ?thesis
      by (intro that [of s1 "?s2\<lparr>kv_entries := t\<rparr>"])
        (auto simp: ks_kv_ttl_def ttl_answer_def same_live_def expired_def)
  qed
qed

end
