(* ===== verification/Kessel_Kv_Reap.thy ===== *)
theory Kessel_Kv_Reap
  imports Kessel_Kv_Correct
begin

text \<open>
  The incremental reaper of \<^verbatim>\<open>src/src/ks_kv.c\<close>. A call looks at \<open>budget\<close> slots,
  going round the array from where the last call stopped; the lemmas say which slots these
  are, that exactly the expired ones among them are cleared and counted, and that a sweep of
  a whole round, as \<open>ks_kv_size\<close> makes it, leaves exactly the live bindings.
\<close>

definition slot_expired :: "u64 \<Rightarrow> (string, ks_kv_value) ks_ds_entry \<Rightarrow> bool" where
  "slot_expired now e \<longleftrightarrow> occ e \<and> (case e_value e of None \<Rightarrow> False | Some v \<Rightarrow> expired now v)"

text \<open>The slot the next turn looks at.\<close>

definition reap_start :: "ks_kv \<Rightarrow> u64" where
  "reap_start s = (if kv_reaper_cursor s \<ge> ds_capacity (kv_entries s) then 0 else kv_reaper_cursor s)"

text \<open>The array after the slots of \<open>V\<close> were looked at.\<close>

definition swept ::
    "u64 \<Rightarrow> nat set \<Rightarrow> (string, ks_kv_value) ks_ds_entry list \<Rightarrow>
     (string, ks_kv_value) ks_ds_entry list" where
  "swept now V es = map (\<lambda>i. if i \<in> V \<and> slot_expired now (es ! i) then tombstone_entry else es ! i)
     [0..<length es]"

definition due :: "u64 \<Rightarrow> nat set \<Rightarrow> (string, ks_kv_value) ks_ds_entry list \<Rightarrow> nat set" where
  "due now V es = {i \<in> V. i < length es \<and> slot_expired now (es ! i)}"

text \<open>The slots that \<open>n\<close> turns from slot \<open>c\<close> visit.\<close>

definition round_from :: "nat \<Rightarrow> nat \<Rightarrow> nat \<Rightarrow> nat set" where
  "round_from cap c n = (\<lambda>j. (c + j) mod cap) ` {..<n}"

lemma swept_nth [simp]:
  "length (swept now V es) = length es"
  "i < length es \<Longrightarrow>
     swept now V es ! i = (if i \<in> V \<and> slot_expired now (es ! i) then tombstone_entry else es ! i)"
  by (simp_all add: swept_def)

lemma not_slot_expired_tombstone [simp]: "\<not> slot_expired now tombstone_entry"
  by (simp add: slot_expired_def)

lemma swept_step:
  assumes "i < length es"
  shows "swept now V (if slot_expired now (es ! i) then es[i := tombstone_entry] else es) =
    swept now (insert i V) es"
  using assms by (intro nth_equalityI) (auto simp: nth_list_update split: if_splits)

lemma round_from_Suc:
  assumes "c < cap"
  shows "round_from cap c (Suc n) = insert c (round_from cap (Suc c mod cap) n)"
proof -
  have "{..<Suc n} = insert 0 (Suc ` {..<n})" by (rule lessThan_Suc_eq_insert_0)
  then show ?thesis using assms by (simp add: round_from_def image_image mod_simps)
qed

lemma round_from_all:
  assumes "c < cap" "cap \<le> n"
  shows "{..<cap} \<subseteq> round_from cap c n"
proof
  fix i assume i: "i \<in> {..<cap}"
  define j where "j = (if c \<le> i then i - c else cap + i - c)"
  have "j < cap" "(c + j) mod cap = i" using i assms(1) by (auto simp: j_def)
  then show "i \<in> round_from cap c n" using assms(2) by (force simp: round_from_def)
qed

section \<open>One turn\<close>

lemma reap_start_less:
  assumes "ds_rep (kv_entries s) es hf" shows "unat (reap_start s) < length es"
proof -
  have "0 < length es" using es_inv_length [OF ds_repD(4) [OF assms]] by (metis zero_less_numeral zero_less_power)
  then show ?thesis
    using ds_repD(5) [OF assms] by (auto simp: reap_start_def word_le_nat_alt)
qed

lemma reap_slot_step:
  assumes inv: "kv_inv s" and t: "ds_rep (kv_entries s) es ks_kv_hash"
  obtains s' where
    "reap_slot now s r = Some (s', if slot_expired now (es ! unat (reap_start s)) then r + 1 else r)"
    "kv_inv s'" "ds_rep (kv_entries s') (if slot_expired now (es ! unat (reap_start s))
       then es[unat (reap_start s) := tombstone_entry] else es) ks_kv_hash"
    "kv_reaper_cursor s' = reap_start s + 1" "kv_clock s' = kv_clock s"
    "ds_capacity (kv_entries s') = ds_capacity (kv_entries s)"
proof -
  let ?c = "reap_start s" and ?e = "es ! unat (reap_start s)"
  let ?s = "s\<lparr>kv_reaper_cursor := reap_start s + 1\<rparr>"
  note c = reap_start_less [OF t] and t' = ds_repD [OF t]
  have inv': "kv_inv ?s" using inv by (simp add: kv_inv_def)
  have unfold: "reap_slot now s r =
      (if \<not> occ ?e then Some (?s, r) else do {
         value \<leftarrow> e_value ?e;
         if expired now value then do {
           (ok, entries, ev) \<leftarrow> ks_ds_remove (kv_entries s) (e_key ?e);
           Some (?s\<lparr>kv_entries := entries\<rparr>, if ok then r + 1 else r) }
         else Some (?s, r) })"
    using c t'(1) by (cases "e_value ?e")
      (simp_all add: reap_slot_def reap_start_def [symmetric] occ_def expired_def Let_def)
  show thesis
  proof (cases "occ ?e")
    case False
    with unfold inv' t show ?thesis by (intro that [of ?s]) (simp_all add: slot_expired_def)
  next
    case True
    from es_inv_occ_key [OF t'(4) c True] obtain k where k: "e_key ?e = Some k" .
    have m: "ds_map (kv_entries s) k = Some (e_value ?e)"
      by (rule ds_map_found [OF t c True k])
    then have "e_value ?e \<noteq> None"
      using kv_invD(1) [OF inv] by (metis ranI tab_inv_def)
    then obtain v where v: "e_value ?e = Some v" by auto
    show ?thesis
    proof (cases "expired now v")
      case False
      with True unfold v inv' t show ?thesis
        by (intro that [of ?s]) (simp_all add: slot_expired_def)
    next
      case expd: True
      from remove_at [OF t c True k] obtain t2 where
        r: "ks_ds_remove (kv_entries s) (Some k) =
             Some (True, t2, released (kv_entries s) [(k, e_value ?e)])"
          "ds_rep t2 (es[unat ?c := tombstone_entry]) ks_kv_hash"
          "same_callbacks (kv_entries s) t2" "ds_capacity t2 = ds_capacity (kv_entries s)" .
      from kv_remove [OF inv', of k] r(1) have "kv_inv (?s\<lparr>kv_entries := t2\<rparr>)"
        by auto
      with r True expd v k unfold show ?thesis
        by (intro that [of "?s\<lparr>kv_entries := t2\<rparr>"]) (simp_all add: slot_expired_def)
    qed
  qed
qed

section \<open>Several turns\<close>

lemma due_step:
  assumes "i < length es"
  shows "card (due now (insert i V) es) = (if slot_expired now (es ! i) then 1 else 0) +
    card (due now V (if slot_expired now (es ! i) then es[i := tombstone_entry] else es))"
proof (cases "slot_expired now (es ! i)")
  case True
  have "due now (insert i V) es = insert i (due now V (es[i := tombstone_entry]))"
    using assms True by (auto simp: due_def nth_list_update split: if_splits)
  moreover have "i \<notin> due now V (es[i := tombstone_entry])"
    using assms by (simp add: due_def)
  moreover have "finite (due now V (es[i := tombstone_entry]))"
    by (rule finite_subset [of _ "{..<length es}"]) (auto simp: due_def)
  ultimately show ?thesis using True by simp
next
  case False
  then have "due now (insert i V) es = due now V es" by (auto simp: due_def)
  with False show ?thesis by simp
qed

lemma next_start:
  assumes t: "ds_rep (kv_entries s) es hf" and s': "kv_reaper_cursor s' = reap_start s + 1"
    "ds_capacity (kv_entries s') = ds_capacity (kv_entries s)"
  shows "unat (reap_start s') = Suc (unat (reap_start s)) mod length es"
proof -
  note c = reap_start_less [OF t] and len = ds_repD(5) [OF t]
  have "unat (ds_capacity (kv_entries s)) < 2 ^ 64"
    using unsigned_less [of "ds_capacity (kv_entries s)", where ?'a = nat] by simp
  with c len have "unat (reap_start s + 1) = Suc (unat (reap_start s))"
    by (simp add: unat_word_ariths)
  with c len s' show ?thesis
    by (auto simp: reap_start_def [of s'] word_le_nat_alt mod_Suc)
qed

lemma reap_loop_sweeps:
  assumes "kv_inv s" "ds_rep (kv_entries s) es ks_kv_hash"
  shows "\<exists>s'. reap_loop n now s r =
      Some (s', r + of_nat (card (due now (round_from (length es) (unat (reap_start s)) n) es))) \<and>
    kv_inv s' \<and>
    ds_rep (kv_entries s') (swept now (round_from (length es) (unat (reap_start s)) n) es) ks_kv_hash \<and>
    ds_capacity (kv_entries s') = ds_capacity (kv_entries s) \<and> kv_clock s' = kv_clock s"
  using assms
proof (induction n arbitrary: s es r)
  case 0
  have "swept now {} es = es" by (intro nth_equalityI) simp_all
  with 0 show ?case by (simp add: round_from_def due_def)
next
  case (Suc n)
  let ?c = "unat (reap_start s)"
  let ?x = "slot_expired now (es ! ?c)"
  let ?es = "if ?x then es[?c := tombstone_entry] else es"
  have len: "length ?es = length es" by simp
  from reap_slot_step [OF Suc.prems, of now r] obtain s1 where
    s1: "reap_slot now s r = Some (s1, if ?x then r + 1 else r)" "kv_inv s1"
      "ds_rep (kv_entries s1) ?es ks_kv_hash" "kv_reaper_cursor s1 = reap_start s + 1"
      "kv_clock s1 = kv_clock s" "ds_capacity (kv_entries s1) = ds_capacity (kv_entries s)" .
  note c = reap_start_less [OF Suc.prems(2)]
  let ?V = "round_from (length es) (unat (reap_start s1)) n"
  have V: "round_from (length es) ?c (Suc n) = insert ?c ?V"
    using round_from_Suc [OF c, of n] next_start [OF Suc.prems(2) s1(4,6)] by simp
  from Suc.IH [OF s1(2,3), of "if ?x then r + 1 else r", unfolded len] obtain s2 where
    s2: "reap_loop n now s1 (if ?x then r + 1 else r) =
        Some (s2, (if ?x then r + 1 else r) + of_nat (card (due now ?V ?es)))" "kv_inv s2"
      "ds_rep (kv_entries s2) (swept now ?V ?es) ks_kv_hash"
      "ds_capacity (kv_entries s2) = ds_capacity (kv_entries s1)" "kv_clock s2 = kv_clock s1"
    by blast
  have "(if ?x then r + 1 else r) + of_nat (card (due now ?V ?es)) =
      r + of_nat (card (due now (insert ?c ?V) es))"
    unfolding due_step [OF c] by simp
  with s1 s2 show ?case
    unfolding V swept_step [OF c, symmetric] by (intro exI [of _ s2]) simp
qed

section \<open>What a sweep does to the bindings\<close>

lemma kv_map_slots:
  assumes "ds_rep (kv_entries s) es hf"
  shows "kv_map s k = Some v \<longleftrightarrow>
    (\<exists>i < length es. occ (es ! i) \<and> e_key (es ! i) = Some k \<and> e_value (es ! i) = Some v)"
proof -
  have "kv_map s k = Some v \<longleftrightarrow> ds_map (kv_entries s) k = Some (Some v)"
    by (simp add: kv_map_def tab_map_def split: option.split)
  then show ?thesis
    by (simp add: ds_map_def ds_repD(9) [OF assms] map_of_es_pairs [OF ds_repD(4) [OF assms]])
qed

lemma swept_map:
  assumes s: "ds_rep (kv_entries s) es hf" and s': "ds_rep (kv_entries s') (swept now V es) hf"
  shows "kv_map s' k = Some v \<longleftrightarrow> (\<exists>i < length es. occ (es ! i) \<and> e_key (es ! i) = Some k \<and>
    e_value (es ! i) = Some v \<and> \<not> (i \<in> V \<and> expired now v))"
proof -
  have "occ (swept now V es ! i) \<and> e_key (swept now V es ! i) = Some k \<and>
      e_value (swept now V es ! i) = Some v \<longleftrightarrow> occ (es ! i) \<and> e_key (es ! i) = Some k \<and>
      e_value (es ! i) = Some v \<and> \<not> (i \<in> V \<and> expired now v)" if "i < length es" for i
    using that by (auto simp: slot_expired_def)
  then show ?thesis unfolding kv_map_slots [OF s'] swept_nth(1) by blast
qed

lemma swept_kv_map:
  assumes s: "ds_rep (kv_entries s) es hf" and s': "ds_rep (kv_entries s') (swept now V es) hf"
  shows "kv_map s' \<subseteq>\<^sub>m kv_map s" "same_live now s s'"
    "{..<length es} \<subseteq> V \<Longrightarrow> kv_map s' = kv_live now s"
proof -
  note map = swept_map [OF s s'] and map0 = kv_map_slots [OF s]
  show sub: "kv_map s' \<subseteq>\<^sub>m kv_map s"
    unfolding map_le_def by (metis domD map map0)
  have keep: "kv_map s' k = Some v" if "kv_map s k = Some v" "\<not> expired now v" for k v
    using that unfolding map map0 by auto
  have le: "kv_map s k = Some v" if "kv_map s' k = Some v" for k v
    using that unfolding map map0 by auto
  have "kv_live t s' k = Some v \<longleftrightarrow> kv_live t s k = Some v" if "now \<le> t" for t k v
    using keep [of k v] le [of k v] expired_mono [OF _ that] by (auto simp: kv_live_iff)
  then show "same_live now s s'"
    unfolding same_live_def by (metis ext not_None_eq)
  assume V: "{..<length es} \<subseteq> V"
  then have "kv_map s' k = Some v \<longleftrightarrow> kv_live now s k = Some v" for k v
    unfolding map kv_live_iff map0 by auto
  then show "kv_map s' = kv_live now s" by (metis ext not_None_eq)
qed

lemma card_due:
  "length (filter occ (swept now V es)) + card (due now V es) = length (filter occ es)"
proof -
  let ?A = "{i. i < length es \<and> occ (swept now V es ! i)}" and ?B = "due now V es"
  have "{i. i < length es \<and> occ (es ! i)} = ?A \<union> ?B"
    by (auto simp: due_def slot_expired_def split: if_splits)
  moreover have "?A \<inter> ?B = {}" by (auto simp: due_def)
  moreover have "finite ?B" by (rule finite_subset [of _ "{..<length es}"]) (auto simp: due_def)
  ultimately have "card {i. i < length es \<and> occ (es ! i)} = card ?A + card ?B"
    by (simp add: card_Un_disjoint)
  then show ?thesis by (simp add: length_filter_conv_card)
qed

lemma card_due_le: "card (due now (round_from cap c n) es) \<le> n"
proof -
  have "card (due now (round_from cap c n) es) \<le> card (round_from cap c n)"
    by (rule card_mono) (auto simp: due_def round_from_def)
  also have "\<dots> \<le> n" unfolding round_from_def by (rule order_trans [OF card_image_le]) simp_all
  finally show ?thesis .
qed

lemma dom_kv_map_card:
  assumes "kv_inv s"
  shows "card (dom (kv_map s)) = unat (ks_ds_size (kv_entries s))"
  using ds_size_card [OF kv_invD(3) [OF assms]] dom_tab_map [OF kv_invD(1) [OF assms]]
  by (simp add: kv_map_def)

lemma kv_reap:
  assumes inv: "kv_inv s" and b: "budget \<noteq> 0"
  obtains s' r where "ks_kv_reap s budget = Some (r, s')" "kv_inv s'"
    "same_live (kv_now s) s s'" "kv_map s' \<subseteq>\<^sub>m kv_map s"
    "card (dom (kv_map s)) = unat r + card (dom (kv_map s'))" "unat r \<le> unat budget"
    "ds_capacity (kv_entries s) \<le> budget \<Longrightarrow> kv_map s' = kv_live (kv_now s) s"
proof -
  from kv_invD(2,3) [OF inv] obtain es where t: "ds_rep (kv_entries s) es ks_kv_hash"
    by (auto simp: ds_inv_def ds_rep_def)
  obtain clk where clk: "ks_ttl_now (kv_clock s) = (kv_now s, clk)"
    by (cases "ks_ttl_now (kv_clock s)") (simp add: kv_now_def)
  let ?s = "s\<lparr>kv_clock := clk\<rparr>" and ?n = "unat budget"
  have inv1: "kv_inv ?s" using kv_inv_clock [OF inv] clk by simp
  have t1: "ds_rep (kv_entries ?s) es ks_kv_hash" using t by simp
  let ?V = "round_from (length es) (unat (reap_start ?s)) ?n"
  let ?r = "of_nat (card (due (kv_now s) ?V es)) :: u64"
  from reap_loop_sweeps [OF inv1 t1, of ?n "kv_now s" 0] obtain s' where
    s': "reap_loop ?n (kv_now s) ?s 0 = Some (s', ?r)" "kv_inv s'"
      "ds_rep (kv_entries s') (swept (kv_now s) ?V es) ks_kv_hash" by auto
  have run: "ks_kv_reap s budget = Some (?r, s')"
    using b s'(1) clk ds_repD(1) [OF t] by (simp add: ks_kv_reap_def)
  note sw = swept_kv_map [OF t1 s'(3)]
  have "card (due (kv_now s) ?V es) \<le> ?n" by (rule card_due_le)
  then have r: "unat ?r = card (due (kv_now s) ?V es)"
    using unsigned_less [of budget, where ?'a = nat] by (simp add: unsigned_of_nat take_bit_nat_eq_self)
  have cnt: "card (dom (kv_map s)) = unat ?r + card (dom (kv_map s'))"
    using card_due [of "kv_now s" ?V es] ds_repD(6) [OF t] ds_repD(6) [OF s'(3)]
    unfolding r dom_kv_map_card [OF inv] dom_kv_map_card [OF s'(2)] by (simp add: ks_ds_size_def)
  have all: "kv_map s' = kv_live (kv_now s) s" if "ds_capacity (kv_entries s) \<le> budget"
  proof -
    from that have "length es \<le> ?n" using ds_repD(5) [OF t] by (simp add: word_le_nat_alt)
    from sw(3) [OF round_from_all [OF reap_start_less [OF t1] this]] show ?thesis
      using kv_live_cong [of ?s s] by simp
  qed
  have "same_live (kv_now s) s s'"
    by (rule same_live_trans [OF same_live_map sw(2)]) simp
  with run s'(2) sw(1) cnt r card_due_le all show thesis
    by (intro that [of ?r s']) simp_all
qed

lemma kv_size:
  assumes inv: "kv_inv s"
  obtains n s' where "ks_kv_size s = Some (n, s')" "kv_inv s'" "same_live (kv_now s) s s'"
    "kv_map s' = kv_live (kv_now s) s" "unat n = card (dom (kv_live (kv_now s) s))"
proof -
  let ?c = "ds_capacity (kv_entries s)"
  have "?c \<noteq> 0" using ds_inv_bounds(2) [OF kv_invD(3) [OF inv]] by auto
  from kv_reap [OF inv this] obtain r s' where
    "ks_kv_reap s ?c = Some (r, s')" "kv_inv s'" "same_live (kv_now s) s s'"
    "kv_map s' = kv_live (kv_now s) s" by (metis order_refl)
  then show thesis
    using dom_kv_map_card [of s'] by (intro that [of "ks_ds_size (kv_entries s')" s'])
      (simp_all add: ks_kv_size_def)
qed

section \<open>The life of a store\<close>

lemma kv_init:
  assumes "ks_kv_init_with_clock al clock = Some s"
  shows "kv_inv s" "kv_map s = Map.empty" "kv_clock s = clock"
proof -
  from assms obtain t where t: "ks_ds_init al (Some ks_kv_hash) (Some (=)) True True = Some t"
    "s = \<lparr>kv_entries = t, kv_clock = clock, kv_reaper_cursor = 0\<rparr>" "clk_now clock \<noteq> None"
    by (auto simp: ks_kv_init_with_clock_def ks_kv_equal_eq split: if_splits bind_splits)
  note i = ks_ds_init_inv [OF t(1)]
  show m: "kv_map s = Map.empty" using i(2) t(2) by (simp add: kv_map_def tab_map_def fun_eq_iff)
  show "kv_inv s" using i t m by (simp add: kv_inv_def tab_inv_def)
  show "kv_clock s = clock" using t(2) by simp
qed

end
