(* ===== verification/Kessel_Kv_Store.thy ===== *)
theory Kessel_Kv_Store
  imports Kessel_Kv_Reap
begin

text \<open>
  The interface of the key-value store and its client lemmas. Every operation of the store is
  one step on a state whose future is known: \<open>live t s\<close> is what the store holds at time
  \<open>t\<close> if nothing more is done to it. A step returns, does not go back in time, and changes
  that future only at the keys it names. From this the locale derives that a history of
  operations returns and leaves every key it does not name as it would have been.
\<close>

section \<open>The operations as one step function\<close>

datatype kv_op =
    Op_Set allocator string bytes u64
  | Op_Get string
  | Op_Delete string
  | Op_Exists string
  | Op_Expire string u64
  | Op_Ttl string
  | Op_Reap u64
  | Op_Size

datatype kv_answer =
    Ans_Set ks_kv_set_result
  | Ans_Get "bytes option" u64
  | Ans_Bool bool
  | Ans_Expire ks_kv_expire_result
  | Ans_Ttl int
  | Ans_Count u64

fun kv_step :: "kv_op \<Rightarrow> ks_kv \<Rightarrow> (kv_answer \<times> ks_kv) option" where
  "kv_step (Op_Set al k val ttl) s =
     map_option (apfst Ans_Set) (ks_kv_set_ex al s (Some k) (Some val) (of_nat (length val)) ttl)"
| "kv_step (Op_Get k) s =
     map_option (\<lambda>(d, n, s'). (Ans_Get d n, s')) (ks_kv_get s (Some k))"
| "kv_step (Op_Delete k) s = map_option (apfst Ans_Bool) (ks_kv_delete s (Some k))"
| "kv_step (Op_Exists k) s = map_option (apfst Ans_Bool) (ks_kv_exists s (Some k))"
| "kv_step (Op_Expire k ttl) s = map_option (apfst Ans_Expire) (ks_kv_expire s (Some k) ttl)"
| "kv_step (Op_Ttl k) s = map_option (apfst Ans_Ttl) (ks_kv_ttl s (Some k))"
| "kv_step (Op_Reap b) s = map_option (apfst Ans_Count) (ks_kv_reap s b)"
| "kv_step Op_Size s = map_option (apfst Ans_Count) (ks_kv_size s)"

fun op_key :: "kv_op \<Rightarrow> string option" where
  "op_key (Op_Set al k val ttl) = Some k"
| "op_key (Op_Delete k) = Some k"
| "op_key (Op_Expire k ttl) = Some k"
| "op_key _ = None"

fun kv_run :: "kv_op list \<Rightarrow> ks_kv \<Rightarrow> (kv_answer list \<times> ks_kv) option" where
  "kv_run [] s = Some ([], s)"
| "kv_run (op # ops) s = do {
     (a, s') \<leftarrow> kv_step op s; (as, s'') \<leftarrow> kv_run ops s'; Some (a # as, s'') }"

definition store_inv :: "ks_kv \<Rightarrow> bool" where
  "store_inv s \<longleftrightarrow> kv_inv s \<and> monotonic (kv_clock s)"

section \<open>The interface\<close>

locale expiring_store =
  fixes invar :: "'s \<Rightarrow> bool"
    and now :: "'s \<Rightarrow> 't :: linorder"
    and live :: "'t \<Rightarrow> 's \<Rightarrow> 'k \<rightharpoonup> 'v"
    and step :: "'op \<Rightarrow> 's \<Rightarrow> ('a \<times> 's) option"
    and writes :: "'op \<Rightarrow> 'k option"
  assumes step_returns: "invar s \<Longrightarrow> \<exists>a s'. step op s = Some (a, s')"
    and step_invar: "invar s \<Longrightarrow> step op s = Some (a, s') \<Longrightarrow> invar s'"
    and step_time: "invar s \<Longrightarrow> step op s = Some (a, s') \<Longrightarrow> now s \<le> now s'"
    and step_frame: "invar s \<Longrightarrow> step op s = Some (a, s') \<Longrightarrow> max (now s) (now s') \<le> t \<Longrightarrow>
          writes op \<noteq> Some k \<Longrightarrow> live t s' k = live t s k"
begin

fun run :: "'op list \<Rightarrow> 's \<Rightarrow> ('a list \<times> 's) option" where
  "run [] s = Some ([], s)"
| "run (op # ops) s = do {
     (a, s') \<leftarrow> step op s; (as, s'') \<leftarrow> run ops s'; Some (a # as, s'') }"

lemma run_returns:
  assumes "invar s"
  shows "\<exists>as s'. run ops s = Some (as, s') \<and> invar s' \<and> now s \<le> now s' \<and> length as = length ops"
  using assms
proof (induction ops arbitrary: s)
  case (Cons op ops)
  from step_returns [OF Cons.prems] obtain a s1 where s1: "step op s = Some (a, s1)" by blast
  from Cons.IH [OF step_invar [OF Cons.prems s1]] step_time [OF Cons.prems s1] s1
  show ?case by fastforce
qed simp

lemma run_frame:
  assumes "invar s" "run ops s = Some (as, s')" "now s' \<le> t" "\<forall>op \<in> set ops. writes op \<noteq> Some k"
  shows "live t s' k = live t s k"
  using assms
proof (induction ops arbitrary: s as)
  case (Cons op ops)
  from Cons.prems(2) obtain a s1 bs where s1: "step op s = Some (a, s1)" "run ops s1 = Some (bs, s')"
    by (auto split: bind_splits)
  note inv1 = step_invar [OF Cons.prems(1) s1(1)]
  from run_returns [OF inv1, of ops] s1(2) Cons.prems(3) have "now s1 \<le> t" by auto
  moreover from this step_time [OF Cons.prems(1) s1(1)] have "max (now s) (now s1) \<le> t" by simp
  ultimately show ?case
    using Cons.IH [OF inv1 s1(2) Cons.prems(3)] step_frame [OF Cons.prems(1) s1(1)] Cons.prems(4)
    by simp
qed simp

end

section \<open>The clock only advances\<close>

definition later :: "ks_kv \<Rightarrow> ks_kv \<Rightarrow> bool" where
  "later s s' \<longleftrightarrow> clk_now (kv_clock s') = clk_now (kv_clock s) \<and>
     clk_context (kv_clock s) \<le> clk_context (kv_clock s')"

lemma later_refl: "kv_clock s' = kv_clock s \<Longrightarrow> later s s'"
  by (simp add: later_def)

lemma later_trans: "later s s' \<Longrightarrow> later s' s'' \<Longrightarrow> later s s''"
  by (auto simp: later_def)

lemma later_tick:
  assumes "ks_ttl_now (kv_clock s) = (n, kv_clock s')" shows "later s s'"
proof -
  from assms have "kv_clock s' = snd (ks_ttl_now (kv_clock s))" by simp
  then show ?thesis by (simp add: later_def ks_ttl_now_def split: option.split)
qed

lemma later_now:
  assumes "later s s'" "monotonic (kv_clock s)"
  shows "kv_now s \<le> kv_now s'" "monotonic (kv_clock s')"
  using assms
  by (auto simp: later_def monotonic_def kv_now_def ks_ttl_now_def mono_def split: option.splits)

lemmas later_splits = if_splits option.splits bind_splits prod.splits

lemma find_live_later:
  assumes "ks_kv_find_live s k = Some (v, s')" shows "later s s'"
  using assms
  by (auto simp: ks_kv_find_live_def Let_def split: later_splits intro: later_refl later_tick)

lemma after_find_live:
  assumes "ks_kv_find_live s k = Some (v, s1)" "kv_clock s' = kv_clock s1 \<or>
    (\<exists>n. ks_ttl_now (kv_clock s1) = (n, kv_clock s'))"
  shows "later s s'"
  using assms later_trans [OF find_live_later later_refl] later_trans [OF find_live_later later_tick]
  by blast

lemma reap_slot_clock: "reap_slot now s r = Some (s', r') \<Longrightarrow> kv_clock s' = kv_clock s"
  by (auto simp: reap_slot_def Let_def split: later_splits)

lemma reap_loop_clock: "reap_loop n now s r = Some (s', r') \<Longrightarrow> kv_clock s' = kv_clock s"
proof (induction n arbitrary: s r)
  case (Suc n)
  then obtain s1 r1 where "reap_slot now s r = Some (s1, r1)" "reap_loop n now s1 r1 = Some (s', r')"
    by (auto split: bind_splits)
  with Suc.IH show ?case by (simp add: reap_slot_clock)
qed simp

lemma reap_later: "ks_kv_reap s b = Some (r, s') \<Longrightarrow> later s s'"
  by (auto simp: ks_kv_reap_def split: later_splits
      intro: later_refl later_tick dest!: reap_loop_clock)

lemma write_deadline_clock: "write_deadline s k d = Some s' \<Longrightarrow> kv_clock s' = kv_clock s"
  by (auto simp: write_deadline_def Let_def split: later_splits)

lemma set_ex_later: "ks_kv_set_ex al s k v n ttl = Some (r, s') \<Longrightarrow> later s s'"
  by (auto simp: ks_kv_set_ex_def Let_def split: later_splits
      intro: later_refl after_find_live)

lemma set_after_find:
  assumes "ks_kv_set_ex al s k v n ttl = Some (r, s')" "r \<noteq> KS_KV_SET_ERROR"
    "ks_kv_find_live s k = Some (w, s1)"
  shows "later s1 s'"
  using assms
  by (auto simp: ks_kv_set_ex_def Let_def split: later_splits intro: later_refl later_tick)

lemma expire_later: "ks_kv_expire s k ttl = Some (r, s') \<Longrightarrow> later s s'"
  by (auto simp: ks_kv_expire_def Let_def split: later_splits dest!: write_deadline_clock
      intro: after_find_live)

lemma ttl_after_find:
  assumes "ks_kv_ttl s k = Some (r, s')" "ks_kv_find_live s k = Some (v, s1)" shows "later s1 s'"
  using assms
  by (auto simp: ks_kv_ttl_def Let_def split: later_splits intro: later_refl later_tick)

lemma ttl_later: "ks_kv_ttl s k = Some (r, s') \<Longrightarrow> later s s'"
  by (auto simp: ks_kv_ttl_def Let_def split: later_splits intro: after_find_live)

lemma kv_step_later:
  assumes "kv_step op s = Some (a, s')" shows "later s s'"
  using assms
proof (cases op)
  case (Op_Get k)
  with assms show ?thesis by (auto simp: ks_kv_get_def split: later_splits intro: after_find_live)
next
  case (Op_Delete k)
  with assms show ?thesis by (auto simp: ks_kv_delete_def split: later_splits intro: after_find_live)
next
  case (Op_Exists k)
  with assms show ?thesis by (auto simp: ks_kv_exists_def split: later_splits intro: after_find_live)
next
  case Op_Size
  with assms show ?thesis by (auto simp: ks_kv_size_def split: later_splits dest: reap_later)
qed (auto dest: set_ex_later expire_later ttl_later reap_later)

section \<open>The store provides the interface\<close>

lemma same_live_at: "same_live n s s' \<Longrightarrow> n \<le> t \<Longrightarrow> kv_live t s' k = kv_live t s k"
  by (simp add: same_live_def)

lemma unat_length_le: "unat (of_nat (length val) :: u64) \<le> length val"
  by (simp add: unsigned_of_nat take_bit_eq_mod)

text \<open>What one operation does: it returns, keeps the invariant, and writes one key at most.\<close>

lemma set_ex_step:
  assumes "kv_inv s"
  shows "\<exists>r s'. ks_kv_set_ex al s (Some k) (Some val) (of_nat (length val)) ttl = Some (r, s') \<and> kv_inv s' \<and>
    (\<forall>t k'. kv_now s \<le> t \<longrightarrow> k' \<noteq> k \<longrightarrow> kv_live t s' k' = kv_live t s k')"
proof (cases rule: set_ex_cases [OF assms unat_length_le [of val], of k ttl al, case_names stored refused])
  case (stored s1 s' d)
  with live_after_set [OF stored(5,6)] show ?thesis by simp
next
  case (refused s1 s')
  then show ?thesis by (auto simp: same_live_at)
qed

lemma expire_step:
  assumes "kv_inv s"
  shows "\<exists>r s'. ks_kv_expire s (Some k) ttl = Some (r, s') \<and> kv_inv s' \<and>
    (\<forall>t k'. kv_now s \<le> t \<longrightarrow> k' \<noteq> k \<longrightarrow> kv_live t s' k' = kv_live t s k')"
proof (cases "ttl = 0")
  case True
  with kv_expire_zero [OF assms, of k] show ?thesis by auto
next
  case False
  show ?thesis
  proof (cases rule: kv_expire_cases [OF assms False, of k, case_names updated missing refused])
    case (updated s1 s' v d)
    with live_after_set [OF updated(6,7)] show ?thesis by simp
  next
    case (missing s')
    then show ?thesis by (auto simp: same_live_at)
  next
    case (refused s1 s' v)
    then show ?thesis by (auto simp: same_live_at)
  qed
qed

lemma ttl_step:
  assumes "store_inv s"
  shows "\<exists>r s'. ks_kv_ttl s (Some k) = Some (r, s') \<and> kv_inv s' \<and>
    (\<forall>t k'. kv_now s \<le> t \<longrightarrow> kv_now s' \<le> t \<longrightarrow> kv_live t s' k' = kv_live t s k')"
proof (rule kv_ttl [of s k])
  show "kv_inv s" using assms by (simp add: store_inv_def)
  fix s1 s'
  assume f: "ks_kv_find_live s (Some k) = Some (kv_live (kv_now s) s k, s1)"
    "ks_kv_ttl s (Some k) = Some (ttl_answer (kv_now s1) (kv_live (kv_now s) s k), s')" "kv_inv s'"
    "\<And>t. kv_now s \<le> t \<Longrightarrow> kv_now s1 \<le> t \<Longrightarrow> kv_live t s' = kv_live t s"
  have "monotonic (kv_clock s1)"
    using later_now(2) [OF find_live_later [OF f(1)]] assms by (simp add: store_inv_def)
  from later_now(1) [OF ttl_after_find [OF f(2,1)] this] have "kv_now s1 \<le> kv_now s'" .
  with f show ?thesis by (auto intro: order_trans)
qed

lemma reap_step:
  assumes "kv_inv s"
  shows "\<exists>r s'. ks_kv_reap s b = Some (r, s') \<and> kv_inv s' \<and> same_live (kv_now s) s s'"
proof (cases "b = 0")
  case True
  with assms show ?thesis by (simp add: ks_kv_reap_def same_live_refl)
next
  case False
  from kv_reap [OF assms this] show ?thesis by metis
qed

lemma kv_step_spec:
  assumes "store_inv s"
  shows "\<exists>a s'. kv_step op s = Some (a, s') \<and> kv_inv s' \<and>
    (\<forall>t k. kv_now s \<le> t \<longrightarrow> kv_now s' \<le> t \<longrightarrow> op_key op \<noteq> Some k \<longrightarrow> kv_live t s' k = kv_live t s k)"
proof -
  have inv: "kv_inv s" using assms by (simp add: store_inv_def)
  show ?thesis
  proof (cases op)
    case (Op_Set al k val ttl)
    from set_ex_step [OF inv, of al k val ttl] Op_Set show ?thesis by auto
  next
    case (Op_Get k)
    from kv_get [OF inv, of k] Op_Get show ?thesis
      by (cases "kv_live (kv_now s) s k") (auto simp: same_live_at)
  next
    case (Op_Delete k)
    from kv_delete [OF inv, of k] Op_Delete show ?thesis by auto
  next
    case (Op_Exists k)
    from kv_exists [OF inv, of k] Op_Exists show ?thesis by (auto simp: same_live_at)
  next
    case (Op_Expire k ttl)
    from expire_step [OF inv, of k ttl] Op_Expire show ?thesis by auto
  next
    case (Op_Ttl k)
    from ttl_step [OF assms, of k] Op_Ttl show ?thesis by auto
  next
    case (Op_Reap b)
    from reap_step [OF inv, of b] Op_Reap show ?thesis by (auto simp: same_live_at)
  next
    case Op_Size
    from kv_size [OF inv] Op_Size show ?thesis by (metis (no_types, lifting) apfst_conv kv_step.simps(8) option.simps(9) same_live_at)
  qed
qed

interpretation kv: expiring_store store_inv kv_now kv_live kv_step op_key
proof unfold_locales
  fix s op a s'
  assume s: "store_inv s"
  from kv_step_spec [OF s, of op] show "\<exists>a s'. kv_step op s = Some (a, s')" by blast
  assume st: "kv_step op s = Some (a, s')"
  have mono: "monotonic (kv_clock s)" using s by (simp add: store_inv_def)
  show "kv_now s \<le> kv_now s'" by (rule later_now(1) [OF kv_step_later [OF st] mono])
  show "store_inv s'"
    using kv_step_spec [OF s, of op] st later_now(2) [OF kv_step_later [OF st] mono]
    by (simp add: store_inv_def)
  show "kv_live t s' k = kv_live t s k" if "max (kv_now s) (kv_now s') \<le> t" "op_key op \<noteq> Some k" for t k
    using kv_step_spec [OF s, of op] st that by simp
qed

section \<open>Client lemmas on the store\<close>

lemma kv_run_eq: "kv_run ops s = kv.run ops s"
  by (induction ops arbitrary: s) simp_all

text \<open>The value a key has after a store, whatever is done to other keys in between.\<close>

lemma set_deadline_props:
  assumes "set_deadline now ttl = Some d"
  shows "d = 0 \<longleftrightarrow> ttl = 0" "ttl \<noteq> 0 \<Longrightarrow> unat d = unat now + unat ttl * 1000"
  using assms ks_ttl_deadline_after(2) [of now ttl d]
  by (auto simp: set_deadline_def ks_ttl_deadline_exact split: if_splits)

lemma new_value_data:
  assumes "length val < 2 ^ 64"
  shows "v_data (new_value val (of_nat (length val)) d) = val @ [NUL]"
  using assms by (simp add: new_value_def unsigned_of_nat take_bit_nat_eq_self)

lemma get_after_set:
  assumes s: "store_inv s"
    and set: "ks_kv_set_ex al s (Some k) (Some val) (of_nat (length val)) ttl = Some (r, s1)"
      "r \<noteq> KS_KV_SET_ERROR"
    and len: "length val < 2 ^ 64"
    and run: "kv.run ops s1 = Some (as, s2)" "\<forall>op \<in> set ops. op_key op \<noteq> Some k"
  shows "\<exists>live s0 d s3. ks_kv_find_live s (Some k) = Some (live, s0) \<and>
    kv_now s \<le> kv_now s0 \<and> kv_now s0 \<le> kv_now s1 \<and>
    (d = 0 \<longleftrightarrow> ttl = 0) \<and> (ttl \<noteq> 0 \<longrightarrow> unat d = unat (kv_now s0) + unat ttl * 1000) \<and>
    ks_kv_get s2 (Some k) = Some (if d \<noteq> 0 \<and> d \<le> kv_now s2 then (None, 0, s3)
      else (Some (val @ [NUL]), of_nat (length val), s3))"
proof -
  have inv: "kv_inv s" and mono: "monotonic (kv_clock s)" using s by (simp_all add: store_inv_def)
  let ?nv = "new_value val (of_nat (length val))"
  from set_ex_cases [OF inv unat_length_le [of val], of k ttl al] set obtain sA d where
    st: "ks_kv_find_live s (Some k) = Some (kv_live (kv_now s) s k, sA)"
      "set_deadline (kv_now sA) ttl = Some d" "kv_map s1 = (kv_map sA)(k \<mapsto> ?nv d)"
    by (metis option.sel prod.sel)
  have step: "kv_step (Op_Set al k val ttl) s = Some (Ans_Set r, s1)" using set(1) by simp
  note inv1 = kv.step_invar [OF s step]
  from kv.run_returns [OF inv1, of ops] run(1) have s2: "kv_inv s2" by (auto simp: store_inv_def)
  have "kv_live (kv_now s2) s2 k = kv_live (kv_now s2) s1 k"
    by (rule kv.run_frame [OF inv1 run(1) order_refl run(2)])
  also have "\<dots> = (if d \<noteq> 0 \<and> d \<le> kv_now s2 then None else Some (?nv d))"
    by (simp add: kv_live_def st(3) expired_def new_value_def)
  finally have live: "kv_live (kv_now s2) s2 k = \<dots>" .
  have size: "v_size (?nv d) = of_nat (length val)" by (simp add: new_value_def)
  from kv_get [OF s2, of k] obtain s3 where "ks_kv_get s2 (Some k) =
      Some (if d \<noteq> 0 \<and> d \<le> kv_now s2 then (None, 0, s3)
        else (Some (val @ [NUL]), of_nat (length val), s3))"
    unfolding live by (auto simp: new_value_data [OF len] size split: if_splits)
  moreover have "kv_now s \<le> kv_now sA" by (rule later_now(1) [OF find_live_later [OF st(1)] mono])
  moreover have "kv_now sA \<le> kv_now s1"
    by (rule later_now(1) [OF set_after_find [OF set st(1)] later_now(2) [OF find_live_later [OF st(1)] mono]])
  ultimately show ?thesis
    using st(1) set_deadline_props [OF st(2)] by blast
qed

section \<open>Properties\<close>

text \<open>
  The input of the examples: a clock that reads 1000 three times and then 9000, and a store in
  which \<open>''k''\<close> was set with five seconds to live at the first reading.
\<close>

definition ex_clock :: ks_ttl_clock where
  "ex_clock = \<lparr>clk_now = Some (\<lambda>i. if i < 3 then 1000 else 9000), clk_context = 0\<rparr>"

definition ex_fresh :: ks_kv where
  "ex_fresh = (case ks_kv_init_with_clock mem_ok ex_clock of Some s \<Rightarrow> s
     | None \<Rightarrow> \<lparr>kv_entries = zero_ds, kv_clock = ex_clock, kv_reaper_cursor = 0\<rparr>)"

definition ex_store :: ks_kv where
  "ex_store = (case ks_kv_set_ex mem_ok ex_fresh (Some ''k'') (Some ''v'') 1 5 of
     Some (r, s) \<Rightarrow> s | None \<Rightarrow> ex_fresh)"

lemma ex_fresh:
  "ks_kv_init_with_clock mem_ok ex_clock = Some ex_fresh"
  "store_inv ex_fresh" "kv_map ex_fresh = Map.empty" "kv_clock ex_fresh = ex_clock"
  "ds_capacity (kv_entries ex_fresh) = 8"
proof -
  show i: "ks_kv_init_with_clock mem_ok ex_clock = Some ex_fresh"
    using mem_ok_calloc [of 8 sizeof_ks_ds_entry Site_ds_entries]
    by (simp add: ex_fresh_def ks_kv_init_with_clock_def ex_clock_def ks_ds_init_def
        sizeof_ks_ds_entry_def KS_DS_INITIAL_CAPACITY_def)
  note f = kv_init [OF i]
  show "kv_map ex_fresh = Map.empty" "kv_clock ex_fresh = ex_clock" using f by simp_all
  show "store_inv ex_fresh"
    using f by (auto simp: store_inv_def monotonic_def ex_clock_def mono_def)
  show "ds_capacity (kv_entries ex_fresh) = 8"
    using i by (auto simp: ks_kv_init_with_clock_def ks_ds_init_def KS_DS_INITIAL_CAPACITY_def
        split: if_splits bind_splits dest!: arg_cong [where f = "\<lambda>s. ds_capacity (kv_entries s)"])
qed

lemma ex_store:
  "ks_kv_set_ex mem_ok ex_fresh (Some ''k'') (Some ''v'') 1 5 = Some (KS_KV_SET_INSERTED, ex_store)"
  "store_inv ex_store" "kv_map ex_store = [''k'' \<mapsto> new_value ''v'' 1 6000]" "kv_now ex_store = 1000"
proof -
  have inv: "kv_inv ex_fresh" using ex_fresh(2) by (simp add: store_inv_def)
  let ?s = "ex_fresh\<lparr>kv_clock := ex_clock\<lparr>clk_context := 1\<rparr>\<rparr>"
  have f: "ks_kv_find_live ex_fresh (Some ''k'') = Some (None, ex_fresh)"
    using kv_get_raw [OF inv, of "''k''"] ex_fresh(3) by (simp add: ks_kv_find_live_def)
  have now: "ks_ttl_now (kv_clock ex_fresh) = (1000, ex_clock\<lparr>clk_context := 1\<rparr>)"
    by (simp add: ex_fresh(4) ks_ttl_now_def ex_clock_def)
  have s: "kv_inv ?s" using kv_inv_clock [OF inv] now by simp
  have "ks_kv_copy_key mem_ok ''k'' \<noteq> None" "ks_kv_copy_value mem_ok ''v'' 1 6000 \<noteq> None"
    using unat_SIZE_MAX by (simp_all add: ks_kv_copy_key_def ks_kv_copy_value_def c_malloc_def
        mem_ok_def sizeof_ks_kv_value_def SIZE_MAX_def)
  moreover have "set_deadline 1000 5 = Some 6000"
    by (simp add: set_deadline_def ks_ttl_deadline_def UINT64_MAX_def)
  ultimately have go: "ks_kv_set_ex mem_ok ex_fresh (Some ''k'') (Some ''v'') 1 5 = do {
      (result, entries, ev) \<leftarrow> ks_ds_put mem_ok (kv_entries ?s) (Some ''k'') (Some (new_value ''v'' 1 6000));
      Some (case result of KS_DS_PUT_ERROR \<Rightarrow> KS_KV_SET_ERROR
              | KS_DS_PUT_INSERTED \<Rightarrow> KS_KV_SET_INSERTED | KS_DS_PUT_REPLACED \<Rightarrow> KS_KV_SET_REPLACED,
            ?s\<lparr>kv_entries := entries\<rparr>) }"
    by (auto simp add: set_ex_split [OF f now] Let_def)
  have "\<exists>s'. ks_kv_set_ex mem_ok ex_fresh (Some ''k'') (Some ''v'') 1 5 = Some (KS_KV_SET_INSERTED, s') \<and>
      kv_inv s' \<and> kv_map s' = [''k'' \<mapsto> new_value ''v'' 1 6000] \<and> kv_clock s' = kv_clock ?s"
  proof (cases rule: kv_put_cases [OF s value_ok_new [of 1 "''v''" 6000], of mem_ok "''k''",
      case_names size replaced inserted no_memory])
    case (no_memory c)
    with ex_fresh(5) have "unat c < 2 ^ 32" by auto
    with no_memory(3) mem_ok_calloc [of c] show ?thesis by (simp add: sizeof_ks_ds_entry_def)
  qed (use go ex_fresh(3) in auto)
  then show set: "ks_kv_set_ex mem_ok ex_fresh (Some ''k'') (Some ''v'') 1 5 =
      Some (KS_KV_SET_INSERTED, ex_store)" "store_inv ex_store"
    "kv_map ex_store = [''k'' \<mapsto> new_value ''v'' 1 6000]" "kv_now ex_store = 1000"
    by (auto simp: ex_store_def store_inv_def kv_now_def ks_ttl_now_def ex_clock_def monotonic_def mono_def)
qed

lemma ex_live: "kv_inv ex_store" "kv_live 1000 ex_store = [''k'' \<mapsto> new_value ''v'' 1 6000]"
  using ex_store(2) by (auto simp: store_inv_def kv_live_def ex_store(3) expired_def new_value_def fun_eq_iff)

text \<open>
  C5. Read your write. After a successful \<open>ks_kv_set_ex\<close>, and then any sequence of
  operations of the store (stores with any allocation failures, reads, deletions, expiries,
  reaping) that do not write the key, \<open>ks_kv_get\<close> returns exactly the bytes that were
  stored and their number until the deadline, and nothing from the deadline on. There is a
  deadline exactly when a time to live was given, and then it is that many seconds after the
  time \<open>kv_now s0\<close> that the call reads after its lookup, a time between the first reading of
  the call and its end. The whole history returns.
\<close>

theorem kv_read_your_write:
  assumes "store_inv s"
    and "ks_kv_set_ex al s (Some k) (Some val) (of_nat (length val)) ttl = Some (r, s1)"
      "r \<noteq> KS_KV_SET_ERROR" "length val < 2 ^ 64"
    and "\<forall>op \<in> set ops. op_key op \<noteq> Some k"
  shows "\<exists>as s2 live s0 d s3. kv_run ops s1 = Some (as, s2) \<and>
    ks_kv_find_live s (Some k) = Some (live, s0) \<and> kv_now s \<le> kv_now s0 \<and> kv_now s0 \<le> kv_now s1 \<and>
    (d = 0 \<longleftrightarrow> ttl = 0) \<and> (ttl \<noteq> 0 \<longrightarrow> unat d = unat (kv_now s0) + unat ttl * 1000) \<and>
    ks_kv_get s2 (Some k) = Some (if d \<noteq> 0 \<and> d \<le> kv_now s2 then (None, 0, s3)
      else (Some (val @ [NUL]), of_nat (length val), s3))"
proof -
  have "store_inv s1"
    by (rule kv.step_invar [OF assms(1), of "Op_Set al k val ttl"]) (simp add: assms(2))
  from kv.run_returns [OF this, of ops] obtain as s2 where run: "kv.run ops s1 = Some (as, s2)"
    by blast
  from get_after_set [OF assms(1-4) run assms(5)] run show ?thesis
    unfolding kv_run_eq by blast
qed

theorem kv_read_your_write_witness:
  "\<exists>as s2 s3. kv_run [Op_Delete ''x'', Op_Get ''k'', Op_Reap 100] ex_store = Some (as, s2) \<and>
    ks_kv_get s2 (Some ''k'') = Some (if 6000 \<le> kv_now s2 then (None, 0, s3)
      else (Some [CHR ''v'', NUL], 1, s3))"
proof -
  have now: "kv_now ex_fresh = 1000" by (simp add: kv_now_def ex_fresh(4) ex_clock_def ks_ttl_now_def)
  have d: "d = 6000" if "unat d = unat t + unat (5 :: u64) * 1000" "1000 \<le> t" "t \<le> 1000" for d t :: u64
  proof -
    from that(2,3) have "t = 1000" by simp
    with that(1) show ?thesis by (simp add: unsigned_word_eqI)
  qed
  from kv_read_your_write [OF ex_fresh(2), of mem_ok "''k''" "''v''" 5 KS_KV_SET_INSERTED ex_store
      "[Op_Delete ''x'', Op_Get ''k'', Op_Reap 100]"] ex_store(1)
  obtain as s2 s0 d s3 where r: "kv_run [Op_Delete ''x'', Op_Get ''k'', Op_Reap 100] ex_store = Some (as, s2)"
    "1000 \<le> kv_now s0" "kv_now s0 \<le> 1000" "unat d = unat (kv_now s0) + unat (5 :: u64) * 1000"
    "ks_kv_get s2 (Some ''k'') = Some (if d \<noteq> 0 \<and> d \<le> kv_now s2 then (None, 0, s3)
      else (Some [CHR ''v'', NUL], 1, s3))"
    by (auto simp: now ex_store(4))
  with d [OF r(4,2,3)] show ?thesis by auto
qed

text \<open>
  C11. A store operation inserts or replaces according to whether the key is live, binds the
  key to the given bytes with the deadline computed at the time read after the lookup, and
  changes nothing else that is live now or later. Otherwise it reports an error, the live
  bindings are untouched, and the cause is a deadline that does not fit or memory that ran out.
\<close>

theorem kv_set_correct:
  assumes "kv_inv s" "unat n \<le> length val"
  shows "(\<exists>s1 s' d. ks_kv_find_live s (Some k) = Some (kv_live (kv_now s) s k, s1) \<and>
       set_deadline (kv_now s1) ttl = Some d \<and>
       ks_kv_set_ex al s (Some k) (Some val) n ttl =
         Some (if kv_live (kv_now s) s k = None then KS_KV_SET_INSERTED else KS_KV_SET_REPLACED, s') \<and>
       kv_inv s' \<and> (\<forall>t \<ge> kv_now s. kv_live t s' = (kv_live t s)
         (k := (if d \<noteq> 0 \<and> d \<le> t then None else Some (new_value val n d))))) \<or>
    (\<exists>s1 s'. ks_kv_find_live s (Some k) = Some (kv_live (kv_now s) s k, s1) \<and>
       ks_kv_set_ex al s (Some k) (Some val) n ttl = Some (KS_KV_SET_ERROR, s') \<and> kv_inv s' \<and>
       (\<forall>t \<ge> kv_now s. kv_live t s' = kv_live t s) \<and>
       (set_deadline (kv_now s1) ttl = None \<or> out_of_memory al s k n))"
proof (cases rule: set_ex_cases [OF assms, of k ttl al, case_names stored refused])
  case (stored s1 s' d)
  have "expired t (new_value val n d) \<longleftrightarrow> d \<noteq> 0 \<and> d \<le> t" for t
    by (simp add: expired_def new_value_def)
  with stored live_after_set [OF stored(5,6)] show ?thesis by auto
next
  case (refused s1 s')
  then show ?thesis by (auto simp: same_live_def)
qed

theorem kv_set_correct_witness:
  "\<exists>s'. ks_kv_set_ex mem_fail ex_store (Some ''k'') (Some ''v'') 1 0 = Some (KS_KV_SET_ERROR, s') \<and>
    kv_live 2000 s' = kv_live 2000 ex_store"
proof -
  have "ks_kv_set_ex mem_fail ex_store (Some ''k'') (Some ''v'') 1 0 \<noteq>
      Some (if kv_live 1000 ex_store ''k'' = None then KS_KV_SET_INSERTED else KS_KV_SET_REPLACED, s')"
    if "ks_kv_find_live ex_store (Some ''k'') = Some (l, s1)" for l s1 s'
    using set_ex_split [OF that, of "fst (ks_ttl_now (kv_clock s1))" "snd (ks_ttl_now (kv_clock s1))"
        mem_fail "''v''" 1 0]
    by (auto simp: set_deadline_def ks_kv_copy_key_def c_malloc_def mem_fail_def)
  then show ?thesis
    using kv_set_correct [OF ex_live(1), of 1 "''v''" "''k''" 0 mem_fail] by (force simp: ex_store(4))
qed

text \<open>
  C14. Reading: \<open>ks_kv_get\<close> and \<open>ks_kv_exists\<close> answer from the bindings that are live at
  the time of the call, keep the invariant, and have no effect that is visible then or later.
\<close>

theorem kv_get_correct:
  assumes "kv_inv s"
  shows "(\<exists>s'. ks_kv_get s (Some k) =
        Some (case kv_live (kv_now s) s k of None \<Rightarrow> (None, 0, s')
              | Some v \<Rightarrow> (Some (v_data v), v_size v, s')) \<and>
      kv_inv s' \<and> (\<forall>t \<ge> kv_now s. kv_live t s' = kv_live t s)) \<and>
    (\<exists>s'. ks_kv_exists s (Some k) = Some (kv_live (kv_now s) s k \<noteq> None, s') \<and>
      kv_inv s' \<and> (\<forall>t \<ge> kv_now s. kv_live t s' = kv_live t s))"
  using kv_get [OF assms, of k] kv_exists [OF assms, of k] unfolding same_live_def by blast

theorem kv_get_correct_witness:
  "\<exists>s' s''. ks_kv_get ex_store (Some ''k'') = Some (Some [CHR ''v'', NUL], 1, s') \<and>
    ks_kv_exists ex_store (Some ''x'') = Some (False, s'')"
  using kv_get_correct [OF ex_live(1), of "''k''"] kv_get_correct [OF ex_live(1), of "''x''"]
  by (auto simp: ex_store(4) ex_live(2) new_value_def)

text \<open>
  C15. Deletion, and expiry with zero seconds, report whether the key was live and remove it
  and nothing else.
\<close>

theorem kv_delete_correct:
  assumes "kv_inv s"
  shows "(\<exists>s'. ks_kv_delete s (Some k) = Some (kv_live (kv_now s) s k \<noteq> None, s') \<and> kv_inv s' \<and>
      (\<forall>t \<ge> kv_now s. kv_live t s' = (kv_live t s)(k := None))) \<and>
    (\<exists>s'. ks_kv_expire s (Some k) 0 = Some (if kv_live (kv_now s) s k = None
        then KS_KV_EXPIRE_MISSING else KS_KV_EXPIRE_UPDATED, s') \<and> kv_inv s' \<and>
      (\<forall>t \<ge> kv_now s. kv_live t s' = (kv_live t s)(k := None)))"
  using kv_delete [OF assms, of k] kv_expire_zero [OF assms, of k] by blast

theorem kv_delete_correct_witness:
  "\<exists>s'. ks_kv_delete ex_store (Some ''k'') = Some (True, s') \<and> kv_live 1000 s' = Map.empty"
  using kv_delete_correct [OF ex_live(1), of "''k''"] by (auto simp: ex_store(4) ex_live(2))

text \<open>
  C13. \<open>ks_kv_expire\<close> with a time to live: for a live key it sets the deadline to that many
  seconds after the time it reads, keeps the value, and touches no other key; it reports a
  missing key, and refuses a deadline that does not fit, without a visible effect.
\<close>

theorem kv_expire_correct:
  assumes "kv_inv s" "ttl \<noteq> 0"
  shows "\<exists>r s1 s'. ks_kv_find_live s (Some k) = Some (kv_live (kv_now s) s k, s1) \<and>
    ks_kv_expire s (Some k) ttl = Some (r, s') \<and> kv_inv s' \<and>
    (case kv_live (kv_now s) s k of
       None \<Rightarrow> r = KS_KV_EXPIRE_MISSING \<and> same_live (kv_now s) s s'
     | Some v \<Rightarrow> (case ks_ttl_deadline (kv_now s1) ttl of
         None \<Rightarrow> r = KS_KV_EXPIRE_ERROR \<and> same_live (kv_now s) s s'
       | Some d \<Rightarrow> r = KS_KV_EXPIRE_UPDATED \<and> (\<forall>t \<ge> kv_now s. kv_live t s' =
           (kv_live t s)(k := (if d \<le> t then None else Some (v\<lparr>v_deadline_ms := d\<rparr>))))))"
proof (cases rule: kv_expire_cases [OF assms, of k, case_names updated missing refused])
  case (updated s1 s' v d)
  have "expired t (v\<lparr>v_deadline_ms := d\<rparr>) \<longleftrightarrow> d \<le> t" for t
    using ks_ttl_deadline_after(2) [OF updated(3)] by (simp add: expired_def)
  with updated live_after_set [OF updated(6,7)] show ?thesis
    by (intro exI [of _ KS_KV_EXPIRE_UPDATED] exI [of _ s1] exI [of _ s']) simp
next
  case (missing s')
  from find_live [OF assms(1), of k] obtain s1 where
    "ks_kv_find_live s (Some k) = Some (kv_live (kv_now s) s k, s1)" by blast
  with missing show ?thesis
    by (intro exI [of _ KS_KV_EXPIRE_MISSING] exI [of _ s1] exI [of _ s']) simp
next
  case (refused s1 s' v)
  then show ?thesis
    by (intro exI [of _ KS_KV_EXPIRE_ERROR] exI [of _ s1] exI [of _ s']) simp
qed

theorem kv_expire_correct_witness:
  "\<exists>s'. ks_kv_expire ex_store (Some ''x'') 7 = Some (KS_KV_EXPIRE_MISSING, s') \<and> kv_inv s'"
  using kv_expire_correct [OF ex_live(1), of 7 "''x''"] by (auto simp: ex_store(4) ex_live(2))

text \<open>
  C16. \<open>ks_kv_ttl\<close> reports -2 for a key that is not live, -1 for one without a deadline, and
  otherwise the whole seconds left at the time it reads, as a number that is never negative.
\<close>

theorem kv_ttl_correct:
  assumes "kv_inv s"
  shows "\<exists>s1 s'. ks_kv_find_live s (Some k) = Some (kv_live (kv_now s) s k, s1) \<and>
    ks_kv_ttl s (Some k) = Some (ttl_answer (kv_now s1) (kv_live (kv_now s) s k), s') \<and> kv_inv s' \<and>
    (\<forall>t. kv_now s \<le> t \<longrightarrow> kv_now s1 \<le> t \<longrightarrow> kv_live t s' = kv_live t s)"
  using kv_ttl [OF assms, of k] by metis

theorem kv_ttl_correct_witness:
  "\<exists>s1 s'. ks_kv_find_live ex_store (Some ''x'') = Some (None, s1) \<and>
    ks_kv_ttl ex_store (Some ''x'') = Some (- 2, s')"
  using kv_ttl_correct [OF ex_live(1), of "''x''"]
  by (auto simp: ex_store(4) ex_live(2) ttl_answer_def)

text \<open>
  C12. The reaper removes only keys that have expired, reports exactly how many it removed and
  never more than its budget, and a budget of at least the capacity removes every expired key.
\<close>

theorem kv_reap_correct:
  assumes "kv_inv s" "budget \<noteq> 0"
  shows "\<exists>s' r. ks_kv_reap s budget = Some (r, s') \<and> kv_inv s' \<and> kv_map s' \<subseteq>\<^sub>m kv_map s \<and>
    (\<forall>t \<ge> kv_now s. kv_live t s' = kv_live t s) \<and>
    card (dom (kv_map s)) = unat r + card (dom (kv_map s')) \<and> unat r \<le> unat budget \<and>
    (ds_capacity (kv_entries s) \<le> budget \<longrightarrow> kv_map s' = kv_live (kv_now s) s)"
  using kv_reap [OF assms] unfolding same_live_def by metis

theorem kv_reap_correct_witness:
  "\<exists>s' r. ks_kv_reap ex_store 3 = Some (r, s') \<and> unat r \<le> 3 \<and> kv_map s' \<subseteq>\<^sub>m kv_map ex_store"
  using kv_reap_correct [OF ex_live(1), of 3] by auto

text \<open>
  C17. \<open>ks_kv_size\<close> returns the number of keys that are live at the time of the call, and
  afterwards the table holds exactly these.
\<close>

theorem kv_size_correct:
  assumes "kv_inv s"
  shows "\<exists>n s'. ks_kv_size s = Some (n, s') \<and> unat n = card (dom (kv_live (kv_now s) s)) \<and>
    kv_inv s' \<and> kv_map s' = kv_live (kv_now s) s"
  using kv_size [OF assms] by metis

theorem kv_size_correct_witness:
  "\<exists>n s'. ks_kv_size ex_store = Some (n, s') \<and> unat n = 1"
  using kv_size_correct [OF ex_live(1)] by (auto simp: ex_store(4) ex_live(2))

end
