(* ===== verification/Kessel_Server_Commands.thy ===== *)
theory Kessel_Server_Commands
  imports Kessel_Server_Buffers Kessel_Kv_Store
begin

text \<open>
  What every command answers. The commands on keys are the operations of the store
  (\<open>kv_step\<close>) under the texts of the protocol; the commands on channels are those of the
  registry; a publication appends a frame to the queue of every subscriber that has room. A
  response always fits when the client is below the high-water mark, so none of these calls fails.
\<close>

section \<open>Texts\<close>

definition simple_text :: "string \<Rightarrow> string" where
  "simple_text s = ''+'' @ s @ [CR, LF]"

definition error_text :: "string \<Rightarrow> string" where
  "error_text s = ''-ERR '' @ s @ [CR, LF]"

definition int_text :: "int \<Rightarrow> string" where
  "int_text i = '':'' @ fmt_int i @ [CR, LF]"

definition bulk_text :: "bytes \<Rightarrow> string" where
  "bulk_text s = ''$'' @ fmt_nat (length s) @ [CR, LF] @ s @ [CR, LF]"

definition nil_text :: string where
  "nil_text = ''$-1'' @ [CR, LF]"

definition message_text :: "string \<Rightarrow> bytes \<Rightarrow> string" where
  "message_text channel message =
     ''*3'' @ [CR, LF] @ bulk_text ''message'' @ bulk_text channel @ bulk_text message"

lemma fmt_nat_short: "n < 100000 \<Longrightarrow> length (fmt_nat n) \<le> 5"
  using length_fmt_nat_le [of n 4] by simp

lemma fmt_nat_word: "length (fmt_nat (unat (w :: u64))) \<le> 20"
proof -
  have "unat w < 2 ^ 64" using unsigned_less [of w, where ?'a = nat] by simp
  then have "unat w < 10 ^ Suc 19" by simp
  from length_fmt_nat_le [OF this] show ?thesis by simp
qed

lemma fmt_int_word: "- (2 ^ 63) \<le> i \<Longrightarrow> i < 2 ^ 63 \<Longrightarrow> length (fmt_int i) \<le> 20"
proof -
  assume a: "- (2 ^ 63) \<le> i" "i < 2 ^ 63"
  then have "nat \<bar>i\<bar> < 10 ^ Suc 18" by simp
  from length_fmt_nat_le [OF this] show ?thesis by (auto simp: fmt_int_def nat_abs_int_diff abs_if)
qed

lemma length_bulk_text: "length s < 100000 \<Longrightarrow> length (bulk_text s) \<le> length s + 10"
  using fmt_nat_short [of "length s"] by (simp add: bulk_text_def)

lemma length_message_text:
  assumes "length channel < 100000" "length message < 100000"
  shows "length (message_text channel message) \<le> length channel + length message + 41"
  using assms length_bulk_text [of channel] length_bulk_text [of message] length_bulk_text [of "''message''"]
  by (simp add: message_text_def)

section \<open>One answer\<close>

text \<open>
  The call returned 0, \<open>text\<close> was appended to the queue of client \<open>ci\<close>, the store and the
  registry are the given ones, and nothing else changed.
\<close>

definition answered ::
    "ks_server \<Rightarrow> nat \<Rightarrow> string \<Rightarrow> ks_kv \<Rightarrow> ks_pubsub \<Rightarrow> (int \<times> ks_server) option \<Rightarrow> bool" where
  "answered s ci text store pubsub r \<longleftrightarrow> (\<exists>c c'. get_client s ci = Some c \<and> queued c text c' \<and>
     r = Some (0, put_client (s\<lparr>sv_store := store, sv_pubsub := pubsub\<rparr>) ci c'))"

lemma get_client_simps [simp]:
  "get_client (s\<lparr>sv_store := st\<rparr>) ci = get_client s ci"
  "get_client (s\<lparr>sv_pubsub := p\<rparr>) ci = get_client s ci"
  "get_client (s\<lparr>sv_metrics := m\<rparr>) ci = get_client s ci"
  "get_client (s\<lparr>sv_next_client_id := n\<rparr>) ci = get_client s ci"
  by (simp_all add: get_client_def)

lemma answered_simps [simp]:
  "answered (s\<lparr>sv_store := st'\<rparr>) ci text st p r \<longleftrightarrow> answered s ci text st p r"
  "answered (s\<lparr>sv_pubsub := p'\<rparr>) ci text st p r \<longleftrightarrow> answered s ci text st p r"
  by (simp_all add: answered_def)

text \<open>The state in which a client may be answered.\<close>

definition ready :: "ks_server \<Rightarrow> nat \<Rightarrow> bool" where
  "ready s ci \<longleftrightarrow> (\<exists>c. get_client s ci = Some c \<and> client_ok c \<and> cl_used c \<and>
     pending c < KS_OUTPUT_HIGH_WATER)"

lemma ready_simps [simp]:
  "ready (s\<lparr>sv_store := st\<rparr>) ci = ready s ci" "ready (s\<lparr>sv_pubsub := p\<rparr>) ci = ready s ci"
  "ready (s\<lparr>sv_metrics := m\<rparr>) ci = ready s ci"
  by (simp_all add: ready_def)

lemma reply_text:
  assumes c: "get_client s ci = Some c" "client_ok c" "cl_used c" "pending c + length text \<le> KS_OUTPUT_CAP"
    and e: "emits r (fresh RESPONSE_CAP) RESPONSE_CAP text" "length text < RESPONSE_CAP" "text \<noteq> []"
  shows "answered s ci text (sv_store s) (sv_pubsub s) (r \<bind> reply s ci)"
proof -
  from queue_text [OF c(2-4) e(1,2)] obtain data c' where
    "r = Some (length text, Some data)" "client_queue c data (length text) = Some (0, c')" "queued c text c'"
    by (auto simp: fresh_def)
  with c(1) e(3) show ?thesis by (auto simp: answered_def reply_def)
qed

lemma reply_ready:
  assumes "ready s ci" "emits r (fresh RESPONSE_CAP) RESPONSE_CAP text" "length text < RESPONSE_CAP" "text \<noteq> []"
  shows "answered s ci text (sv_store s) (sv_pubsub s) (r \<bind> reply s ci)"
proof -
  from assms(1) obtain c where c: "get_client s ci = Some c" "client_ok c" "cl_used c"
    "pending c < KS_OUTPUT_HIGH_WATER" by (auto simp: ready_def)
  with assms(3) have "pending c + length text \<le> KS_OUTPUT_CAP"
    by (simp add: KS_OUTPUT_HIGH_WATER_def KS_OUTPUT_CAP_def RESPONSE_CAP_def)
  from reply_text [OF c(1-3) this assms(2-4)] show ?thesis .
qed

lemma response_cap [simp]: "0 < RESPONSE_CAP" "length (fresh n) = n" "RESPONSE_CAP \<le> 2147483648"
  by (simp_all add: RESPONSE_CAP_def KS_MAX_REQUEST_def fresh_def)

lemma reply_emits:
  "emits (ks_fmt_simple response_buffer RESPONSE_CAP (Some t)) (fresh RESPONSE_CAP) RESPONSE_CAP (simple_text t)"
  "emits (ks_fmt_int response_buffer RESPONSE_CAP i) (fresh RESPONSE_CAP) RESPONSE_CAP (int_text i)"
  "emits (ks_fmt_nil response_buffer RESPONSE_CAP) (fresh RESPONSE_CAP) RESPONSE_CAP nil_text"
  "n \<le> length d \<Longrightarrow> emits (ks_fmt_bulk response_buffer RESPONSE_CAP (Some d) n) (fresh RESPONSE_CAP) RESPONSE_CAP
     (bulk_text (take n d))"
  unfolding simple_text_def int_text_def nil_text_def bulk_text_def
  using fmt_emits [of RESPONSE_CAP "fresh RESPONSE_CAP"] fmt_bulk_emits [of RESPONSE_CAP "fresh RESPONSE_CAP" n d]
  by (simp_all add: min_absorb2)

lemma text_fits:
  "length t < 100 \<Longrightarrow> length (simple_text t) < RESPONSE_CAP"
  "- (2 ^ 63) \<le> i \<Longrightarrow> i < 2 ^ 63 \<Longrightarrow> length (int_text i) < RESPONSE_CAP"
  "length nil_text < RESPONSE_CAP"
  "length d \<le> KS_MAX_REQUEST \<Longrightarrow> length (bulk_text d) < RESPONSE_CAP"
  using fmt_int_word [of i] length_bulk_text [of d]
  by (simp_all add: simple_text_def int_text_def nil_text_def RESPONSE_CAP_def KS_MAX_REQUEST_def)

lemma text_ne [simp]: "simple_text t \<noteq> []" "int_text i \<noteq> []" "nil_text \<noteq> []" "bulk_text d \<noteq> []"
  by (simp_all add: simple_text_def int_text_def nil_text_def bulk_text_def)

lemma reply_simple:
  assumes "ready s ci" "length t < 100"
  shows "answered s ci (simple_text t) (sv_store s) (sv_pubsub s)
    (ks_fmt_simple response_buffer RESPONSE_CAP (Some t) \<bind> reply s ci)"
  by (rule reply_ready [OF assms(1) reply_emits(1) text_fits(1) [OF assms(2)] text_ne(1)])

lemma reply_int:
  assumes "ready s ci" "- (2 ^ 63) \<le> i" "i < 2 ^ 63"
  shows "answered s ci (int_text i) (sv_store s) (sv_pubsub s)
    (ks_fmt_int response_buffer RESPONSE_CAP i \<bind> reply s ci)"
  by (rule reply_ready [OF assms(1) reply_emits(2) text_fits(2) [OF assms(2,3)] text_ne(2)])

lemma reply_nil:
  assumes "ready s ci"
  shows "answered s ci nil_text (sv_store s) (sv_pubsub s)
    (ks_fmt_nil response_buffer RESPONSE_CAP \<bind> reply s ci)"
  by (rule reply_ready [OF assms reply_emits(3) text_fits(3) text_ne(3)])

lemma reply_bulk:
  assumes "ready s ci" "n \<le> length d" "n \<le> KS_MAX_REQUEST"
  shows "answered s ci (bulk_text (take n d)) (sv_store s) (sv_pubsub s)
    (ks_fmt_bulk response_buffer RESPONSE_CAP (Some d) n \<bind> reply s ci)"
  by (rule reply_ready [OF assms(1) reply_emits(4) [OF assms(2)] text_fits(4) text_ne(4)]) (use assms in simp)

lemma reply_error_text:
  assumes "ready s ci" "length m < 240"
  shows "answered s ci (error_text m) (sv_store s) (sv_pubsub s) (reply_error s ci m)"
proof -
  from assms(1) obtain c where c: "get_client s ci = Some c" "client_ok c" "cl_used c"
    "pending c < KS_OUTPUT_HIGH_WATER" by (auto simp: ready_def)
  from queue_error_spec [OF c(2-4) assms(2)] c(1) show ?thesis
    by (auto simp: answered_def reply_error_def error_text_def)
qed

section \<open>The commands on keys\<close>

text \<open>The operation of the store that a command stands for, and the text of its answer.\<close>

definition kv_command :: "allocator \<Rightarrow> string \<Rightarrow> string list \<Rightarrow> kv_op option" where
  "kv_command al cmd args =
     (case args of
        [k] \<Rightarrow> if cmd = ''GET'' then Some (Op_Get k)
               else if cmd = ''DEL'' then Some (Op_Delete k)
               else if cmd = ''EXISTS'' then Some (Op_Exists k)
               else if cmd = ''TTL'' then Some (Op_Ttl k) else None
      | [k, x] \<Rightarrow> if cmd = ''SET'' then Some (Op_Set al k x 0)
               else if cmd = ''EXPIRE'' then
                 (case parse_seconds x of None \<Rightarrow> None
                  | Some n \<Rightarrow> Some (if n \<le> 0 then Op_Delete k else Op_Expire k (of_int n)))
               else None
      | [k, x, y] \<Rightarrow> if cmd = ''SETEX'' then
                 (case parse_seconds x of None \<Rightarrow> None
                  | Some n \<Rightarrow> if n \<le> 0 then None else Some (Op_Set al k y (of_int n)))
               else None
      | _ \<Rightarrow> None)"

fun answer_text :: "kv_answer \<Rightarrow> string" where
  "answer_text (Ans_Set r) =
     (if r = KS_KV_SET_ERROR then error_text ''unable to store value'' else simple_text ''OK'')"
| "answer_text (Ans_Get d n) = (case d of None \<Rightarrow> nil_text | Some d \<Rightarrow> bulk_text (take (unat n) d))"
| "answer_text (Ans_Bool b) = int_text (if b then 1 else 0)"
| "answer_text (Ans_Expire r) =
     (if r = KS_KV_EXPIRE_ERROR then error_text ''invalid expire time''
      else int_text (if r = KS_KV_EXPIRE_UPDATED then 1 else 0))"
| "answer_text (Ans_Ttl i) = int_text i"
| "answer_text (Ans_Count n) = int_text (int (unat n))"

text \<open>Values that fit in a response.\<close>

definition small_values :: "ks_kv \<Rightarrow> bool" where
  "small_values st \<longleftrightarrow> (\<forall>t k v. kv_now st \<le> t \<longrightarrow> kv_live t st k = Some v \<longrightarrow> unat (v_size v) \<le> KS_MAX_REQUEST)"

lemma kv_live_ok: "kv_inv st \<Longrightarrow> kv_live t st k = Some v \<Longrightarrow> unat (v_size v) < length (v_data v)"
  by (auto simp: kv_inv_def kv_live_iff value_ok_def ran_def)

lemma ttl_answer_range: "- 2 \<le> ttl_answer now v \<and> ttl_answer now v < 2 ^ 63"
proof -
  have "(unat (v_deadline_ms w) - unat now) div 1000 < 2 ^ 63" for w :: ks_kv_value
  proof -
    have "unat (v_deadline_ms w) < 2 ^ 64" using unsigned_less [of "v_deadline_ms w", where ?'a = nat] by simp
    then show ?thesis by simp
  qed
  then have "int ((unat (v_deadline_ms w) - unat now) div 1000) < 2 ^ 63" for w :: ks_kv_value
    using of_nat_less_iff [of _ "2 ^ 63", where ?'a = int] by (metis of_nat_numeral of_nat_power)
  then show ?thesis by (auto simp: ttl_answer_def split: option.splits)
qed

lemma kv_cmd_get:
  assumes "ready s ci" "kv_inv (sv_store s)" "small_values (sv_store s)"
    "kv_step (Op_Get k) (sv_store s) = Some (a, st)"
  shows "answered s ci (answer_text a) st (sv_pubsub s) (cmd_get s ci [k])"
proof -
  let ?v = "kv_live (kv_now (sv_store s)) (sv_store s) k"
  from kv_get [OF assms(2), of k] assms(4) have
    g: "ks_kv_get (sv_store s) (Some k) = Some (map_option v_data ?v, (case ?v of None \<Rightarrow> 0 | Some v \<Rightarrow> v_size v), st)"
    and a: "a = Ans_Get (map_option v_data ?v) (case ?v of None \<Rightarrow> 0 | Some v \<Rightarrow> v_size v)"
    by (auto split: option.splits)
  have r: "ready (s\<lparr>sv_store := st\<rparr>) ci" using assms(1) by simp
  show ?thesis
  proof (cases ?v)
    case None
    with g a reply_nil [OF r] show ?thesis by (simp add: cmd_get_def Let_def)
  next
    case (Some v)
    with assms(3) have "unat (v_size v) \<le> KS_MAX_REQUEST" by (auto simp: small_values_def)
    moreover have "unat (v_size v) \<le> length (v_data v)"
      using kv_live_ok [OF assms(2) Some] by simp
    ultimately show ?thesis
      using Some g a reply_bulk [OF r, of "unat (v_size v)" "v_data v"] by (simp add: cmd_get_def Let_def)
  qed
qed

lemma kv_cmd_bool:
  assumes "ready s ci"
  shows "kv_step (Op_Delete k) (sv_store s) = Some (a, st) \<Longrightarrow>
      answered s ci (answer_text a) st (sv_pubsub s) (cmd_del s ci [k])"
    "kv_step (Op_Exists k) (sv_store s) = Some (a, st) \<Longrightarrow>
      answered s ci (answer_text a) st (sv_pubsub s) (cmd_exists s ci [k])"
  using reply_int [of "s\<lparr>sv_store := st\<rparr>" ci] assms by (auto simp: cmd_del_def cmd_exists_def)

lemma kv_cmd_ttl:
  assumes "ready s ci" "kv_inv (sv_store s)" "kv_step (Op_Ttl k) (sv_store s) = Some (a, st)"
  shows "answered s ci (answer_text a) st (sv_pubsub s) (cmd_ttl s ci [k])"
proof -
  from assms(3) obtain i where i: "ks_kv_ttl (sv_store s) (Some k) = Some (i, st)" "a = Ans_Ttl i" by auto
  have "\<exists>now v. i = ttl_answer now v"
    by (rule kv_ttl [OF assms(2), of k]) (use i(1) in auto)
  then obtain now v where "i = ttl_answer now v" by blast
  with i reply_int [of "s\<lparr>sv_store := st\<rparr>" ci "ttl_answer now v"] assms(1) ttl_answer_range [of now v]
  show ?thesis by (simp add: cmd_ttl_def)
qed

lemma kv_cmd_set:
  assumes "ready s ci"
  shows "kv_step (Op_Set al k x 0) (sv_store s) = Some (a, st) \<Longrightarrow>
      answered s ci (answer_text a) st (sv_pubsub s) (cmd_set al s ci [k, x])"
    "parse_seconds y = Some n \<Longrightarrow> 0 < n \<Longrightarrow> kv_step (Op_Set al k x (of_int n)) (sv_store s) = Some (a, st) \<Longrightarrow>
      answered s ci (answer_text a) st (sv_pubsub s) (cmd_setex al s ci [k, y, x])"
  using reply_simple [of "s\<lparr>sv_store := st\<rparr>" ci "''OK''"] assms
    reply_error_text [of "s\<lparr>sv_store := st\<rparr>" ci "''unable to store value''"]
  by (auto simp: cmd_set_def cmd_setex_def ks_kv_set_def Let_def)

lemma kv_cmd_expire:
  assumes "ready s ci" "parse_seconds x = Some n"
  shows "n \<le> 0 \<Longrightarrow> kv_step (Op_Delete k) (sv_store s) = Some (a, st) \<Longrightarrow>
      answered s ci (answer_text a) st (sv_pubsub s) (cmd_expire s ci [k, x])"
    "0 < n \<Longrightarrow> kv_step (Op_Expire k (of_int n)) (sv_store s) = Some (a, st) \<Longrightarrow>
      answered s ci (answer_text a) st (sv_pubsub s) (cmd_expire s ci [k, x])"
  using reply_int [of "s\<lparr>sv_store := st\<rparr>" ci] assms
    reply_error_text [of "s\<lparr>sv_store := st\<rparr>" ci "''invalid expire time''"]
  by (auto simp: cmd_expire_def Let_def)

text \<open>All the commands on keys: the answer and the new store are those of the operation.\<close>

lemma dispatch_kv:
  assumes r: "ready s ci" and st: "kv_inv (sv_store s)" "small_values (sv_store s)"
    and op: "kv_command al cmd args = Some op" "kv_step op (sv_store s) = Some (a, st)"
  shows "answered s ci (answer_text a) st (sv_pubsub s) (dispatch al now cfg s ci cmd args)"
proof -
  from op(1) consider (get) k where "args = [k]" "cmd = ''GET''" "op = Op_Get k"
    | (del) k where "args = [k]" "cmd = ''DEL''" "op = Op_Delete k"
    | (ex) k where "args = [k]" "cmd = ''EXISTS''" "op = Op_Exists k"
    | (ttl) k where "args = [k]" "cmd = ''TTL''" "op = Op_Ttl k"
    | (sett) k x where "args = [k, x]" "cmd = ''SET''" "op = Op_Set al k x 0"
    | (exp0) k x n where "args = [k, x]" "cmd = ''EXPIRE''" "parse_seconds x = Some n" "n \<le> 0" "op = Op_Delete k"
    | (exp) k x n where "args = [k, x]" "cmd = ''EXPIRE''" "parse_seconds x = Some n" "0 < n"
        "op = Op_Expire k (of_int n)"
    | (setex) k x y n where "args = [k, y, x]" "cmd = ''SETEX''" "parse_seconds y = Some n" "0 < n"
        "op = Op_Set al k x (of_int n)"
    by (auto simp: kv_command_def split: list.splits if_splits option.splits)
  then show ?thesis
  proof cases
    case get
    with kv_cmd_get [OF r st] op(2) show ?thesis by (simp add: dispatch_def)
  next
    case del
    with kv_cmd_bool(1) [OF r] op(2) show ?thesis by (simp add: dispatch_def)
  next
    case ex
    with kv_cmd_bool(2) [OF r] op(2) show ?thesis by (simp add: dispatch_def)
  next
    case ttl
    with kv_cmd_ttl [OF r st(1)] op(2) show ?thesis by (simp add: dispatch_def)
  next
    case sett
    with kv_cmd_set(1) [OF r] op(2) show ?thesis by (simp add: dispatch_def)
  next
    case exp0
    with kv_cmd_expire(1) [OF r exp0(3)] op(2) show ?thesis by (simp add: dispatch_def)
  next
    case exp
    with kv_cmd_expire(2) [OF r exp(3)] op(2) show ?thesis by (simp add: dispatch_def)
  next
    case setex
    with kv_cmd_set(2) [OF r setex(3)] op(2) show ?thesis by (simp add: dispatch_def)
  qed
qed

section \<open>The other commands\<close>

definition arity :: "string \<Rightarrow> nat option" where
  "arity cmd =
     (if cmd \<in> {''PING'', ''HELP'', ''INFO''} then Some 0
      else if cmd \<in> {''ECHO'', ''GET'', ''DEL'', ''EXISTS'', ''TTL'', ''SUBSCRIBE'', ''UNSUBSCRIBE''} then Some 1
      else if cmd \<in> {''SET'', ''EXPIRE'', ''PUBLISH''} then Some 2
      else if cmd = ''SETEX'' then Some 3 else None)"

text \<open>The answers that depend on the request only.\<close>

definition static_reply :: "string \<Rightarrow> string list \<Rightarrow> string option" where
  "static_reply cmd args =
     (if arity cmd = None then Some (error_text ''unknown command'')
      else if arity cmd \<noteq> Some (length args) then Some (error_text (wrong_arguments cmd))
      else if cmd = ''PING'' then Some (simple_text ''PONG'')
      else if cmd = ''ECHO'' then Some (bulk_text (args ! 0))
      else if cmd = ''HELP'' then Some (bulk_text help_text)
      else if cmd = ''EXPIRE'' \<and> parse_seconds (args ! 1) = None \<or>
              cmd = ''SETEX'' \<and> (\<forall>n. parse_seconds (args ! 1) = Some n \<longrightarrow> n \<le> 0)
      then Some (error_text ''invalid expire time'')
      else None)"

lemma help_fits: "length help_text \<le> KS_MAX_REQUEST"
  by (simp add: help_text_def KS_MAX_REQUEST_def)

definition commands :: "string set" where
  "commands = {''PING'', ''HELP'', ''INFO'', ''ECHO'', ''GET'', ''DEL'', ''EXISTS'', ''TTL'', ''SUBSCRIBE'',
     ''UNSUBSCRIBE'', ''SET'', ''EXPIRE'', ''PUBLISH'', ''SETEX''}"

lemma arity_None: "arity cmd = None \<longleftrightarrow> cmd \<notin> commands"
  by (simp add: arity_def commands_def)

lemma dispatch_unknown: "cmd \<notin> commands \<Longrightarrow> dispatch al now cfg s ci cmd args = reply_error s ci ''unknown command''"
  by (simp add: commands_def dispatch_def)

lemma dispatch_arity:
  assumes "cmd \<in> commands" "arity cmd \<noteq> Some (length args)"
  shows "dispatch al now cfg s ci cmd args = reply_error s ci (wrong_arguments cmd) \<and> length (wrong_arguments cmd) < 240"
proof -
  have c: "dispatch al now cfg s ci cmd args = reply_error s ci (wrong_arguments cmd) \<and> length (wrong_arguments cmd) < 240"
    if "arity cmd \<noteq> Some (length args)" "cmd = d" "d \<in> commands" for d
    using that(1,3) unfolding that(2) commands_def
    by (elim insertE emptyE; hypsubst)
      (simp_all add: arity_def dispatch_def wrong_arguments_def cmd_ping_def cmd_echo_def cmd_help_def
        cmd_set_def cmd_get_def cmd_del_def cmd_exists_def cmd_setex_def cmd_expire_def cmd_ttl_def
        cmd_subscribe_def cmd_unsubscribe_def cmd_publish_def cmd_info_def)
  from c [OF assms(2) refl assms(1)] show ?thesis .
qed

lemma dispatch_static:
  assumes r: "ready s ci" and t: "static_reply cmd args = Some text"
    and small: "\<forall>a \<in> set args. length a \<le> KS_MAX_REQUEST"
  shows "answered s ci text (sv_store s) (sv_pubsub s) (dispatch al now cfg s ci cmd args)"
proof -
  consider "cmd \<notin> commands" | "cmd \<in> commands" "arity cmd \<noteq> Some (length args)"
    | "cmd \<in> commands" "arity cmd = Some (length args)" by blast
  then show ?thesis
  proof cases
    case 1
    with t reply_error_text [OF r, of "''unknown command''"] show ?thesis
      by (simp add: static_reply_def arity_None dispatch_unknown)
  next
    case 2
    with t reply_error_text [OF r, of "wrong_arguments cmd"] dispatch_arity [OF 2] show ?thesis
      by (simp add: static_reply_def arity_None)
  next
    case 3
    then have ne: "arity cmd \<noteq> None" by simp
    consider (ping) "cmd = ''PING''" "text = simple_text ''PONG''"
      | (echo) "cmd = ''ECHO''" "text = bulk_text (args ! 0)"
      | (hlp) "cmd = ''HELP''" "text = bulk_text help_text"
      | (exp) "cmd = ''EXPIRE''" "parse_seconds (args ! 1) = None" "text = error_text ''invalid expire time''"
      | (setex) "cmd = ''SETEX''" "\<forall>n. parse_seconds (args ! 1) = Some n \<longrightarrow> n \<le> 0"
          "text = error_text ''invalid expire time''"
      using t 3 unfolding static_reply_def arity_None by (simp split: if_split_asm) (elim disjE conjE; iprover)
    then show ?thesis
    proof cases
      case ping
      with 3 reply_simple [OF r, of "''PONG''"] show ?thesis
        by (simp add: arity_def dispatch_def cmd_ping_def)
    next
      case echo
      with 3 have "length args = 1" by (simp add: arity_def)
      with small have "length (args ! 0) \<le> KS_MAX_REQUEST" by simp
      from reply_bulk [OF r order_refl this] echo \<open>length args = 1\<close> show ?thesis
        by (simp add: dispatch_def cmd_echo_def)
    next
      case hlp
      with 3 reply_bulk [OF r order_refl help_fits] show ?thesis
        by (simp add: arity_def dispatch_def cmd_help_def)
    next
      case exp
      with 3 reply_error_text [OF r, of "''invalid expire time''"] show ?thesis
        by (simp add: arity_def dispatch_def cmd_expire_def)
    next
      case setex
      with 3 reply_error_text [OF r, of "''invalid expire time''"] show ?thesis
        by (simp add: arity_def dispatch_def cmd_setex_def split: option.split)
    qed
  qed
qed

text \<open>Subscriptions.\<close>

definition subscribe_text :: "ks_pubsub_status \<Rightarrow> string" where
  "subscribe_text st =
     (if st = KS_PUBSUB_NO_MEMORY then error_text ''unable to subscribe''
      else if st = KS_PUBSUB_INVALID_ARGUMENT then error_text ''invalid channel'' else simple_text ''OK'')"

lemma dispatch_subscribe:
  assumes r: "ready s ci" and c: "get_client s ci = Some c"
    and sub: "ks_pubsub_subscribe al (Some (sv_pubsub s)) (Some ch) (cl_id c) = (st, Some p)"
  shows "answered s ci (subscribe_text st) (sv_store s) p (dispatch al now cfg s ci ''SUBSCRIBE'' [ch])"
  using reply_error_text [of "s\<lparr>sv_pubsub := p\<rparr>" ci] reply_simple [of "s\<lparr>sv_pubsub := p\<rparr>" ci] assms
  by (auto simp: dispatch_def cmd_subscribe_def subscribe_text_def Let_def)

lemma dispatch_unsubscribe:
  assumes r: "ready s ci" and c: "get_client s ci = Some c"
    and sub: "ks_pubsub_unsubscribe (Some (sv_pubsub s)) (Some ch) (cl_id c) = (st, Some p, ev)"
  shows "answered s ci (int_text (if st = KS_PUBSUB_OK then 1 else 0)) (sv_store s) p
    (dispatch al now cfg s ci ''UNSUBSCRIBE'' [ch])"
  using reply_int [of "s\<lparr>sv_pubsub := p\<rparr>" ci] assms
  by (auto simp: dispatch_def cmd_unsubscribe_def Let_def)

text \<open>\<open>INFO\<close>. Times are those of a 64-bit \<open>time_t\<close>, - 1 when the clock fails.\<close>

definition time_ok :: "int \<Rightarrow> bool" where
  "time_ok t \<longleftrightarrow> - 1 \<le> t \<and> t < 2 ^ 63"

definition uptime :: "int \<Rightarrow> int \<Rightarrow> int" where
  "uptime now started_at = (if now \<noteq> - 1 \<and> started_at \<noteq> - 1 \<and> now \<ge> started_at then now - started_at else 0)"

definition info_of :: "int \<Rightarrow> ks_config \<Rightarrow> ks_server \<Rightarrow> u64 \<Rightarrow> string" where
  "info_of now cfg s keys =
     info_text (uptime now (mt_started_at (sv_metrics s))) (unat (mt_connected_clients (sv_metrics s)))
       (unat (cfg_max_clients cfg)) (unat (mt_total_connections (sv_metrics s)))
       (unat (mt_rejected_connections (sv_metrics s))) (unat (mt_total_commands (sv_metrics s)))
       (unat keys) (unat (ps_channel_count (sv_pubsub s))) (unat (ps_subscription_count (sv_pubsub s)))"

lemma uptime_range: "time_ok now \<Longrightarrow> time_ok started_at \<Longrightarrow> - (2 ^ 63) \<le> uptime now started_at \<and> uptime now started_at < 2 ^ 63"
  by (simp add: time_ok_def uptime_def)

lemma info_fits:
  assumes "time_ok now" "time_ok (mt_started_at (sv_metrics s))"
  shows "length (info_of now cfg s keys) < 768"
proof -
  have "length (fmt_int (uptime now (mt_started_at (sv_metrics s)))) \<le> 20"
    using uptime_range [OF assms] by (intro fmt_int_word) simp_all
  then show ?thesis
    using fmt_nat_word [of "mt_connected_clients (sv_metrics s)"] fmt_nat_word [of "cfg_max_clients cfg"]
      fmt_nat_word [of "mt_total_connections (sv_metrics s)"]
      fmt_nat_word [of "mt_rejected_connections (sv_metrics s)"]
      fmt_nat_word [of "mt_total_commands (sv_metrics s)"] fmt_nat_word [of keys]
      fmt_nat_word [of "ps_channel_count (sv_pubsub s)"] fmt_nat_word [of "ps_subscription_count (sv_pubsub s)"]
    by (simp add: info_of_def info_text_def)
qed

lemma dispatch_info:
  assumes r: "ready s ci" and t: "time_ok now" "time_ok (mt_started_at (sv_metrics s))"
    and size: "ks_kv_size (sv_store s) = Some (keys, st)"
  shows "answered s ci (bulk_text (info_of now cfg s keys)) st (sv_pubsub s) (dispatch al now cfg s ci ''INFO'' [])"
proof -
  let ?t = "info_of now cfg s keys"
  let ?d = "?t @ NUL # drop (Suc (length ?t)) (fresh 768)"
  note fits = info_fits [OF t, of cfg keys]
  have p: "c_snprintf (fresh 768) 768 ?t = Some (int (length ?t), ?d)"
    using fits by (simp add: c_snprintf_def INT_MAX_def fresh_def Let_def)
  have f: "format_info (fresh RESPONSE_CAP) RESPONSE_CAP cfg (sv_metrics s) now (sv_store s) (sv_pubsub s) =
      map_option (\<lambda>(n, r). (n, r, st)) (ks_fmt_bulk response_buffer RESPONSE_CAP (Some ?d) (length ?t))"
    using p fits size
    by (cases "ks_fmt_bulk response_buffer RESPONSE_CAP (Some ?d) (length ?t)")
      (simp_all add: info_of_def uptime_def format_info_def ks_pubsub_channel_count_def
        ks_pubsub_subscription_count_def Let_def case_prod_beta)
  have "answered s ci (bulk_text (take (length ?t) ?d)) st (sv_pubsub s)
      (ks_fmt_bulk response_buffer RESPONSE_CAP (Some ?d) (length ?t) \<bind> reply (s\<lparr>sv_store := st\<rparr>) ci)"
    using reply_bulk [of "s\<lparr>sv_store := st\<rparr>" ci "length ?t" ?d] r fits by (simp add: KS_MAX_REQUEST_def)
  then show ?thesis 
    by (cases "ks_fmt_bulk response_buffer RESPONSE_CAP (Some ?d) (length ?t)")
      (simp_all add: dispatch_def cmd_info_def f case_prod_beta)
qed

end
