(* ===== verification/Kessel_Server_Publish.thy ===== *)
theory Kessel_Server_Publish
  imports Kessel_Server_Commands
begin

text \<open>
  \<open>PUBLISH\<close>. A message is one frame, appended to the queue of each subscriber that has room
  for it; a subscriber without room is marked to be dropped, so no client ever receives part of a
  frame. The number of recipients is the number of queues that grew.
\<close>

section \<open>The frame\<close>

lemma at_offset_text:
  assumes "emits (f (Some d)) d cap text" "length text < cap" "cap \<le> length d"
  shows "\<exists>d'. at_offset (pre @ d) (length pre) f = Some (length text, pre @ text @ d') \<and>
    length d' = length d - length text"
  using assms by (auto simp: at_offset_def emits_def)

lemma bulk_emits:
  assumes "length (bulk_text src) < cap" "cap \<le> length d" "cap \<le> 2 ^ 31"
  shows "emits (ks_fmt_bulk (Some d) cap (Some src) (length src)) d cap (bulk_text src)"
  using fmt_bulk_emits [of cap d "length src" src] assms by (simp add: bulk_text_def)

lemma format_message_spec:
  assumes cap: "length (message_text ch m) < cap" "cap \<le> length resp" "cap \<le> 2 ^ 31"
  shows "\<exists>d. format_pubsub_message resp cap ch (Some m) (length m) =
    Some (length (message_text ch m), message_text ch m @ d)"
proof -
  define h ms where hm: "h = ''*3'' @ [CR, LF]" "ms = ''message''"
  define b1 b2 b3 where b: "b1 = bulk_text ms" "b2 = bulk_text ch" "b3 = bulk_text m"
  have T: "message_text ch m = h @ b1 @ b2 @ b3" by (simp add: message_text_def hm b)
  have ms: "length ms = 7" by (simp add: hm)
  have pos: "h \<noteq> []" "b1 \<noteq> []" "b2 \<noteq> []" "b3 \<noteq> []" by (simp_all add: hm b)
  have len: "length h + length b1 + length b2 + length b3 < cap" using cap(1) by (simp add: T)
  have "fmt_nat 3 = ''3''" by code_simp
  then have "emits (ks_fmt_array_header (Some resp) cap 3) resp cap h"
    using fmt_emits(4) [of cap resp 3] cap len by (simp add: hm)
  with at_offset_text [of "\<lambda>d. ks_fmt_array_header d cap 3" resp cap h "[]"] len cap obtain d1 where
    1: "at_offset resp 0 (\<lambda>d. ks_fmt_array_header d cap 3) = Some (length h, h @ d1)"
      "length d1 = length resp - length h" by auto
  have "length b1 < cap - length h" "cap - length h \<le> length d1" using len cap 1 by linarith+
  moreover have "emits (ks_fmt_bulk (Some d1) (cap - length h) (Some ms) 7) d1 (cap - length h) b1"
    using bulk_emits [of ms "cap - length h" d1] len cap 1 by (simp add: b ms)
  ultimately
  obtain d2 where
    2: "at_offset (h @ d1) (length h) (\<lambda>d. ks_fmt_bulk d (cap - length h) (Some ms) 7) =
        Some (length b1, (h @ b1) @ d2)"
      "length d2 = length resp - length (h @ b1)"
    using at_offset_text [of "\<lambda>d. ks_fmt_bulk d (cap - length h) (Some ms) 7" d1 "cap - length h" b1 h] 1 by auto
  define c2 where c2: "c2 = cap - length (h @ b1)"
  have "length b2 < c2" "c2 \<le> length d2" using len cap 2 by (simp_all add: c2)
  moreover have "emits (ks_fmt_bulk (Some d2) c2 (Some ch) (length ch)) d2 c2 b2"
    using bulk_emits [of ch c2 d2] len cap 2 by (simp add: b c2)
  ultimately
  obtain d3 where
    3: "at_offset ((h @ b1) @ d2) (length (h @ b1)) (\<lambda>d. ks_fmt_bulk d c2 (Some ch) (length ch)) =
        Some (length b2, (h @ b1 @ b2) @ d3)"
      "length d3 = length resp - length (h @ b1 @ b2)"
    using at_offset_text [of "\<lambda>d. ks_fmt_bulk d c2 (Some ch) (length ch)" d2 c2 b2 "h @ b1"] 2 by auto
  define c3 where c3: "c3 = cap - length (h @ b1 @ b2)"
  have "length b3 < c3" "c3 \<le> length d3" using len cap 3 by (simp_all add: c3)
  moreover have "emits (ks_fmt_bulk (Some d3) c3 (Some m) (length m)) d3 c3 b3"
    using bulk_emits [of m c3 d3] len cap 3 by (simp add: b c3)
  ultimately
  obtain d4 where
    4: "at_offset ((h @ b1 @ b2) @ d3) (length (h @ b1 @ b2)) (\<lambda>d. ks_fmt_bulk d c3 (Some m) (length m)) =
        Some (length b3, message_text ch m @ d4)"
    using at_offset_text [of "\<lambda>d. ks_fmt_bulk d c3 (Some m) (length m)" d3 c3 b3 "h @ b1 @ b2"] 3
    by (auto simp: T)
  show ?thesis
    using 1(1) 2(1) 3(1) 4 pos
    by (simp add: format_pubsub_message_def hm(2) [symmetric] c2 c3 T Let_def add.assoc)
qed

section \<open>Delivery\<close>

text \<open>
  The clients \<open>I\<close> are handed a frame: who takes it, and how a client changes. \<open>used_ids\<close> are
  the identifiers in use.
\<close>

definition takes :: "ks_pubsub_client_id set \<Rightarrow> bytes \<Rightarrow> ks_client \<Rightarrow> bool" where
  "takes I frame c \<longleftrightarrow> cl_used c \<and> cl_id c \<in> I \<and> \<not> cl_drop_connection c \<and>
     pending c + length frame \<le> KS_OUTPUT_CAP"

definition handed :: "ks_pubsub_client_id set \<Rightarrow> bytes \<Rightarrow> ks_client \<Rightarrow> ks_client \<Rightarrow> bool" where
  "handed I frame c c' \<longleftrightarrow>
     (if takes I frame c then queued c frame c'
      else if cl_used c \<and> cl_id c \<in> I \<and> \<not> cl_drop_connection c
      then \<exists>c1. queued c [] c1 \<and> c' = c1\<lparr>cl_drop_connection := True\<rparr>
      else c' = c)"

definition used_ids :: "ks_client list \<Rightarrow> ks_pubsub_client_id list" where
  "used_ids cs = map cl_id (filter cl_used cs)"

lemma used_ids_simps [simp]:
  "used_ids [] = []" "used_ids (c # cs) = (if cl_used c then cl_id c # used_ids cs else used_ids cs)"
  by (simp_all add: used_ids_def)

lemma in_used_ids: "c \<in> set cs \<Longrightarrow> cl_used c \<Longrightarrow> cl_id c \<in> set (used_ids cs)"
  by (auto simp: used_ids_def)

lemma handed_none: "\<forall>c \<in> set cs. \<not> (cl_used c \<and> cl_id c \<in> I) \<Longrightarrow> list_all2 (handed I frame) cs cs"
  by (auto simp: list_all2_same handed_def takes_def)

lemma handedD:
  assumes "handed I frame c c'" "client_ok c"
  shows "client_ok c'" "cl_used c' = cl_used c" "cl_id c' = cl_id c" "cl_fd c' = cl_fd c"
    "cl_input c' = cl_input c" "cl_input_len c' = cl_input_len c"
    "cl_close_after_write c' = cl_close_after_write c"
  using assms
  by (auto simp: handed_def client_ok_def dest: queuedD split: if_splits)

lemma deliver_spec:
  assumes "\<forall>c \<in> set cs. client_ok c" "distinct (used_ids cs)"
    and m: "length (message_text ch m) < KS_MAX_REQUEST + 128" "length m < 2 ^ 64"
  shows "\<exists>cs'. deliver_pubsub_message i ch (Some m) (of_nat (length m)) cs =
      Some (\<exists>c \<in> set cs. takes {i} (message_text ch m) c, cs') \<and>
    list_all2 (handed {i} (message_text ch m)) cs cs'"
  using assms(1,2)
proof (induction cs)
  case (Cons c cs)
  let ?f = "message_text ch m"
  have n: "unat (of_nat (length m) :: u64) = length m"
    using m(2) by (simp add: unsigned_of_nat take_bit_nat_eq_self)
  show ?case
  proof (cases "cl_used c \<and> cl_id c = i")
    case False
    moreover from Cons have "\<exists>cs'. deliver_pubsub_message i ch (Some m) (of_nat (length m)) cs =
      Some (\<exists>c \<in> set cs. takes {i} ?f c, cs') \<and> list_all2 (handed {i} ?f) cs cs'" by (auto split: if_splits)
    moreover from False have "\<not> takes {i} ?f c" "handed {i} ?f c c" by (auto simp: takes_def handed_def)
    ultimately show ?thesis by fastforce
  next
    case True
    then have c: "client_ok c" "cl_used c" "cl_id c = i" using Cons.prems by simp_all
    have others: "\<forall>d \<in> set cs. \<not> (cl_used d \<and> cl_id d \<in> {i})"
      using Cons.prems(2) c in_used_ids by fastforce
    then have none: "\<not> (\<exists>d \<in> set cs. takes {i} ?f d)" by (auto simp: takes_def)
    note rest = handed_none [OF others, of ?f]
    show ?thesis
    proof (cases "cl_drop_connection c")
      case drop: True
      with c have "\<not> takes {i} ?f c" "handed {i} ?f c c" by (simp_all add: takes_def handed_def)
      with drop c none rest show ?thesis by auto
    next
      case False
      from format_message_spec [of ch m "KS_MAX_REQUEST + 128" "fresh (KS_MAX_REQUEST + 128)"] m(1)
      obtain d where d: "format_pubsub_message (fresh (KS_MAX_REQUEST + 128)) (KS_MAX_REQUEST + 128) ch (Some m) (length m) =
        Some (length ?f, ?f @ d)" by (auto simp: KS_MAX_REQUEST_def)
      have ne: "length ?f \<noteq> 0" by (simp add: message_text_def)
      have tk: "take (length ?f) (?f @ d) = ?f" by simp
      from client_queue_spec [OF c(1,2), of "length ?f" "?f @ d", unfolded tk] obtain c' where
        q: "if pending c + length ?f \<le> KS_OUTPUT_CAP
          then client_queue c (?f @ d) (length ?f) = Some (0, c') \<and> queued c ?f c'
          else client_queue c (?f @ d) (length ?f) = Some (- 1, c') \<and> queued c [] c'" by auto
      show ?thesis
      proof (cases "pending c + length ?f \<le> KS_OUTPUT_CAP")
        case room: True
        with q False c have "takes {i} ?f c" "handed {i} ?f c c'" by (simp_all add: takes_def handed_def)
        with room q False c d ne n none rest show ?thesis by auto
      next
        case full: False
        with q False c have "\<not> takes {i} ?f c" "handed {i} ?f c (c'\<lparr>cl_drop_connection := True\<rparr>)"
          by (auto simp: takes_def handed_def)
        with full q False c d ne n none rest show ?thesis by auto
      qed
    qed
  qed
qed simp

text \<open>Handing the frame to one client after another.\<close>

lemma handed_insert:
  assumes "handed {i} frame c c1" "handed I frame c1 c2" "i \<notin> I" "client_ok c"
  shows "handed (insert i I) frame c c2"
proof -
  note d = handedD [OF assms(1,4)]
  show ?thesis
  proof (cases "cl_id c = i")
    case True
    with d assms(3) have "c2 = c1" using assms(2) by (simp add: handed_def takes_def)
    with assms(1) True show ?thesis by (simp add: handed_def takes_def)
  next
    case False
    then have "c1 = c" using assms(1) by (simp add: handed_def takes_def)
    with assms(2) False show ?thesis by (simp add: handed_def takes_def)
  qed
qed

lemma handed_takes:
  assumes "handed {i} frame c c1" "i \<notin> I" "client_ok c"
  shows "takes I frame c1 = takes I frame c"
  using assms(1,2) handedD [OF assms(1,3)] by (cases "cl_id c = i") (simp_all add: handed_def takes_def)

lemma handed_list:
  assumes "list_all2 (handed I frame) cs cs'" "\<forall>c \<in> set cs. client_ok c"
  shows "\<forall>c \<in> set cs'. client_ok c" "used_ids cs' = used_ids cs" "length cs' = length cs"
proof -
  have "(\<forall>c \<in> set cs'. client_ok c) \<and> used_ids cs' = used_ids cs \<and> length cs' = length cs"
    using assms by (induction rule: list_all2_induct) (auto dest: handedD)
  then show "\<forall>c \<in> set cs'. client_ok c" "used_ids cs' = used_ids cs" "length cs' = length cs" by auto
qed

lemma count_takes_insert:
  assumes "distinct (used_ids cs)" "i \<notin> I"
  shows "length (filter (takes (insert i I) frame) cs) =
    (if \<exists>c \<in> set cs. takes {i} frame c then 1 else 0) + length (filter (takes I frame) cs)"
  using assms(1)
proof (induction cs)
  case (Cons c cs)
  have "\<not> (\<exists>d \<in> set cs. takes {i} frame d)" if "takes {i} frame c"
    using that Cons.prems in_used_ids [of _ cs] by (auto simp: takes_def) metis
  moreover have "takes (insert i I) frame c \<longleftrightarrow> takes {i} frame c \<or> takes I frame c"
    "\<not> (takes {i} frame c \<and> takes I frame c)" using assms(2) by (auto simp: takes_def)
  ultimately show ?case using Cons by (auto split: if_splits)
qed simp

lemma publish_loop_spec:
  assumes "\<forall>c \<in> set cs. client_ok c" "distinct (used_ids cs)" "distinct ids"
    and m: "length (message_text ch m) < KS_MAX_REQUEST + 128" "length m < 2 ^ 64"
  shows "\<exists>cs'. publish_loop deliver_pubsub_message ids ch (Some m) (of_nat (length m)) cs r =
      Some (r + of_nat (length (filter (takes (set ids) (message_text ch m)) cs)), cs') \<and>
    list_all2 (handed (set ids) (message_text ch m)) cs cs'"
  using assms(1-3)
proof (induction ids arbitrary: cs r)
  case Nil
  show ?case using handed_none [of cs "{}"] by (simp add: takes_def)
next
  case (Cons i ids)
  let ?f = "message_text ch m"
  from deliver_spec [OF Cons.prems(1,2) m, of i] obtain cs1 where
    1: "deliver_pubsub_message i ch (Some m) (of_nat (length m)) cs = Some (\<exists>c \<in> set cs. takes {i} ?f c, cs1)"
      "list_all2 (handed {i} ?f) cs cs1" by blast
  note h = handed_list [OF 1(2) Cons.prems(1)]
  have i: "i \<notin> set ids" "distinct ids" using Cons.prems(3) by simp_all
  let ?r = "if \<exists>c \<in> set cs. takes {i} ?f c then r + 1 else r"
  from Cons.IH [OF h(1) _ i(2), of ?r] Cons.prems(2) h(2) obtain cs2 where
    2: "publish_loop deliver_pubsub_message ids ch (Some m) (of_nat (length m)) cs1 ?r =
        Some (?r + of_nat (length (filter (takes (set ids) ?f) cs1)), cs2)"
      "list_all2 (handed (set ids) ?f) cs1 cs2" by auto
  have n: "\<And>k. k < length cs \<Longrightarrow> client_ok (cs ! k)" using Cons.prems(1) by simp
  have all: "list_all2 (handed (set (i # ids)) ?f) cs cs2"
    using 1(2) 2(2) handed_insert [OF _ _ i(1) n] by (auto simp: list_all2_conv_all_nth)
  have "length (filter (takes (set ids) ?f) cs1) = length (filter (takes (set ids) ?f) cs)"
    using 1(2) Cons.prems(1) by (induction rule: list_all2_induct) (simp_all add: handed_takes [OF _ i(1)])
  with 1(1) 2(1) all count_takes_insert [OF Cons.prems(2) i(1), of ?f] show ?case
    by (intro exI [of _ cs2]) (auto simp: add.commute add.left_commute split: if_splits)
qed

end
