(* ===== verification/Kessel_Protocol_Frame.thy ===== *)
theory Kessel_Protocol_Frame
  imports Kessel_Protocol_Correct
begin

text \<open>
  The parser works in place, on a buffer that also holds the requests that follow. It writes only
  before the NUL that ends its line: \<open>keeps n\<close> says that a buffer is unchanged from index
  \<open>n\<close> on, and every part of the parser keeps the buffer from any NUL on.
\<close>

definition keeps :: "nat \<Rightarrow> bytes \<Rightarrow> bytes \<Rightarrow> bool" where
  "keeps n buf buf' \<longleftrightarrow> length buf' = length buf \<and> drop n buf' = drop n buf"

definition nul_at :: "bytes \<Rightarrow> nat \<Rightarrow> bool" where
  "nul_at buf n \<longleftrightarrow> n < length buf \<and> buf ! n = NUL"

lemma keeps_refl [simp]: "keeps n buf buf"
  by (simp add: keeps_def)

lemma keeps_trans: "keeps n a b \<Longrightarrow> keeps n b c \<Longrightarrow> keeps n a c"
  by (simp add: keeps_def)

lemma keeps_upd: "i < n \<Longrightarrow> keeps n buf (buf[i := c])"
  by (simp add: keeps_def)

lemma keeps_nul: "keeps n buf buf' \<Longrightarrow> nul_at buf n \<Longrightarrow> nul_at buf' n"
  unfolding keeps_def nul_at_def by (metis Cons_nth_drop_Suc list.inject)

lemma rd_before:
  assumes "nul_at buf n" "rd buf i = Some c" "c \<noteq> NUL" "i \<le> n" shows "i < n"
  using assms by (auto simp: nul_at_def rd_def le_less split: if_splits)

lemma trim_keeps: "trim_crlf buf k = Some (buf', k') \<Longrightarrow> k \<le> n \<Longrightarrow> keeps n buf buf'"
proof (induction buf k arbitrary: buf' k' rule: trim_crlf.induct)
  case (2 line m)
  from 2(2) obtain c where c: "rd line m = Some c"
    "(if c = LF \<or> c = CR then wr line m NUL \<bind> (\<lambda>line. trim_crlf line m) else Some (line, Suc m)) = Some (buf', k')"
    by (auto split: bind_splits)
  show ?case
  proof (cases "c = LF \<or> c = CR")
    case True
    with c(2) obtain l where l: "wr line m NUL = Some l" "trim_crlf l m = Some (buf', k')"
      by (auto split: bind_splits)
    from 2(1) [OF c(1) True l] 2(3) l(1) keeps_upd [of m n line NUL] show ?thesis
      by (auto simp: wr_def split: if_splits intro: keeps_trans)
  qed (use c in simp)
qed simp

lemma skip_before:
  assumes "skip_separators buf i = Some j" "nul_at buf n" "i \<le> n" shows "j \<le> n"
  using assms
proof (induction buf i arbitrary: j rule: skip_separators.induct)
  case (1 buf i)
  from "1.prems"(1) obtain c where c: "rd buf i = Some c"
    "(if is_separator c then skip_separators buf (Suc i) else Some i) = Some j"
    by (subst (asm) skip_separators.simps) (auto split: bind_splits)
  show ?case
  proof (cases "is_separator c")
    case True
    then have "c \<noteq> NUL" by auto
    then have "i < n" by (rule rd_before [OF "1.prems"(2) c(1) _ "1.prems"(3)])
    with "1.IH" [OF c(1) True _ "1.prems"(2)] c(2) True show ?thesis by simp
  qed (use c(2) "1.prems"(3) in simp)
qed

lemma scan_word_before:
  assumes "scan_word buf i = Some (ok, j)" "nul_at buf n" "i \<le> n" shows "j \<le> n"
  using assms
proof (induction buf i arbitrary: j rule: scan_word.induct)
  case (1 buf i)
  from "1.prems"(1) obtain c where c: "rd buf i = Some c"
    "(if c \<noteq> NUL \<and> \<not> is_separator c then (if c = DQUOTE then Some (False, i) else scan_word buf (Suc i))
      else Some (True, i)) = Some (ok, j)"
    by (subst (asm) scan_word.simps) (auto split: bind_splits)
  show ?case
  proof (cases "c \<noteq> NUL \<and> \<not> is_separator c \<and> c \<noteq> DQUOTE")
    case True
    then have "i < n" using rd_before [OF "1.prems"(2) c(1) _ "1.prems"(3)] by auto
    with "1.IH" [OF c(1) _ _ _ "1.prems"(2)] c(2) True show ?thesis by simp
  qed (use c(2) "1.prems"(3) in \<open>auto split: if_splits\<close>)
qed

lemma scan_quoted_keeps:
  assumes "scan_quoted buf r w = Some (ok, buf', r', w')" "nul_at buf n" "r \<le> n" "w \<le> r"
  shows "keeps n buf buf' \<and> r' \<le> n \<and> w' \<le> r'"
  using assms
proof (induction buf r w arbitrary: buf' r' w' rule: scan_quoted.induct)
  case (1 buf r w)
  from "1.prems"(1) obtain c where c: "rd buf r = Some c" by (subst (asm) scan_quoted.simps) (auto split: bind_splits)
  show ?case
  proof (cases "c \<noteq> NUL \<and> c \<noteq> DQUOTE")
    case False
    with "1.prems" c show ?thesis by (subst (asm) scan_quoted.simps) auto
  next
    case True
    then have r: "r < n" using rd_before [OF "1.prems"(2) c _ "1.prems"(3)] by auto
    let ?r = "if c = BSLASH then Suc r else r"
    from "1.prems"(1) c True obtain d where d: "rd buf ?r = Some d"
      "(if c = BSLASH \<and> d \<noteq> DQUOTE \<and> d \<noteq> BSLASH then Some (False, buf, ?r, w)
        else if w < length buf then scan_quoted (buf[w := d]) (Suc ?r) (Suc w) else None) = Some (ok, buf', r', w')"
      by (subst (asm) scan_quoted.simps) (auto simp: Let_def split: bind_splits)
    show ?thesis
    proof (cases "c = BSLASH \<and> d \<noteq> DQUOTE \<and> d \<noteq> BSLASH")
      case bad: True
      with d(2) r "1.prems"(4) show ?thesis by auto
    next
      case False
      then have "c = BSLASH \<Longrightarrow> d \<noteq> NUL" by auto
      then have R: "?r < n" using r rd_before [OF "1.prems"(2) d(1)] by (cases "c = BSLASH") auto
      have w: "w < length buf" "scan_quoted (buf[w := d]) (Suc ?r) (Suc w) = Some (ok, buf', r', w')"
        using d(2) False by (simp_all split: if_splits)
      have k: "keeps n buf (buf[w := d])" using "1.prems"(4) r by (intro keeps_upd) simp
      from "1.IH" [OF c True refl d(1) False w keeps_nul [OF k "1.prems"(2)]] R "1.prems"(4)
        keeps_trans [OF k] show ?thesis by auto
    qed
  qed
qed

lemma wr_keeps: "wr buf i c = Some buf' \<Longrightarrow> i < n \<Longrightarrow> keeps n buf buf'"
  by (auto simp: wr_def keeps_upd split: if_splits)

text \<open>The two kinds of token, unfolded.\<close>

lemma parse_token_quoted:
  assumes "rd buf cursor = Some DQUOTE"
  shows "parse_token buf cursor = do {
      (ok, buf, read, write) \<leftarrow> scan_quoted buf (Suc cursor) (Suc cursor);
      if \<not> ok then Some (False, buf, cursor, Suc cursor)
      else do {
        c \<leftarrow> rd buf read;
        if c \<noteq> DQUOTE then Some (False, buf, cursor, Suc cursor)
        else do {
          c \<leftarrow> rd buf (Suc read);
          if c \<noteq> NUL \<and> \<not> is_separator c then Some (False, buf, cursor, Suc cursor)
          else do {
            buf \<leftarrow> wr buf write NUL;
            read \<leftarrow> skip_separators buf (Suc read);
            Some (True, buf, read, Suc cursor) } } } }"
  using assms by (simp add: parse_token_def Let_def cong: if_cong)

lemma parse_token_plain:
  assumes "rd buf cursor = Some c" "c \<noteq> DQUOTE"
  shows "parse_token buf cursor = do {
      (ok, read) \<leftarrow> scan_word buf cursor;
      if \<not> ok then Some (False, buf, cursor, cursor)
      else do {
        c \<leftarrow> rd buf read;
        (buf, read) \<leftarrow> (if c \<noteq> NUL then do { buf \<leftarrow> wr buf read NUL; Some (buf, Suc read) }
                      else Some (buf, read));
        read \<leftarrow> skip_separators buf read;
        Some (True, buf, read, cursor) } }"
  using assms by (simp add: parse_token_def Let_def cong: if_cong)

lemma parse_token_keeps_quoted:
  assumes t: "parse_token buf cursor = Some (ok, buf', cursor', token)" and n: "nul_at buf n" "cursor \<le> n"
    and c: "rd buf cursor = Some DQUOTE"
  shows "keeps n buf buf' \<and> cursor' \<le> n \<and> token \<le> n"
proof -
  have lt: "cursor < n" using rd_before [OF n(1) c _ n(2)] by simp
  from t obtain ok1 b r w where q: "scan_quoted buf (Suc cursor) (Suc cursor) = Some (ok1, b, r, w)"
    unfolding parse_token_quoted [OF c] by (cases "scan_quoted buf (Suc cursor) (Suc cursor)") auto
  have k: "keeps n buf b" "r \<le> n" "w \<le> r" using scan_quoted_keeps [OF q n(1)] lt by auto
  note nb = keeps_nul [OF k(1) n(1)]
  show ?thesis
  proof (cases "ok1 \<and> rd b r = Some DQUOTE")
    case False
    with t q k(1) lt show ?thesis
      unfolding parse_token_quoted [OF c] by (cases "rd b r") (auto split: if_splits)
  next
    case True
    then have r: "r < n" using rd_before [OF nb _ _ k(2)] by auto
    show ?thesis
    proof (cases "rd b (Suc r)")
      case None
      with t q True show ?thesis unfolding parse_token_quoted [OF c] by simp
    next
      case (Some d)
      show ?thesis
      proof (cases "d \<noteq> NUL \<and> \<not> is_separator d")
        case bad: True
        with t q True Some k(1) lt show ?thesis unfolding parse_token_quoted [OF c] by simp
      next
        case False
        with t q True Some obtain b2 where b2: "wr b w NUL = Some b2" "skip_separators b2 (Suc r) = Some cursor'"
            "buf' = b2" "token = Suc cursor"
          unfolding parse_token_quoted [OF c] by (cases "wr b w NUL") (auto split: bind_splits)
        have k2: "keeps n b b2" using b2(1) k(3) r by (intro wr_keeps [of b w]) simp_all
        have "cursor' \<le> n" using skip_before [OF b2(2) keeps_nul [OF k2 nb]] r by simp
        with keeps_trans [OF k(1) k2] b2 lt show ?thesis by simp
      qed
    qed
  qed
qed

lemma parse_token_keeps_plain:
  assumes t: "parse_token buf cursor = Some (ok, buf', cursor', token)" and n: "nul_at buf n" "cursor \<le> n"
    and c: "rd buf cursor = Some c" "c \<noteq> DQUOTE"
  shows "keeps n buf buf' \<and> cursor' \<le> n \<and> token \<le> n"
proof -
  from t obtain ok1 r where w: "scan_word buf cursor = Some (ok1, r)"
    unfolding parse_token_plain [OF c] by (cases "scan_word buf cursor") auto
  have r: "r \<le> n" by (rule scan_word_before [OF w n])
  show ?thesis
  proof (cases "ok1")
    case False
    with t w n show ?thesis unfolding parse_token_plain [OF c] by simp
  next
    case True
    with t w obtain d where d: "rd buf r = Some d"
      unfolding parse_token_plain [OF c] by (cases "rd buf r") auto
    show ?thesis
    proof (cases "d = NUL")
      case nul: True
      with t w True d have "skip_separators buf r = Some cursor'" "buf' = buf" "token = cursor"
        unfolding parse_token_plain [OF c] by (auto split: bind_splits)
      with skip_before [OF this(1) n(1) r] n show ?thesis by simp
    next
      case False
      with t w True d obtain b2 where b2: "wr buf r NUL = Some b2" "skip_separators b2 (Suc r) = Some cursor'"
          "buf' = b2" "token = cursor"
        unfolding parse_token_plain [OF c] by (cases "wr buf r NUL") (auto split: bind_splits)
      have lt: "r < n" by (rule rd_before [OF n(1) d False r])
      have k: "keeps n buf b2" by (rule wr_keeps [OF b2(1) lt])
      have "cursor' \<le> n" using skip_before [OF b2(2) keeps_nul [OF k n(1)]] lt by simp
      with k b2 n show ?thesis by simp
    qed
  qed
qed

lemma parse_token_keeps:
  assumes "parse_token buf cursor = Some (ok, buf', cursor', token)" "nul_at buf n" "cursor \<le> n"
  shows "keeps n buf buf' \<and> cursor' \<le> n \<and> token \<le> n"
proof (cases "rd buf cursor")
  case None
  with assms(1) show ?thesis by (simp add: parse_token_def)
next
  case (Some c)
  then show ?thesis
    using parse_token_keeps_quoted [OF assms] parse_token_keeps_plain [OF assms] by (cases "c = DQUOTE") simp_all
qed

lemma parse_args_keeps:
  assumes "parse_args buf cursor out = Some (ok, buf', out')" "nul_at buf n" "cursor \<le> n"
  shows "keeps n buf buf' \<and> (ok \<longrightarrow> c_cmd out' = c_cmd out)"
proof -
  define P :: "bytes \<Rightarrow> nat \<Rightarrow> ks_cmd \<Rightarrow> bool \<times> bytes \<times> ks_cmd \<Rightarrow> bool" where
    "P buf cursor out r \<longleftrightarrow> (nul_at buf n \<longrightarrow> cursor \<le> n \<longrightarrow>
       keeps n buf (fst (snd r)) \<and> (fst r \<longrightarrow> c_cmd (snd (snd r)) = c_cmd out))" for buf cursor out r
  have "P buf cursor out (ok, buf', out')"
  proof (rule parse_args.raw_induct [of P buf cursor out, OF _ assms(1)])
    fix f buf cursor out r
    assume IH: "\<And>b k o' r. f b k o' = Some r \<Longrightarrow> P b k o' r"
      and run: "do {
        c \<leftarrow> rd buf cursor;
        if c = NUL then Some (True, buf, out)
        else if c_argc out = KS_MAX_ARGS then Some (False, buf, clear_command out)
        else do {
          (ok, buf, cursor, token) \<leftarrow> parse_token buf cursor;
          if \<not> ok then Some (False, buf, clear_command out)
          else f buf cursor
                 (out\<lparr>c_argv := (c_argv out)[c_argc out := Some token], c_argc := Suc (c_argc out)\<rparr>) } } = Some r"
    from run consider "r = (True, buf, out)" | "r = (False, buf, clear_command out)"
      | ok b k t where "parse_token buf cursor = Some (ok, b, k, t)" "\<not> ok" "r = (False, b, clear_command out)"
      | b k t where "parse_token buf cursor = Some (True, b, k, t)"
          "f b k (out\<lparr>c_argv := (c_argv out)[c_argc out := Some t], c_argc := Suc (c_argc out)\<rparr>) = Some r"
      by (auto split: bind_splits if_splits)
    then show "P buf cursor out r"
    proof cases
      case 3
      then show ?thesis using parse_token_keeps [OF 3(1)] by (auto simp: P_def)
    next
      case 4
      show ?thesis
        using IH [OF 4(2)] parse_token_keeps [OF 4(1), of n] keeps_nul [of n buf b] keeps_trans [of n buf b "fst (snd r)"]
        by (auto simp: P_def)
    qed (simp_all add: P_def)
  qed
  with assms(2,3) show ?thesis by (simp add: P_def)
qed

lemma upcase_keeps:
  assumes "upcase_from buf p = Some buf'" "nul_at buf n" "p \<le> n" shows "keeps n buf buf'"
  using assms
proof (induction buf p arbitrary: buf' rule: upcase_from.induct)
  case (1 buf p)
  from "1.prems"(1) obtain c where c: "rd buf p = Some c" by (subst (asm) upcase_from.simps) (auto split: bind_splits)
  show ?case
  proof (cases "c = NUL")
    case True
    with "1.prems"(1) c show ?thesis by (subst (asm) upcase_from.simps) simp
  next
    case False
    then have lt: "p < n" by (rule rd_before [OF "1.prems"(2) c _ "1.prems"(3)])
    from "1.prems"(1) c False have u: "upcase_from (buf[p := c_toupper c]) (Suc p) = Some buf'"
      by (subst (asm) upcase_from.simps) simp
    note k = keeps_upd [OF lt, of buf "c_toupper c"]
    from keeps_trans [OF k "1.IH" [OF c False u keeps_nul [OF k "1.prems"(2)]]] lt show ?thesis by simp
  qed
qed

text \<open>The whole parser keeps the NUL of its line and all that follows it.\<close>

lemma parse_line_keeps:
  assumes "ks_parse_line (Some buf) out = Some (ok, Some buf', out')" "NUL \<in> set buf"
  shows "keeps (length (content buf)) buf buf'"
proof -
  let ?n = "length (content buf)"
  have n: "nul_at buf ?n" using content_short [of buf "Suc ?n"] content_end assms(2) by (simp add: nul_at_def)
  have len: "bounded_length buf (KS_MAX_REQUEST + 3) = Some (min (KS_MAX_REQUEST + 3) ?n)"
    unfolding bounded_length_def by (rule bounded_length_spec) (use assms(2) in simp_all)
  show ?thesis
  proof (cases "min (KS_MAX_REQUEST + 3) ?n > KS_MAX_REQUEST + 2")
    case True
    with assms(1) len show ?thesis by (simp add: ks_parse_line_def)
  next
    case False
    with assms(1) len obtain b k where t: "trim_crlf buf (min (KS_MAX_REQUEST + 3) ?n) = Some (b, k)"
      by (auto simp: ks_parse_line_def Let_def split: bind_splits)
    have kb: "keeps ?n buf b" by (rule trim_keeps [OF t]) simp
    note nb = keeps_nul [OF kb n]
    from assms(1) len t False consider "buf' = b"
      | i where "skip_separators b 0 = Some i" "\<exists>ok j t. parse_token b i = Some (ok, buf', j, t)"
      | i b1 j t ok2 o2 where "skip_separators b 0 = Some i" "parse_token b i = Some (True, b1, j, t)"
          "parse_args b1 j ((clear_command out)\<lparr>c_cmd := Some t\<rparr>) = Some (ok2, buf', o2)"
      | i b1 j t b2 o2 p where "skip_separators b 0 = Some i" "parse_token b i = Some (True, b1, j, t)"
          "parse_args b1 j ((clear_command out)\<lparr>c_cmd := Some t\<rparr>) = Some (True, b2, o2)"
          "c_cmd o2 = Some p" "upcase_from b2 p = Some buf'"
      by (auto simp: ks_parse_line_def Let_def split: bind_splits if_splits)
    then show ?thesis
    proof cases
      case 1
      with kb show ?thesis by simp
    next
      case (2 i)
      from skip_before [OF 2(1) nb] 2(2) parse_token_keeps [of b i _ buf' _ _ ?n] nb keeps_trans [OF kb]
      show ?thesis by auto
    next
      case (3 i b1 j t ok2 o2)
      have i: "i \<le> ?n" by (rule skip_before [OF 3(1) nb]) simp
      have k1: "keeps ?n b b1" "j \<le> ?n" using parse_token_keeps [OF 3(2) nb i] by auto
      from parse_args_keeps [OF 3(3) keeps_nul [OF k1(1) nb] k1(2)] keeps_trans [OF keeps_trans [OF kb k1(1)]]
      show ?thesis by simp
    next
      case (4 i b1 j t b2 o2 p)
      have i: "i \<le> ?n" by (rule skip_before [OF 4(1) nb]) simp
      have k1: "keeps ?n b b1" "j \<le> ?n" "t \<le> ?n" using parse_token_keeps [OF 4(2) nb i] by auto
      note n1 = keeps_nul [OF k1(1) nb]
      have k2: "keeps ?n b1 b2" "p = t" using parse_args_keeps [OF 4(3) n1 k1(2)] 4(4) by auto
      from upcase_keeps [OF 4(5) keeps_nul [OF k2(1) n1]] k2(2) k1(3)
        keeps_trans [OF keeps_trans [OF keeps_trans [OF kb k1(1)] k2(1)]] show ?thesis by simp
    qed
  qed
qed

end
