(* ===== verification/Kessel_Server_Handle.thy ===== *)
theory Kessel_Server_Handle
  imports Kessel_Server_Publish Kessel_Protocol_Frame
begin

text \<open>
  \<open>handle_command\<close>: the line is parsed in place, the command is carried out. The theory joins
  the parser with the commands and shows what a line does to the server: exactly one response to
  its client, the effect of the operation it names, and the input behind the line untouched.
\<close>

section \<open>The size of a request bounds its arguments\<close>

lemma unquote_length: "unquote s = Some (w, rest) \<Longrightarrow> length w + length rest \<le> length s"
  by (induction s arbitrary: w rest rule: unquote.induct) (fastforce split: if_splits list.splits)+

lemma next_word_length:
  assumes "next_word s = Some (w, rest)" shows "length w + length rest \<le> length s"
proof (cases s)
  case Nil
  with assms show ?thesis by (simp add: next_word_def)
next
  case (Cons c cs)
  show ?thesis
  proof (cases "c = DQUOTE")
    case True
    with assms Cons unquote_length [of cs w rest] show ?thesis
      by (auto simp: next_word_def split: option.splits if_splits)
  next
    case False
    with assms Cons have "w = takeWhile (\<lambda>c. \<not> is_separator c) s" "rest = drop (length w) s"
      by (auto simp: next_word_def Let_def split: if_splits)
    moreover have "length (takeWhile (\<lambda>c. \<not> is_separator c) s) \<le> length s" by (rule length_takeWhile_le)
    ultimately show ?thesis by simp
  qed
qed

lemma words_length: "words s = Some ws \<Longrightarrow> sum_list (map length ws) \<le> length s"
proof (induction s arbitrary: ws rule: words.induct)
  case (1 s)
  let ?t = "dropWhile is_separator s"
  have len: "length ?t \<le> length s" by (rule length_dropWhile_le)
  show ?case
  proof (cases "?t = []")
    case True
    with "1.prems" have "ws = []" by (subst (asm) words.simps) simp
    then show ?thesis by simp
  next
    case False
    with "1.prems" obtain w rest ws' where w: "next_word ?t = Some (w, rest)" "words rest = Some ws'" "ws = w # ws'"
      by (subst (asm) words.simps) (auto simp del: dropWhile_eq_Nil_conv split: option.splits)
    from "1.IH" [OF refl False w(1) refl w(2)] next_word_length [OF w(1)] len w(3) show ?thesis by simp
  qed
qed

lemma parse_spec_length:
  assumes "parse_spec s = Some (cmd, args)"
  shows "length cmd + sum_list (map length args) \<le> KS_MAX_REQUEST"
proof -
  from assms obtain c where "words (trimmed s) = Some (c # args)" "cmd = map c_toupper c"
    "length (trimmed s) \<le> KS_MAX_REQUEST"
    by (auto simp: parse_spec_def split: if_splits option.splits list.splits)
  with words_length [of "trimmed s" "c # args"] show ?thesis by simp
qed

section \<open>Parsing a line of the input buffer\<close>

lemma cstr_of_at: "cstr_at buf p w \<Longrightarrow> cstr buf p = Some w"
  unfolding cstr_at_iff cstr_def by (auto simp: takeWhile_append)

lemma those_map_Some:
  assumes "list_all2 (\<lambda>x y. f x = Some y) xs ys" shows "those (map f xs) = Some ys"
  using assms by (induction rule: list_all2_induct) simp_all

lemma args_of_spec:
  assumes "list_all2 (cstr_at buf) ps args" "c_argc out = length ps"
    "c_argv out = map Some ps @ replicate k None"
  shows "args_of buf out = Some args"
  unfolding args_of_def using assms
  by (auto simp: comp_def intro!: those_map_Some elim!: list_all2_mono dest: cstr_of_at)

lemma parse_result_cases:
  assumes "parse_result out buf spec res"
  shows "\<exists>ok b out'. res = Some (ok, Some b, out') \<and>
    (case spec of None \<Rightarrow> \<not> ok
     | Some (cmd, args) \<Rightarrow> ok \<and> (\<exists>p ps. c_cmd out' = Some p \<and> cstr_at b p cmd \<and>
         list_all2 (cstr_at b) ps args \<and> c_argc out' = length ps \<and>
         c_argv out' = map Some ps @ replicate (KS_MAX_ARGS - length ps) None))"
proof (cases spec)
  case None
  with assms show ?thesis by (auto simp: parse_result_def)
next
  case (Some q)
  with assms show ?thesis unfolding parse_result_def
    by (cases q) (simp, elim exE conjE, intro exI conjI, assumption, simp_all)
qed

text \<open>The server in which a line is carried out: one more command, the line rewritten.\<close>

definition parsed :: "ks_server \<Rightarrow> nat \<Rightarrow> bytes \<Rightarrow> ks_server" where
  "parsed s ci input = (case get_client s ci of None \<Rightarrow> s | Some c \<Rightarrow>
     put_client (s\<lparr>sv_metrics := (sv_metrics s)\<lparr>mt_total_commands := mt_total_commands (sv_metrics s) + 1\<rparr>\<rparr>)
       ci (c\<lparr>cl_input := input\<rparr>))"

definition line_at :: "bytes \<Rightarrow> nat \<Rightarrow> string" where
  "line_at input line = content (drop line input)"

lemma handle_command_parsed:
  assumes c: "get_client s ci = Some c" and nul: "NUL \<in> set (drop line (cl_input c))"
  obtains input where "length input = length (cl_input c)" "take line input = take line (cl_input c)"
    "drop (line + length (line_at (cl_input c) line)) input =
      drop (line + length (line_at (cl_input c) line)) (cl_input c)"
    "handle_command env cfg s ci line =
      (case parse_spec (line_at (cl_input c) line) of
         None \<Rightarrow> reply_error (parsed s ci input) ci ''invalid command''
       | Some (cmd, args) \<Rightarrow> dispatch (ce_alloc env (mt_total_commands (sv_metrics s)))
           (ce_time env (mt_total_commands (sv_metrics s))) cfg (parsed s ci input) ci cmd args)"
proof -
  let ?buf = "drop line (cl_input c)" and ?out = "\<lparr>c_cmd = None, c_argv = [], c_argc = 0\<rparr>"
  let ?spec = "parse_spec (content ?buf)"
  have len: "line < length (cl_input c)" using nul by (cases "line < length (cl_input c)") simp_all
  have "parse_result ?out ?buf ?spec (ks_parse_line (Some ?buf) ?out)"
    by (rule parse_line_result) (use nul in simp)
  from parse_result_cases [OF this] obtain ok b out' where p: "ks_parse_line (Some ?buf) ?out = Some (ok, Some b, out')"
      "case ?spec of None \<Rightarrow> \<not> ok
       | Some (cmd, args) \<Rightarrow> ok \<and> (\<exists>p ps. c_cmd out' = Some p \<and> cstr_at b p cmd \<and>
           list_all2 (cstr_at b) ps args \<and> c_argc out' = length ps \<and>
           c_argv out' = map Some ps @ replicate (KS_MAX_ARGS - length ps) None)" by blast
  have k: "keeps (length (content ?buf)) ?buf b" by (rule parse_line_keeps [OF p(1) nul])
  let ?input = "take line (cl_input c) @ b"
  show thesis
  proof (rule that [of ?input])
    show "length ?input = length (cl_input c)" "take line ?input = take line (cl_input c)"
      using k len by (simp_all add: keeps_def)
    have "drop (length (content ?buf)) b = drop (length (content ?buf)) ?buf" using k by (simp add: keeps_def)
    then show "drop (line + length (line_at (cl_input c) line)) ?input =
        drop (line + length (line_at (cl_input c) line)) (cl_input c)"
      using len by (simp add: line_at_def add.commute)
    show "handle_command env cfg s ci line =
      (case parse_spec (line_at (cl_input c) line) of
         None \<Rightarrow> reply_error (parsed s ci ?input) ci ''invalid command''
       | Some (cmd, args) \<Rightarrow> dispatch (ce_alloc env (mt_total_commands (sv_metrics s)))
           (ce_time env (mt_total_commands (sv_metrics s))) cfg (parsed s ci ?input) ci cmd args)"
    proof (cases ?spec)
      case None
      with p c show ?thesis by (simp add: handle_command_def parsed_def line_at_def Let_def)
    next
      case (Some q)
      obtain cmd args where q: "q = (cmd, args)" by (cases q)
      with Some p(2) obtain i ps where ps: "ok" "c_cmd out' = Some i" "cstr_at b i cmd" "list_all2 (cstr_at b) ps args"
        "c_argc out' = length ps" "c_argv out' = map Some ps @ replicate (KS_MAX_ARGS - length ps) None" by auto
      with Some q p(1) c cstr_of_at [OF ps(3)] args_of_spec [OF ps(4-6)] show ?thesis
        by (simp add: handle_command_def parsed_def line_at_def Let_def)
    qed
  qed
qed

end
