(* ===== verification/Kessel_Server_Invariant.thy ===== *)
theory Kessel_Server_Invariant
  imports Kessel_Server_Handle
begin

text \<open>
  The invariant of the server and how a request keeps it. \<open>server_inv\<close> says that the buffers
  are well formed, the store and the registry satisfy their invariants, every value fits in a
  response, identifiers of connected clients are distinct, only connected clients are subscribed,
  and the number of connected clients is exact.
\<close>

section \<open>The invariant\<close>

definition server_inv :: "ks_server \<Rightarrow> bool" where
  "server_inv s \<longleftrightarrow>
     (\<forall>c \<in> set (sv_clients s). client_ok c) \<and> distinct (used_ids (sv_clients s)) \<and>
     length (sv_clients s) < FD_SETSIZE \<and>
     store_inv (sv_store s) \<and> small_values (sv_store s) \<and>
     ps_inv (sv_pubsub s) \<and> snd ` ps_members (sv_pubsub s) \<subseteq> set (used_ids (sv_clients s)) \<and>
     mt_connected_clients (sv_metrics s) = of_nat (length (used_ids (sv_clients s))) \<and>
     time_ok (mt_started_at (sv_metrics s))"

lemma server_invD:
  assumes "server_inv s"
  shows "\<forall>c \<in> set (sv_clients s). client_ok c" "distinct (used_ids (sv_clients s))"
    "length (sv_clients s) < FD_SETSIZE" "store_inv (sv_store s)" "small_values (sv_store s)"
    "ps_inv (sv_pubsub s)" "snd ` ps_members (sv_pubsub s) \<subseteq> set (used_ids (sv_clients s))"
    "mt_connected_clients (sv_metrics s) = of_nat (length (used_ids (sv_clients s)))"
    "time_ok (mt_started_at (sv_metrics s))" "kv_inv (sv_store s)"
  using assms by (auto simp: server_inv_def store_inv_def)

lemma get_client_ok: "server_inv s \<Longrightarrow> get_client s ci = Some c \<Longrightarrow> client_ok c"
  by (auto simp: server_inv_def get_client_def split: if_splits)

lemma used_ids_upd:
  assumes "i < length cs" "cl_used c = cl_used (cs ! i)" "cl_id c = cl_id (cs ! i)"
  shows "used_ids (cs[i := c]) = used_ids cs"
  using assms by (induction cs arbitrary: i) (auto split: nat.splits)

text \<open>A client replaced by one of the same identity.\<close>

lemma server_inv_put:
  assumes "server_inv s" "get_client s ci = Some c" "client_ok c'" "cl_used c' = cl_used c" "cl_id c' = cl_id c"
  shows "server_inv (put_client s ci c')"
  using assms used_ids_upd [of ci "sv_clients s" c'] set_update_subset_insert [of "sv_clients s" ci c']
  by (auto simp: server_inv_def put_client_def get_client_def split: if_splits)

section \<open>The store keeps small values\<close>

lemma small_step:
  assumes st: "store_inv st" "small_values st" "kv_step op st = Some (a, st')"
    and small: "\<And>al k v ttl. op = Op_Set al k v ttl \<Longrightarrow> length v \<le> KS_MAX_REQUEST"
  shows "small_values st'"
proof -
  have inv: "kv_inv st" using st(1) by (simp add: store_inv_def)
  have le: "kv_now st \<le> kv_now st'" by (rule kv.step_time [OF st(1,3)])
  have "unat (v_size v) \<le> KS_MAX_REQUEST" if t: "kv_now st' \<le> t" "kv_live t st' k = Some v" for t k v
  proof -
    have now: "kv_now st \<le> t" using le t(1) by simp
    have old: "unat (v_size w) \<le> KS_MAX_REQUEST" if "kv_live u st j = Some w" "kv_now st \<le> u" for u j w
      using st(2) that by (auto simp: small_values_def)
    consider "op_key op \<noteq> Some k" | al x ttl where "op = Op_Set al k x ttl" | "op = Op_Delete k" | ttl where "op = Op_Expire k ttl"
      by (cases op) auto
    then show ?thesis
    proof cases
      case 1
      with kv.step_frame [OF st(1,3), of t k] t le now show ?thesis by (intro old [of t k]) simp_all
    next
      case (2 al x ttl)
      show ?thesis
      proof (cases rule: set_ex_cases [OF inv unat_length_le [of x], of k ttl al, case_names stored refused])
        case (stored s1 s' d)
        with st(3) 2 have "st' = s'" by simp
        with live_after_set [OF stored(5,6) now] t(2) have "v = new_value x (of_nat (length x)) d"
          by (auto split: if_splits)
        then have "unat (v_size v) \<le> length x" using unat_length_le [of x] by (simp add: new_value_def)
        with small [OF 2] show ?thesis by simp
      next
        case (refused s1 s')
        with st(3) 2 have "st' = s'" by simp
        with refused(4) t(2) now show ?thesis by (intro old) (simp_all add: same_live_def)
      qed
    next
      case 3
      with kv_delete [OF inv, of k] st(3) t(2) now show ?thesis by auto
    next
      case (4 ttl)
      show ?thesis
      proof (cases "ttl = 0")
        case True
        with 4 kv_expire_zero [OF inv, of k] st(3) t(2) now show ?thesis by auto
      next
        case False
        show ?thesis
        proof (cases rule: kv_expire_cases [OF inv False, of k, case_names updated missing refused])
          case (updated s1 s' w d)
          with st(3) 4 have "st' = s'" by simp
          with live_after_set [OF updated(6,7) now] t(2) have "v_size v = v_size w" by (auto split: if_splits)
          with old [OF updated(2) order_refl] show ?thesis by simp
        next
          case (missing s')
          with st(3) 4 have "st' = s'" by simp
          with missing(4) t(2) now show ?thesis by (intro old) (simp_all add: same_live_def)
        next
          case (refused s1 s' w)
          with st(3) 4 have "st' = s'" by simp
          with refused(6) t(2) now show ?thesis by (intro old) (simp_all add: same_live_def)
        qed
      qed
    qed
  qed
  then show ?thesis by (auto simp: small_values_def)
qed

lemma store_step:
  assumes "store_inv st" "small_values st"
    and "\<And>al k v ttl. op = Op_Set al k v ttl \<Longrightarrow> length v \<le> KS_MAX_REQUEST"
  obtains a st' where "kv_step op st = Some (a, st')" "store_inv st'" "small_values st'"
proof -
  from kv.step_returns [OF assms(1)] obtain a st' where "kv_step op st = Some (a, st')" by blast
  with kv.step_invar [OF assms(1)] small_step [OF assms(1,2)] assms(3) show thesis by (intro that) blast+
qed

section \<open>What a request does to the server\<close>

text \<open>
  The general form: the clients \<open>I\<close> are handed \<open>frame\<close>, then client \<open>ci\<close> is answered.
\<close>

definition responded ::
    "ks_server \<Rightarrow> nat \<Rightarrow> string \<Rightarrow> ks_pubsub_client_id set \<Rightarrow> bytes \<Rightarrow> ks_kv \<Rightarrow> ks_pubsub \<Rightarrow> ks_server \<Rightarrow> bool" where
  "responded s ci text I frame st p s' \<longleftrightarrow>
     (\<exists>cs c'. list_all2 (handed I frame) (sv_clients s) cs \<and> ci < length cs \<and> queued (cs ! ci) text c' \<and>
        s' = s\<lparr>sv_clients := cs[ci := c'], sv_store := st, sv_pubsub := p\<rparr>)"

lemma answered_responded:
  assumes "answered s ci text st p r"
  obtains s' where "r = Some (0, s')" "responded s ci text {} frame st p s'"
proof -
  from assms obtain c c' where c: "get_client s ci = Some c" "queued c text c'"
    "r = Some (0, put_client (s\<lparr>sv_store := st, sv_pubsub := p\<rparr>) ci c')" by (auto simp: answered_def)
  moreover have "list_all2 (handed {} frame) (sv_clients s) (sv_clients s)" by (rule handed_none) simp
  ultimately have "responded s ci text {} frame st p (put_client (s\<lparr>sv_store := st, sv_pubsub := p\<rparr>) ci c')"
    unfolding responded_def
    by (intro exI [of _ "sv_clients s"] exI [of _ c']) (auto simp: put_client_def get_client_def split: if_splits)
  with c(3) show thesis by (rule that)
qed

lemma responded_inv:
  assumes s: "server_inv s" and r: "responded s ci text I frame st p s'"
    and st: "store_inv st" "small_values st"
    and p: "ps_inv p" "snd ` ps_members p \<subseteq> set (used_ids (sv_clients s))"
  shows "server_inv s'" "used_ids (sv_clients s') = used_ids (sv_clients s)"
    "length (sv_clients s') = length (sv_clients s)"
proof -
  from r obtain cs c' where h: "list_all2 (handed I frame) (sv_clients s) cs" "ci < length cs"
    "queued (cs ! ci) text c'" "s' = s\<lparr>sv_clients := cs[ci := c'], sv_store := st, sv_pubsub := p\<rparr>"
    by (auto simp: responded_def)
  note d = server_invD [OF s]
  note l = handed_list [OF h(1) d(1)]
  note q = queuedD [OF h(3)]
  have u: "used_ids (cs[ci := c']) = used_ids (sv_clients s)"
    using used_ids_upd [OF h(2) q(3,5)] l(2) by simp
  have "\<forall>c \<in> set (cs[ci := c']). client_ok c"
    using l(1) q(1) set_update_subset_insert [of cs ci c'] by auto
  with d st p u l h(4) show "server_inv s'" by (simp add: server_inv_def)
  show "used_ids (sv_clients s') = used_ids (sv_clients s)" "length (sv_clients s') = length (sv_clients s)"
    using u l h(4) by simp_all
qed

section \<open>Publishing\<close>

lemma targets_empty: "ps_inv p \<Longrightarrow> targets p [] = []"
  using targets_spec(2) [of p "[]"] no_empty_name [of p] by auto

lemma publish_all_targets:
  assumes "ps_inv p"
  shows "ks_pubsub_publish (Some p) (Some ch) (Some m) n (Some deliver) ctx =
    publish_loop deliver (targets p ch) ch (Some m) n ctx 0"
proof (cases "ch = []")
  case True
  then show ?thesis using targets_empty [OF assms] by (simp add: ks_pubsub_publish_def)
next
  case False
  then show ?thesis by (simp add: publish_targets [OF assms])
qed

lemma sint_small: "n < 1024 \<Longrightarrow> sint (of_nat n :: u64) = int n"
  by (simp add: sint_uint unsigned_of_nat take_bit_nat_eq_self signed_take_bit_int_eq_self)

lemma dispatch_publish:
  assumes s: "server_inv s" and r: "ready s ci" and m: "length ch + length m \<le> KS_MAX_REQUEST"
  defines "frame \<equiv> message_text ch m" and "I \<equiv> set (targets (sv_pubsub s) ch)"
  shows "\<exists>s'. dispatch al now cfg s ci ''PUBLISH'' [ch, m] = Some (0, s') \<and>
    responded s ci (int_text (int (length (filter (takes I frame) (sv_clients s))))) I frame
      (sv_store s) (sv_pubsub s) s'"
proof -
  note d = server_invD [OF s]
  from r obtain c where c: "get_client s ci = Some c" "client_ok c" "cl_used c"
    "pending c < KS_OUTPUT_HIGH_WATER" by (auto simp: ready_def)
  then have ci: "ci < length (sv_clients s)" "sv_clients s ! ci = c" by (auto simp: get_client_def split: if_splits)
  have f: "length frame \<le> KS_MAX_REQUEST + 41" "length frame < KS_MAX_REQUEST + 128"
    using length_message_text [of ch m] m by (auto simp: frame_def KS_MAX_REQUEST_def)
  let ?n = "length (filter (takes I frame) (sv_clients s))"
  have n: "?n < 1024" using le_less_trans [OF length_filter_le d(3)] by (simp add: FD_SETSIZE_def)
  have "length m < 2 ^ 64" using m by (simp add: KS_MAX_REQUEST_def)
  from publish_loop_spec [OF d(1,2) targets_spec(1) [OF d(6)] f(2) [unfolded frame_def] this, of ch 0]
  obtain cs where p: "publish_loop deliver_pubsub_message (targets (sv_pubsub s) ch) ch (Some m) (of_nat (length m))
      (sv_clients s) 0 = Some (of_nat ?n, cs)" "list_all2 (handed I frame) (sv_clients s) cs"
    by (auto simp: frame_def I_def)
  let ?s = "s\<lparr>sv_clients := cs\<rparr>"
  have cs: "ci < length cs" "handed I frame c (cs ! ci)" using p(2) ci by (auto simp: list_all2_conv_all_nth)
  note h = handedD [OF cs(2) c(2)]
  have pend: "pending (cs ! ci) \<le> pending c + length frame"
    using cs(2) queued_pending [OF _ c(2,3)] by (auto simp: handed_def pending_def split: if_splits)
  have it: "length (int_text (int ?n)) \<le> 23" using fmt_int_word [of "int ?n"] n by (simp add: int_text_def)
  have room: "pending (cs ! ci) + length (int_text (int ?n)) \<le> KS_OUTPUT_CAP"
    using pend c(4) f(1) it by (simp add: KS_OUTPUT_HIGH_WATER_def KS_OUTPUT_CAP_def)
  have "get_client ?s ci = Some (cs ! ci)" using cs(1) by (simp add: get_client_def)
  from reply_text [OF this h(1) _ room reply_emits(2) text_fits(2) text_ne(2)] h(2) c(3) n
  have "answered ?s ci (int_text (int ?n)) (sv_store s) (sv_pubsub s)
      (ks_fmt_int response_buffer RESPONSE_CAP (int ?n) \<bind> reply ?s ci)" by simp
  then obtain c' where "queued (cs ! ci) (int_text (int ?n)) c'"
    "(ks_fmt_int response_buffer RESPONSE_CAP (int ?n) \<bind> reply ?s ci) =
      Some (0, s\<lparr>sv_clients := cs[ci := c']\<rparr>)"
    using cs(1) by (auto simp: answered_def get_client_def put_client_def)
  moreover from this have "dispatch al now cfg s ci ''PUBLISH'' [ch, m] = Some (0, s\<lparr>sv_clients := cs[ci := c']\<rparr>)"
    using p(1) sint_small [OF n] by (simp add: dispatch_def cmd_publish_def publish_all_targets [OF d(6)])
  ultimately show ?thesis
    using p(2) cs(1) by (auto simp: responded_def)
qed

section \<open>Every command returns one response and keeps the invariant\<close>

definition response_ok :: "string \<Rightarrow> bool" where
  "response_ok text \<longleftrightarrow> (\<exists>body. text = body @ [CR, LF]) \<and> hd text \<in> set ''+-:$''"

lemma response_texts [simp]:
  "response_ok (simple_text t)" "response_ok (error_text t)" "response_ok (int_text i)"
  "response_ok (bulk_text d)" "response_ok nil_text"
  by (simp_all add: response_ok_def simple_text_def error_text_def int_text_def bulk_text_def nil_text_def
      Cons_eq_append_conv)

lemma response_answer [simp]: "response_ok (answer_text a)"
  by (cases a) (auto split: option.split)

lemma response_static: "static_reply cmd args = Some text \<Longrightarrow> response_ok text"
proof -
  have "case static_reply cmd args of None \<Rightarrow> True | Some t \<Rightarrow> response_ok t"
    unfolding static_reply_def if_distrib [where f = "case_option True response_ok"] by simp
  then show "static_reply cmd args = Some text \<Longrightarrow> response_ok text" by simp
qed

definition well_answered :: "ks_server \<Rightarrow> nat \<Rightarrow> (int \<times> ks_server) option \<Rightarrow> bool" where
  "well_answered s ci r \<longleftrightarrow> (\<exists>s' text I frame st p. r = Some (0, s') \<and> response_ok text \<and>
     responded s ci text I frame st p s' \<and> I \<subseteq> set (used_ids (sv_clients s)) \<and>
     store_inv st \<and> small_values st \<and> ps_inv p \<and> snd ` ps_members p \<subseteq> set (used_ids (sv_clients s)))"

lemma well_answeredI:
  assumes "answered s ci text st p r" "response_ok text" "store_inv st" "small_values st" "ps_inv p"
    "snd ` ps_members p \<subseteq> set (used_ids (sv_clients s))"
  shows "well_answered s ci r"
proof (rule answered_responded [OF assms(1), of "[]"])
  fix s' assume "r = Some (0, s')" "responded s ci text {} [] st p s'"
  with assms(2-) show ?thesis
    unfolding well_answered_def by (intro exI [of _ s'] exI [of _ "text"] exI [of _ "{}"] exI [of _ "[]"]) auto
qed

lemma command_cases:
  assumes "static_reply cmd args = None"
  obtains op where "kv_command al cmd args = Some op"
  | ch where "cmd = ''SUBSCRIBE''" "args = [ch]"
  | ch where "cmd = ''UNSUBSCRIBE''" "args = [ch]"
  | ch m where "cmd = ''PUBLISH''" "args = [ch, m]"
  | "cmd = ''INFO''" "args = []"
proof -
  have c: "cmd \<in> commands" "arity cmd = Some (length args)"
    using assms by (simp_all add: static_reply_def arity_None split: if_splits)
  consider "args = []" | k where "args = [k]" | k x where "args = [k, x]" | k x y where "args = [k, x, y]"
    | "3 < length args"
    by (cases args rule: list.exhaust; cases "tl args"; cases "tl (tl args)"; cases "tl (tl (tl args))") auto
  then show thesis
  proof cases
    case 1
    with c assms have "cmd = ''INFO''" by (auto simp: arity_def static_reply_def split: if_splits)
    with 1 show ?thesis by (rule that(5) [rotated])
  next
    case (2 k)
    with c(2) have "cmd \<in> {''ECHO'', ''GET'', ''DEL'', ''EXISTS'', ''TTL'', ''SUBSCRIBE'', ''UNSUBSCRIBE''}"
      by (auto simp: arity_def split: if_splits)
    moreover have "cmd \<noteq> ''ECHO''" using assms 2 by (auto simp: arity_def static_reply_def)
    ultimately show ?thesis using that(1-3) 2 by (auto simp: kv_command_def)
  next
    case (3 k x)
    with c(2) have "cmd \<in> {''SET'', ''EXPIRE'', ''PUBLISH''}" by (auto simp: arity_def split: if_splits)
    moreover have "parse_seconds x \<noteq> None" if "cmd = ''EXPIRE''"
      using assms 3 that by (auto simp: arity_def static_reply_def split: if_splits)
    ultimately show ?thesis using that(1,4) 3 by (auto simp: kv_command_def)
  next
    case (4 k x y)
    with c(2) have "cmd = ''SETEX''" by (auto simp: arity_def split: if_splits)
    moreover from this obtain n where "parse_seconds x = Some n" "\<not> n \<le> 0"
      using assms 4 by (auto simp: arity_def static_reply_def split: if_splits)
    ultimately show ?thesis using that(1) 4 by (simp add: kv_command_def)
  next
    case 5
    with c(2) show ?thesis by (auto simp: arity_def split: if_splits)
  qed
qed

lemma subscribe_keeps:
  assumes "ps_inv p" "snd ` ps_members p \<subseteq> U" "i \<in> U"
  shows "\<exists>st p'. ks_pubsub_subscribe al (Some p) (Some ch) i = (st, Some p') \<and> ps_inv p' \<and> snd ` ps_members p' \<subseteq> U"
proof (cases "ch = []")
  case True
  with assms show ?thesis by (simp add: ks_pubsub_subscribe_def)
next
  case False
  from subscribe_spec [OF assms(1) False, of al i] obtain st p' where
    "ks_pubsub_subscribe al (Some p) (Some ch) i = (st, Some p')" "ps_inv p'"
    "ps_members p' = insert (ch, i) (ps_members p) \<or> p' = p" by blast
  with assms show ?thesis by (auto simp: image_subset_iff)
qed

lemma unsubscribe_keeps:
  assumes "ps_inv p" "snd ` ps_members p \<subseteq> U"
  shows "\<exists>st p' ev. ks_pubsub_unsubscribe (Some p) (Some ch) i = (st, Some p', ev) \<and> ps_inv p' \<and> snd ` ps_members p' \<subseteq> U"
proof (cases "ch = []")
  case True
  with assms show ?thesis by (simp add: ks_pubsub_unsubscribe_def)
next
  case False
  from unsubscribe_spec [OF assms(1) False, of i] assms(2) show ?thesis by fastforce
qed

lemma in_args_length: "a \<in> set args \<Longrightarrow> length a \<le> sum_list (map length args)"
  by (induction args) auto

lemma kv_command_value: "kv_command al cmd args = Some (Op_Set al' k v ttl) \<Longrightarrow> v \<in> set args"
  by (auto simp: kv_command_def split: list.splits if_splits option.splits)

lemma dispatch_total:
  assumes s: "server_inv s" and r: "ready s ci" and t: "time_ok now"
    and len: "sum_list (map length args) \<le> KS_MAX_REQUEST"
  shows "well_answered s ci (dispatch al now cfg s ci cmd args)"
proof -
  note d = server_invD [OF s]
  from r obtain c where c: "get_client s ci = Some c" "cl_used c" by (auto simp: ready_def)
  then have id: "cl_id c \<in> set (used_ids (sv_clients s))"
    by (auto simp: get_client_def intro: in_used_ids split: if_splits)
  have small: "\<forall>a \<in> set args. length a \<le> KS_MAX_REQUEST" using in_args_length len by fastforce
  show ?thesis
  proof (cases "static_reply cmd args")
    case (Some tx)
    from well_answeredI [OF dispatch_static [OF r Some small] response_static [OF Some] d(4-7)] show ?thesis .
  next
    case None
    then show ?thesis
    proof (cases rule: command_cases [where al = al, case_names kv sub unsub pub info])
      case (kv op)
      have "length v \<le> KS_MAX_REQUEST" if "op = Op_Set al' k v ttl" for al' k v ttl
        using kv_command_value [of al cmd args] kv small that by blast
      from d(4,5) this obtain a st where
        st: "kv_step op (sv_store s) = Some (a, st)" "store_inv st" "small_values st" by (rule store_step)
      from well_answeredI [OF dispatch_kv [OF r d(10,5) kv st(1)] _ st(2,3) d(6,7)] show ?thesis by simp
    next
      case (sub ch)
      from subscribe_keeps [OF d(6,7) id, of al ch] obtain st p where
        p: "ks_pubsub_subscribe al (Some (sv_pubsub s)) (Some ch) (cl_id c) = (st, Some p)" "ps_inv p"
          "snd ` ps_members p \<subseteq> set (used_ids (sv_clients s))" by blast
      from well_answeredI [OF dispatch_subscribe [OF r c(1) p(1)] _ d(4,5) p(2,3)] sub show ?thesis
        by (simp add: subscribe_text_def)
    next
      case (unsub ch)
      from unsubscribe_keeps [OF d(6,7), of ch "cl_id c"] obtain st p ev where
        p: "ks_pubsub_unsubscribe (Some (sv_pubsub s)) (Some ch) (cl_id c) = (st, Some p, ev)" "ps_inv p"
          "snd ` ps_members p \<subseteq> set (used_ids (sv_clients s))" by blast
      from well_answeredI [OF dispatch_unsubscribe [OF r c(1) p(1)] _ d(4,5) p(2,3)] unsub show ?thesis by simp
    next
      case (pub ch m)
      let ?I = "set (targets (sv_pubsub s) ch)"
      have "?I \<subseteq> set (used_ids (sv_clients s))" using targets_spec(2) [OF d(6), of ch] d(7) by force
      moreover have "length ch + length m \<le> KS_MAX_REQUEST" using len pub by simp
      note pb = dispatch_publish [OF s r this, of al now cfg]
      define tx where "tx = int_text (int (length (filter (takes ?I (message_text ch m)) (sv_clients s))))"
      from pb obtain s' where "dispatch al now cfg s ci cmd args = Some (0, s')"
        "responded s ci tx ?I (message_text ch m) (sv_store s) (sv_pubsub s) s'"
        unfolding tx_def [symmetric] pub by blast
      moreover have "response_ok tx" by (simp add: tx_def)
      ultimately show ?thesis
        using d(4-7) unfolding well_answered_def
        by (intro exI [of _ s'] exI [of _ tx] exI [of _ ?I] exI [of _ "message_text ch m"]) auto
    next
      case info
      from d(4,5) obtain a st where st': "kv_step Op_Size (sv_store s) = Some (a, st)" "store_inv st" "small_values st"
        by (rule store_step [where op = Op_Size]) simp
      then obtain keys where st: "ks_kv_size (sv_store s) = Some (keys, st)" "store_inv st" "small_values st" by auto
      from well_answeredI [OF dispatch_info [OF r t d(9) st(1)] _ st(2,3) d(6,7)] info show ?thesis by simp
    qed
  qed
qed

text \<open>A line: the command, on the server in which it is counted and rewritten.\<close>

lemma parsed_simps:
  assumes "get_client s ci = Some c"
  shows "sv_store (parsed s ci input) = sv_store s" "sv_pubsub (parsed s ci input) = sv_pubsub s"
    "sv_clients (parsed s ci input) = (sv_clients s)[ci := c\<lparr>cl_input := input\<rparr>]"
    "get_client (parsed s ci input) ci = Some (c\<lparr>cl_input := input\<rparr>)"
  using assms by (auto simp: parsed_def put_client_def get_client_def split: if_splits)

lemma parsed_inv:
  assumes "server_inv s" "get_client s ci = Some c" "length input = length (cl_input c)" "cl_used c"
  shows "server_inv (parsed s ci input)" "used_ids (sv_clients (parsed s ci input)) = used_ids (sv_clients s)"
proof -
  let ?s = "s\<lparr>sv_metrics := (sv_metrics s)\<lparr>mt_total_commands := mt_total_commands (sv_metrics s) + 1\<rparr>\<rparr>"
  have "server_inv ?s" using assms(1) by (simp add: server_inv_def)
  moreover have "client_ok (c\<lparr>cl_input := input\<rparr>)"
    using get_client_ok [OF assms(1,2)] assms(3,4) by (simp add: client_ok_def)
  ultimately show "server_inv (parsed s ci input)"
    using assms(2) server_inv_put [of ?s ci c "c\<lparr>cl_input := input\<rparr>"] by (simp add: parsed_def)
  show "used_ids (sv_clients (parsed s ci input)) = used_ids (sv_clients s)"
    using assms(2) used_ids_upd [of ci "sv_clients s" "c\<lparr>cl_input := input\<rparr>"]
    by (auto simp: parsed_simps [OF assms(2)] get_client_def split: if_splits)
qed

lemma parsed_ready:
  assumes "ready s ci" "get_client s ci = Some c" "length input = length (cl_input c)"
  shows "ready (parsed s ci input) ci"
  using assms parsed_simps(4) [OF assms(2)] by (auto simp: ready_def client_ok_def pending_def)

definition env_ok :: "command_env \<Rightarrow> bool" where
  "env_ok env \<longleftrightarrow> (\<forall>n. time_ok (ce_time env n))"

lemma handle_command_total:
  assumes s: "server_inv s" and r: "ready s ci" and c: "get_client s ci = Some c"
    and line: "NUL \<in> set (drop line (cl_input c))" and env: "env_ok env"
  obtains input where "length input = length (cl_input c)" "take line input = take line (cl_input c)"
    "drop (line + length (line_at (cl_input c) line)) input =
      drop (line + length (line_at (cl_input c) line)) (cl_input c)"
    "well_answered (parsed s ci input) ci (handle_command env cfg s ci line)"
proof (rule handle_command_parsed [OF c line, of env cfg])
  fix input
  assume i: "length input = length (cl_input c)" "take line input = take line (cl_input c)"
    "drop (line + length (line_at (cl_input c) line)) input =
      drop (line + length (line_at (cl_input c) line)) (cl_input c)"
    and h: "handle_command env cfg s ci line =
      (case parse_spec (line_at (cl_input c) line) of
         None \<Rightarrow> reply_error (parsed s ci input) ci ''invalid command''
       | Some (cmd, args) \<Rightarrow> dispatch (ce_alloc env (mt_total_commands (sv_metrics s)))
           (ce_time env (mt_total_commands (sv_metrics s))) cfg (parsed s ci input) ci cmd args)"
  have used: "cl_used c" using r c by (auto simp: ready_def)
  note s' = parsed_inv(1) [OF s c i(1) used] and r' = parsed_ready [OF r c i(1)]
  note d = server_invD [OF s']
  have "well_answered (parsed s ci input) ci (handle_command env cfg s ci line)"
  proof (cases "parse_spec (line_at (cl_input c) line)")
    case None
    with h well_answeredI [OF reply_error_text [OF r'] _ d(4-7), of "''invalid command''"] show ?thesis by simp
  next
    case (Some q)
    obtain cmd args where q: "q = (cmd, args)" by (cases q)
    with Some parse_spec_length have "sum_list (map length args) \<le> KS_MAX_REQUEST" by fastforce
    from dispatch_total [OF s' r' _ this] env h Some q show ?thesis by (simp add: env_ok_def)
  qed
  from that [OF i this] show thesis .
qed

end
