(* ===== verification/Kessel_Server_Requests.thy ===== *)
theory Kessel_Server_Requests
  imports Kessel_Server_Invariant
begin

text \<open>
  Framing: the lines of the input buffer are carried out one after the other, in order, until the
  buffer holds no complete line or the client is at the high-water mark. Every function returns
  for every input, so no access leaves a buffer, and keeps the invariant.
\<close>

section \<open>What stays of the clients\<close>

text \<open>No connection is opened, closed or renamed.\<close>

definition same_identity :: "ks_client \<Rightarrow> ks_client \<Rightarrow> bool" where
  "same_identity c c' \<longleftrightarrow> cl_used c' = cl_used c \<and> cl_fd c' = cl_fd c \<and> cl_id c' = cl_id c"

definition same_clients :: "ks_server \<Rightarrow> ks_server \<Rightarrow> bool" where
  "same_clients s s' \<longleftrightarrow> list_all2 same_identity (sv_clients s) (sv_clients s') \<and>
     sv_next_client_id s' = sv_next_client_id s"

lemma same_clients_refl [simp]: "same_clients s s"
  by (simp add: same_clients_def same_identity_def list_all2_same)

lemma same_clients_trans: "same_clients s s' \<Longrightarrow> same_clients s' s'' \<Longrightarrow> same_clients s s''"
  by (auto simp: same_clients_def same_identity_def intro: list_all2_trans [where ?P2.0 = same_identity and ?P1.0 = same_identity, rotated])

lemma same_clients_put:
  assumes "get_client s ci = Some c" "cl_used c' = cl_used c" "cl_fd c' = cl_fd c" "cl_id c' = cl_id c"
  shows "same_clients s (put_client s ci c')"
  using assms
  by (auto simp: same_clients_def same_identity_def put_client_def get_client_def list_all2_conv_all_nth nth_list_update
      split: if_splits)

lemma get_put [simp]: "get_client s ci = Some c \<Longrightarrow> get_client (put_client s ci c') ci = Some c'"
  by (auto simp: get_client_def put_client_def split: if_splits)

lemma put_put [simp]: "put_client (put_client s ci c) ci c' = put_client s ci c'"
  by (simp add: put_client_def)

lemma put_simps [simp]:
  "sv_metrics (put_client s ci c) = sv_metrics s" "sv_store (put_client s ci c) = sv_store s"
  "sv_pubsub (put_client s ci c) = sv_pubsub s" "sv_next_client_id (put_client s ci c) = sv_next_client_id s"
  "sv_clients (put_client s ci c) = (sv_clients s)[ci := c]"
  by (simp_all add: put_client_def)

text \<open>What a response does to the client it goes to.\<close>

lemma responded_client:
  assumes "responded s ci text I frame st p s'" "get_client s ci = Some c" "client_ok c"
  obtains c' pre where "get_client s' ci = Some c'" "client_ok c'" "outbox c' = outbox c @ pre @ text"
    "cl_input c' = cl_input c" "cl_input_len c' = cl_input_len c" "cl_used c' = cl_used c"
    "cl_close_after_write c' = cl_close_after_write c" "I = {} \<Longrightarrow> queued c text c'"
proof -
  from assms(1) obtain cs c' where r: "list_all2 (handed I frame) (sv_clients s) cs" "ci < length cs"
    "queued (cs ! ci) text c'" "s' = s\<lparr>sv_clients := cs[ci := c'], sv_store := st, sv_pubsub := p\<rparr>"
    by (auto simp: responded_def)
  have h: "handed I frame c (cs ! ci)"
    using r(1,2) assms(2) by (auto simp: list_all2_conv_all_nth get_client_def split: if_splits)
  note d = handedD [OF h assms(3)] and q = queuedD [OF r(3)]
  have "\<exists>pre. outbox (cs ! ci) = outbox c @ pre"
    using h by (auto simp: handed_def outbox_def pending_def dest: queuedD(2) split: if_splits)
  then obtain pre where pre: "outbox (cs ! ci) = outbox c @ pre" by blast
  have "I = {} \<Longrightarrow> cs ! ci = c" using h by (simp add: handed_def takes_def)
  with r d q pre show thesis by (intro that [of c' pre]) (auto simp: get_client_def)
qed

lemma responded_same:
  assumes "responded s ci text I frame st p s'" "\<forall>c \<in> set (sv_clients s). client_ok c"
  shows "same_clients s s'"
proof -
  from assms(1) obtain cs c' where r: "list_all2 (handed I frame) (sv_clients s) cs" "ci < length cs"
    "queued (cs ! ci) text c'" "s' = s\<lparr>sv_clients := cs[ci := c'], sv_store := st, sv_pubsub := p\<rparr>"
    by (auto simp: responded_def)
  have "same_identity (sv_clients s ! j) (cs ! j)" if "j < length cs" for j
    using r(1) that assms(2) handedD [of I frame "sv_clients s ! j" "cs ! j"]
    by (auto simp: list_all2_conv_all_nth same_identity_def)
  with r queuedD(3-5) [OF r(3)] show ?thesis
    by (auto simp: same_clients_def list_all2_conv_all_nth nth_list_update same_identity_def)
qed

section \<open>One line\<close>

text \<open>What a line means, on the server in which it was counted and rewritten.\<close>

definition exec_line :: "command_env \<Rightarrow> ks_config \<Rightarrow> u64 \<Rightarrow> ks_server \<Rightarrow> nat \<Rightarrow> string \<Rightarrow> (int \<times> ks_server) option" where
  "exec_line env cfg n s ci line =
     (case parse_spec line of
        None \<Rightarrow> reply_error s ci ''invalid command''
      | Some (cmd, args) \<Rightarrow> dispatch (ce_alloc env n) (ce_time env n) cfg s ci cmd args)"

lemma exec_line_total:
  assumes "server_inv s" "ready s ci" "env_ok env"
  shows "well_answered s ci (exec_line env cfg n s ci line)"
proof (cases "parse_spec line")
  case None
  with well_answeredI [OF reply_error_text [OF assms(2)] _ server_invD(4-7) [OF assms(1)], of "''invalid command''"]
  show ?thesis by (simp add: exec_line_def)
next
  case (Some q)
  obtain cmd args where q: "q = (cmd, args)" by (cases q)
  with Some parse_spec_length have "sum_list (map length args) \<le> KS_MAX_REQUEST" by fastforce
  from dispatch_total [OF assms(1,2) _ this] assms(3) Some q show ?thesis by (simp add: exec_line_def env_ok_def)
qed

text \<open>The byte behind the line is replaced by NUL while the line is carried out, and restored.\<close>

definition restore :: "ks_client \<Rightarrow> nat \<Rightarrow> nat \<Rightarrow> ks_server \<Rightarrow> ks_server option" where
  "restore c stop ci s = (if stop < cl_input_len c then do {
       c' \<leftarrow> get_client s ci;
       b \<leftarrow> wr (cl_input c') stop (cl_input c ! stop);
       Some (put_client s ci (c'\<lparr>cl_input := b\<rparr>)) }
     else Some s)"

lemma content_line:
  assumes "stop < length input" "consumed \<le> stop" "NUL \<notin> set (take (stop - consumed) (drop consumed input))"
  shows "line_at (input[stop := NUL]) consumed = take (stop - consumed) (drop consumed input)"
proof -
  let ?l = "take (stop - consumed) (drop consumed input)"
  have "drop consumed (input[stop := NUL]) = (drop consumed input)[stop - consumed := NUL]"
    using assms(2) by (simp add: drop_update_swap)
  also have "\<dots> = ?l @ NUL # drop (Suc (stop - consumed)) (drop consumed input)"
    using assms(1,2) by (simp add: upd_conv_take_nth_drop)
  finally show ?thesis
    unfolding line_at_def content_def using assms(3) by (simp only:) (subst takeWhile_append2; auto)
qed

lemma run_line_exec:
  assumes c: "get_client s ci = Some c" and ok: "client_ok c" "cl_used c"
    and i: "consumed < stop" "stop \<le> cl_input_len c"
    and line: "NUL \<notin> set (take (stop - consumed) (drop consumed (cl_input c)))"
  obtains input where "length input = length (cl_input c)"
    "drop (Suc stop) input = drop (Suc stop) (cl_input c)"
    "run_line env cfg s ci c consumed stop = do {
       (r, s') \<leftarrow> exec_line env cfg (mt_total_commands (sv_metrics s)) (parsed s ci input) ci
         (take (stop - consumed) (drop consumed (cl_input c)));
       s' \<leftarrow> restore c stop ci s';
       Some (if r \<noteq> 0 then Return (- 1) else Continue stop, s') }"
proof -
  note d = client_okD [OF ok]
  have stop: "stop < length (cl_input c)" using d i by simp
  let ?c = "c\<lparr>cl_input := (cl_input c)[stop := NUL]\<rparr>" and ?s = "put_client s ci (c\<lparr>cl_input := (cl_input c)[stop := NUL]\<rparr>)"
  let ?line = "take (stop - consumed) (drop consumed (cl_input c))"
  have len: "length ?line = stop - consumed" using stop i(1) by simp
  have l: "line_at (cl_input ?c) consumed = ?line" using content_line [OF stop _ line] i(1) by simp
  have "stop - consumed < length (drop consumed (cl_input ?c))" "drop consumed (cl_input ?c) ! (stop - consumed) = NUL"
    using stop i(1) by simp_all
  then have nul: "NUL \<in> set (drop consumed (cl_input ?c))" by (metis nth_mem)
  have g: "get_client ?s ci = Some ?c" by (rule get_put [OF c])
  show thesis
  proof (rule handle_command_parsed [OF g nul, of env cfg], unfold l len)
    fix input
    assume a: "length input = length (cl_input ?c)"
      "drop (consumed + (stop - consumed)) input = drop (consumed + (stop - consumed)) (cl_input ?c)"
      "handle_command env cfg ?s ci consumed = (case parse_spec ?line of
         None \<Rightarrow> reply_error (parsed ?s ci input) ci ''invalid command''
       | Some (cmd, args) \<Rightarrow> dispatch (ce_alloc env (mt_total_commands (sv_metrics ?s)))
           (ce_time env (mt_total_commands (sv_metrics ?s))) cfg (parsed ?s ci input) ci cmd args)"
    have "parsed ?s ci input = parsed s ci input" using c g by (simp add: parsed_def put_client_def)
    then have h: "handle_command env cfg ?s ci consumed =
        exec_line env cfg (mt_total_commands (sv_metrics s)) (parsed s ci input) ci ?line"
      using a(3) by (simp only: exec_line_def put_simps)
    have "drop stop input = drop stop ((cl_input c)[stop := NUL])" using a(2) i(1) by simp
    then have "drop 1 (drop stop input) = drop 1 (drop stop ((cl_input c)[stop := NUL]))" by simp
    then have dr: "drop (Suc stop) input = drop (Suc stop) (cl_input c)" by simp
    show thesis
    proof (rule that [of input])
      show "length input = length (cl_input c)" using a(1) by simp
      show "drop (Suc stop) input = drop (Suc stop) (cl_input c)" by (rule dr)
    qed (use stop h in \<open>simp add: run_line_def restore_def rd_def wr_def Let_def cong: if_cong\<close>)
  qed
qed

lemma memchr_spec:
  assumes "p + n \<le> length buf"
  obtains "c_memchr buf p x n = Some None" "x \<notin> set (take n (drop p buf))"
  | i where "c_memchr buf p x n = Some (Some i)" "p \<le> i" "i < p + n" "buf ! i = x"
      "x \<notin> set (take (i - p) (drop p buf))"
proof -
  let ?d = "take n (drop p buf)" and ?w = "takeWhile (\<lambda>y. y \<noteq> x) (take n (drop p buf))"
  have len: "length ?d = n" using assms by simp
  show thesis
  proof (cases "length ?w < n")
    case False
    with len length_takeWhile_le [of "\<lambda>y. y \<noteq> x" ?d] have "?w = ?d"
      by (metis le_antisym not_less takeWhile_eq_take take_all order_refl)
    then have "x \<notin> set ?d" by (metis set_takeWhileD)
    with False assms show thesis by (intro that(1)) (simp_all add: c_memchr_def Let_def)
  next
    case True
    have "?d ! length ?w = x" using nth_length_takeWhile [of "\<lambda>y. y \<noteq> x" ?d] True len by simp
    moreover have "?d ! length ?w = buf ! (p + length ?w)" using True assms by simp
    moreover have "take (length ?w) (drop p buf) = ?w"
      using True by (metis len min.absorb1 less_imp_le take_take takeWhile_eq_take)
    then have "x \<notin> set (take (length ?w) (drop p buf))" by (metis set_takeWhileD)
    ultimately show thesis
      using True assms by (intro that(2) [of "p + length ?w"]) (simp_all add: c_memchr_def Let_def)
  qed
qed

text \<open>How the client stands after a line was carried out.\<close>

definition line_done :: "ks_server \<Rightarrow> nat \<Rightarrow> ks_client \<Rightarrow> nat \<Rightarrow> ks_server \<Rightarrow> bool" where
  "line_done s ci c stop s' \<longleftrightarrow> server_inv s' \<and> same_clients s s' \<and>
     (\<exists>c' pre tx. get_client s' ci = Some c' \<and> cl_used c' \<and> cl_input_len c' = cl_input_len c \<and>
        cl_close_after_write c' = cl_close_after_write c \<and> drop stop (inbox c') = drop stop (inbox c) \<and>
        outbox c' = outbox c @ pre @ tx \<and> response_ok tx)"

lemma well_answered_server:
  assumes w: "well_answered s ci r" and s: "server_inv s" and c: "get_client s ci = Some c"
  obtains s' c' pre tx where "r = Some (0, s')" "server_inv s'" "same_clients s s'" "get_client s' ci = Some c'"
    "outbox c' = outbox c @ pre @ tx" "response_ok tx" "cl_input c' = cl_input c"
    "cl_input_len c' = cl_input_len c" "cl_used c' = cl_used c" "cl_close_after_write c' = cl_close_after_write c"
proof -
  from w obtain s' tx I frame st p where r: "r = Some (0, s')" "response_ok tx"
    "responded s ci tx I frame st p s'" "store_inv st" "small_values st" "ps_inv p"
    "snd ` ps_members p \<subseteq> set (used_ids (sv_clients s))" by (auto simp: well_answered_def)
  note inv = responded_inv(1) [OF s r(3-7)] and same = responded_same [OF r(3) server_invD(1) [OF s]]
  show thesis
    by (rule responded_client [OF r(3) c get_client_ok [OF s c]]) (use r(1,2) inv same in \<open>intro that\<close>)
qed

lemma restore_spec:
  assumes s: "server_inv s" "get_client s ci = Some c'" "cl_used c'" "cl_input_len c' = cl_input_len c"
    and i: "length (cl_input c') = length (cl_input c)" "drop (Suc stop) (cl_input c') = drop (Suc stop) (cl_input c)"
    and stop: "stop < length (cl_input c)" "stop \<le> cl_input_len c"
  obtains s' b where "restore c stop ci s = Some s'" "server_inv s'" "same_clients s s'"
    "get_client s' ci = Some (c'\<lparr>cl_input := b\<rparr>)" "drop stop (inbox (c'\<lparr>cl_input := b\<rparr>)) = drop stop (inbox c)"
proof (cases "stop < cl_input_len c")
  case False
  with stop(2) have "drop stop (inbox c') = drop stop (inbox c)" by (simp add: inbox_def s(4))
  with False s show thesis by (intro that [of s "cl_input c'"]) (simp_all add: restore_def)
next
  case True
  let ?b = "(cl_input c')[stop := cl_input c ! stop]"
  let ?c = "c'\<lparr>cl_input := ?b\<rparr>"
  have "client_ok ?c" using get_client_ok [OF s(1,2)] s(3) i(1) by (simp add: client_ok_def)
  then have inv: "server_inv (put_client s ci ?c)" by (intro server_inv_put [OF s(1,2)]) simp_all
  have "drop stop ?b = ?b ! stop # drop (Suc stop) ?b"
    by (rule Cons_nth_drop_Suc [symmetric]) (use stop i in simp)
  also have "\<dots> = drop stop (cl_input c)" using stop i by (simp add: Cons_nth_drop_Suc)
  finally have "drop stop ?b = drop stop (cl_input c)" .
  then have "drop stop (inbox ?c) = drop stop (inbox c)" by (simp add: inbox_def s(4) drop_take)
  moreover have "same_clients s (put_client s ci ?c)" by (intro same_clients_put [OF s(2)]) simp_all
  ultimately show thesis
    using True s inv i(1) stop(1) by (intro that [of "put_client s ci ?c" ?b]) (simp_all add: restore_def wr_def)
qed

lemma run_line_spec:
  assumes s: "server_inv s" and r: "ready s ci" and c: "get_client s ci = Some c"
    and i: "consumed < stop" "stop \<le> cl_input_len c" and env: "env_ok env"
    and line: "NUL \<notin> set (take (stop - consumed) (drop consumed (cl_input c)))"
  shows "\<exists>s'. run_line env cfg s ci c consumed stop = Some (Continue stop, s') \<and> line_done s ci c stop s'"
proof -
  have ok: "client_ok c" "cl_used c" using r c by (auto simp: ready_def)
  note d = client_okD [OF ok]
  have stop: "stop < length (cl_input c)" using d i by simp
  let ?n = "mt_total_commands (sv_metrics s)" and ?line = "take (stop - consumed) (drop consumed (cl_input c))"
  obtain input where a: "length input = length (cl_input c)" "drop (Suc stop) input = drop (Suc stop) (cl_input c)"
    and run: "run_line env cfg s ci c consumed stop = do {
       (r, s') \<leftarrow> exec_line env cfg ?n (parsed s ci input) ci ?line;
       s' \<leftarrow> restore c stop ci s';
       Some (if r \<noteq> 0 then Return (- 1) else Continue stop, s') }"
    by (rule run_line_exec [OF c ok i line])
  note s1 = parsed_inv(1) [OF s c a(1) ok(2)] and g1 = parsed_simps(4) [OF c, of input]
  have same1: "same_clients s (parsed s ci input)"
    using same_clients_put [OF c, of "c\<lparr>cl_input := input\<rparr>"] c by (simp add: same_clients_def parsed_def)
  obtain s2 c2 pre tx where
    w: "exec_line env cfg ?n (parsed s ci input) ci ?line = Some (0, s2)" "server_inv s2"
      "same_clients (parsed s ci input) s2" "get_client s2 ci = Some c2"
      "outbox c2 = outbox (c\<lparr>cl_input := input\<rparr>) @ pre @ tx" "response_ok tx" "cl_input c2 = input"
      "cl_input_len c2 = cl_input_len c" "cl_used c2" "cl_close_after_write c2 = cl_close_after_write c"
    by (rule well_answered_server [OF exec_line_total [OF s1 parsed_ready [OF r c a(1)] env] s1 g1])
      (use ok(2) in simp)
  have out: "outbox c2 = outbox c @ pre @ tx" using w(5) by (simp add: outbox_def pending_def)
  obtain s3 b where
    t: "restore c stop ci s2 = Some s3" "server_inv s3" "same_clients s2 s3"
      "get_client s3 ci = Some (c2\<lparr>cl_input := b\<rparr>)" "drop stop (inbox (c2\<lparr>cl_input := b\<rparr>)) = drop stop (inbox c)"
    by (rule restore_spec [OF w(2,4,9,8), of stop]) (use a w(7) stop i(2) in simp_all)
  have "line_done s ci c stop s3"
    using t w out same_clients_trans [OF same_clients_trans [OF same1 w(3)] t(3)]
    by (auto simp: line_done_def outbox_def pending_def)
  with run w(1) t(1) show ?thesis by simp
qed

section \<open>Lines of the input\<close>

text \<open>Lines as they arrive, each ended by LF; a CR before it does not count to the request.\<close>

definition wire :: "bytes list \<Rightarrow> bytes" where
  "wire ls = concat (map (\<lambda>l. l @ [LF]) ls)"

lemma wire_simps [simp]: "wire [] = []" "wire (l # ls) = l @ LF # wire ls"
  by (simp_all add: wire_def)

lemma wire_Nil [simp]: "wire ls = [] \<longleftrightarrow> ls = []"
  by (cases ls) simp_all

definition oversized :: "bytes \<Rightarrow> bool" where
  "oversized l \<longleftrightarrow> KS_MAX_REQUEST < length (if l \<noteq> [] \<and> last l = CR then butlast l else l)"

text \<open>A request that is accepted: one line, and not too large.\<close>

definition request_line :: "bytes \<Rightarrow> bool" where
  "request_line l \<longleftrightarrow> LF \<notin> set l \<and> \<not> oversized l"

text \<open>The input starts with a line that is too large.\<close>

definition starts_oversized :: "bytes \<Rightarrow> bool" where
  "starts_oversized bs \<longleftrightarrow> (\<exists>l rest. bs = l @ LF # rest \<and> LF \<notin> set l \<and> oversized l)"

text \<open>The length of a line without its terminator, which may be LF or CR LF, as the code finds it.\<close>

definition line_content :: "bytes \<Rightarrow> nat \<Rightarrow> nat \<Rightarrow> nat" where
  "line_content input consumed nl =
     (if consumed < nl \<and> input ! (nl - 1) = CR then nl - consumed - 1 else nl - consumed)"

lemma oversized_content:
  assumes "nl \<le> length buf" "consumed \<le> nl"
  shows "oversized (take (nl - consumed) (drop consumed buf)) \<longleftrightarrow> KS_MAX_REQUEST < line_content buf consumed nl"
proof (cases "consumed < nl")
  case False
  with assms show ?thesis by (simp add: oversized_def line_content_def)
next
  case True
  let ?l = "take (nl - consumed) (drop consumed buf)"
  have "last ?l = ?l ! (nl - consumed - 1)" using True assms by (subst last_conv_nth) auto
  also have "\<dots> = buf ! (nl - 1)" using True assms by (simp add: less_imp_le)
  finally show ?thesis using True assms by (simp add: oversized_def line_content_def)
qed

lemma inbox_length: "client_ok c \<Longrightarrow> cl_used c \<Longrightarrow> length (inbox c) = cl_input_len c"
  by (simp add: inbox_def client_ok_def)

lemma inbox_line:
  assumes "client_ok c" "cl_used c" "consumed \<le> nl" "nl < cl_input_len c" "cl_input c ! nl = LF"
  shows "drop consumed (inbox c) = take (nl - consumed) (drop consumed (cl_input c)) @ LF # drop (nl + 1) (inbox c)"
proof -
  have "inbox c ! nl = LF" using assms by (simp add: inbox_def)
  then have "inbox c = take nl (inbox c) @ LF # drop (nl + 1) (inbox c)"
    using assms inbox_length [OF assms(1,2)] id_take_nth_drop [of nl "inbox c"] by simp
  then have "drop consumed (inbox c) = drop consumed (take nl (inbox c)) @ LF # drop (nl + 1) (inbox c)"
    using assms inbox_length [OF assms(1,2)]
    by (metis drop_append diff_is_0_eq' drop0 length_take min.absorb2 less_imp_le)
  moreover have "drop consumed (take nl (inbox c)) = take (nl - consumed) (drop consumed (cl_input c))"
    using assms(4) by (simp add: inbox_def drop_take)
  ultimately show ?thesis by simp
qed

section \<open>The loop\<close>

text \<open>The answer to a line that is too large.\<close>

definition refusal :: bytes where
  "refusal = error_text ''request too large''"

definition step_done :: "ks_server \<Rightarrow> nat \<Rightarrow> ks_client \<Rightarrow> nat \<Rightarrow> request_step \<Rightarrow> ks_server \<Rightarrow> bool" where
  "step_done s ci c consumed st s' \<longleftrightarrow>
     (case st of
        Return r \<Rightarrow> False
      | Break n \<Rightarrow>
          n = consumed \<and> s' = s \<and> (KS_OUTPUT_HIGH_WATER \<le> pending c \<or> LF \<notin> set (drop consumed (inbox c))) \<or>
          n = cl_input_len c \<and> starts_oversized (drop consumed (inbox c)) \<and>
          line_done s ci (c\<lparr>cl_close_after_write := True\<rparr>) n s' \<and>
          map_option outbox (get_client s' ci) = Some (outbox c @ refusal)
      | Continue n \<Rightarrow> consumed < n \<and> n \<le> cl_input_len c \<and> line_done s ci c n s' \<and>
          (\<exists>l. request_line l \<and> drop consumed (inbox c) = l @ LF # drop n (inbox c)))"

lemma queue_error_done:
  assumes s: "server_inv s" and r: "ready s ci" and c: "get_client s ci = Some c" and m: "length m < 240"
  obtains c' where "queue_error c m = Some (0, c')" "line_done s ci c n (put_client s ci c')"
    "line_done s ci (c\<lparr>cl_close_after_write := True\<rparr>) n (put_client s ci (c'\<lparr>cl_close_after_write := True\<rparr>))"
    "cl_input_len c' = cl_input_len c" "outbox (c'\<lparr>cl_close_after_write := True\<rparr>) = outbox c @ error_text m"
proof -
  have ok: "client_ok c" "cl_used c" "pending c < KS_OUTPUT_HIGH_WATER" using r c by (auto simp: ready_def)
  from queue_error_spec [OF ok m] obtain c' where q: "queue_error c m = Some (0, c')"
    "queued c (error_text m) c'" by (auto simp: error_text_def)
  note d = queuedD [OF q(2)]
  have same: "inbox c' = inbox c" "inbox (c'\<lparr>cl_close_after_write := b\<rparr>) = inbox c"
    "outbox (c'\<lparr>cl_close_after_write := b\<rparr>) = outbox c'" "outbox (c\<lparr>cl_close_after_write := b\<rparr>) = outbox c"
    "inbox (c\<lparr>cl_close_after_write := b\<rparr>) = inbox c" for b
    using d by (simp_all add: inbox_def outbox_def pending_def)
  have g: "\<exists>pre tx. error_text m = pre @ tx \<and> response_ok tx"
    by (intro exI [of _ "[]"] exI [of _ "error_text m"]) simp
  have "client_ok (c'\<lparr>cl_close_after_write := True\<rparr>)" using d(1,3) ok(2) by (simp add: client_ok_def)
  then show thesis
    using q(1) d ok(2) server_inv_put [OF s c] same_clients_put [OF c] get_put [OF c] same g
    by (intro that [of c']) (simp_all add: line_done_def)
qed

lemma process_step_found:
  assumes c: "get_client s ci = Some c" "\<not> KS_OUTPUT_HIGH_WATER \<le> pending c"
    and nl: "c_memchr (cl_input c) consumed LF (cl_input_len c - consumed) = Some (Some nl)" "consumed \<le> nl"
      "nl \<le> length (cl_input c)"
  shows "process_step env cfg ci consumed s =
      (if line_content (cl_input c) consumed nl > KS_MAX_REQUEST then request_too_large s ci c
       else do {
         zero \<leftarrow> c_memchr (cl_input c) consumed NUL (nl + 1 - consumed);
         if zero \<noteq> None then do {
           (r, c') \<leftarrow> queue_error c ''invalid command'';
           Some (if r \<noteq> 0 then Return (- 1) else Continue (nl + 1), put_client s ci c') }
         else run_line env cfg s ci c consumed (nl + 1) })"
proof -
  have n: "nl + 1 - consumed - 1 = nl - consumed" "nl + 1 - 2 = nl - 1" using nl(2) by simp_all
  have "(if nl - consumed > 0 then do {
           x \<leftarrow> rd (cl_input c) (nl - 1);
           Some (if x = CR then nl - consumed - 1 else nl - consumed) }
         else Some (nl - consumed)) = Some (line_content (cl_input c) consumed nl)"
    using nl(3) by (auto simp: line_content_def rd_def)
  with c nl(1) show ?thesis unfolding process_step_def Let_def by (simp only: n bind.bind_lunit if_False option.case)
qed

lemma process_step_spec:
  assumes s: "server_inv s" and c: "get_client s ci = Some c" "cl_used c" and env: "env_ok env"
    and i: "consumed < cl_input_len c"
  shows "\<exists>st s'. process_step env cfg ci consumed s = Some (st, s') \<and> step_done s ci c consumed st s'"
proof (cases "KS_OUTPUT_HIGH_WATER \<le> pending c")
  case True
  with c show ?thesis by (simp add: process_step_def step_done_def)
next
  case False
  note ok = get_client_ok [OF s c(1)]
  note d = client_okD [OF ok c(2)]
  have r: "ready s ci" using False c ok by (simp add: ready_def)
  have "consumed + (cl_input_len c - consumed) \<le> length (cl_input c)" using d i by simp
  then show ?thesis
  proof (cases rule: memchr_spec [where x = LF, case_names none found])
    case none
    moreover have "drop consumed (inbox c) = take (cl_input_len c - consumed) (drop consumed (cl_input c))"
      by (simp add: inbox_def drop_take)
    ultimately show ?thesis using False c by (simp add: process_step_def step_done_def)
  next
    case (found nl)
    let ?stop = "nl + 1" and ?cl = "nl - consumed"
    have stop: "consumed < ?stop" "?stop \<le> cl_input_len c" "?stop \<le> length (cl_input c)"
      using found i d by auto
    let ?l = "take ?cl (drop consumed (cl_input c))"
    have nl: "nl \<le> length (cl_input c)" "nl < cl_input_len c" using stop by simp_all
    note split = inbox_line [OF ok c(2) found(2) nl(2) found(4)] and size = oversized_content [OF nl(1) found(2)]
    note step = process_step_found [OF c(1) False found(1,2) nl(1), of env cfg]
    show ?thesis
    proof (cases "line_content (cl_input c) consumed nl > KS_MAX_REQUEST")
      case True
      obtain c' where "queue_error c ''request too large'' = Some (0, c')"
        "line_done s ci (c\<lparr>cl_close_after_write := True\<rparr>) (cl_input_len c) (put_client s ci (c'\<lparr>cl_close_after_write := True\<rparr>))"
        "cl_input_len c' = cl_input_len c"
        "outbox (c'\<lparr>cl_close_after_write := True\<rparr>) = outbox c @ error_text ''request too large''"
        by (rule queue_error_done [OF s r c(1), of "''request too large''" "cl_input_len c"]) simp
      moreover have "starts_oversized (drop consumed (inbox c))"
        using split found(5) size True unfolding starts_oversized_def by blast
      ultimately show ?thesis using step True get_put [OF c(1)]
        by (simp add: request_too_large_def step_done_def refusal_def)
    next
      case small: False
      then have line: "request_line ?l" using found(5) size by (simp add: request_line_def)
      have "consumed + (?stop - consumed) \<le> length (cl_input c)" using stop by simp
      then show ?thesis
      proof (cases rule: memchr_spec [where x = NUL, case_names none found])
        case none
        from run_line_spec [OF s r c(1) stop(1,2) env none(2), of cfg] none(1) step small stop line split show ?thesis
          by (auto simp: step_done_def)
      next
        case (found z)
        obtain c' where "queue_error c ''invalid command'' = Some (0, c')" "line_done s ci c ?stop (put_client s ci c')"
          by (rule queue_error_done [OF s r c(1), of "''invalid command''" ?stop]) simp
        with found(1) step small stop line split show ?thesis by (auto simp: step_done_def)
      qed
    qed
  qed
qed

text \<open>
  The loop ends, and what it leaves: some lines were carried out, none of them too large, the rest
  of the input is as it was, and it holds no complete line unless the client is at the high-water
  mark; or the line after them was too large, this was the last answer, the input is given up and
  the connection will be closed.
\<close>

definition loop_done :: "ks_server \<Rightarrow> nat \<Rightarrow> ks_client \<Rightarrow> nat \<Rightarrow> nat \<Rightarrow> ks_server \<Rightarrow> bool" where
  "loop_done s ci c consumed n s' \<longleftrightarrow> server_inv s' \<and> same_clients s s' \<and>
     consumed \<le> n \<and> n \<le> cl_input_len c \<and>
     (\<exists>c' more ls rest. get_client s' ci = Some c' \<and> cl_used c' \<and> cl_input_len c' = cl_input_len c \<and>
        outbox c' = outbox c @ more \<and> (more = [] \<longleftrightarrow> n = consumed) \<and>
        (\<forall>l \<in> set ls. request_line l) \<and> drop consumed (inbox c) = wire ls @ rest \<and>
        (cl_close_after_write c' \<and> n = cl_input_len c \<and> starts_oversized rest \<and> (\<exists>tx. more = tx @ refusal) \<or>
         cl_close_after_write c' = cl_close_after_write c \<and> drop n (inbox c') = rest \<and> drop n (inbox c) = rest \<and>
           (KS_OUTPUT_HIGH_WATER \<le> pending c' \<or> LF \<notin> set rest)))"

lemma loop_doneI:
  assumes "server_inv s'" "same_clients s s'" "consumed \<le> n" "n \<le> cl_input_len c" "get_client s' ci = Some c'"
    "cl_used c'" "cl_input_len c' = cl_input_len c" "outbox c' = outbox c @ u" "u = [] \<longleftrightarrow> n = consumed"
    "\<forall>l \<in> set ls. request_line l" "drop consumed (inbox c) = wire ls @ rest"
    "cl_close_after_write c' \<and> n = cl_input_len c \<and> starts_oversized rest \<and> (\<exists>tx. u = tx @ refusal) \<or>
     cl_close_after_write c' = cl_close_after_write c \<and> drop n (inbox c') = rest \<and> drop n (inbox c) = rest \<and>
       (KS_OUTPUT_HIGH_WATER \<le> pending c' \<or> LF \<notin> set rest)"
  shows "loop_done s ci c consumed n s'"
  unfolding loop_done_def
  by (intro conjI exI) (rule assms)+

lemma response_ne: "response_ok tx \<Longrightarrow> tx \<noteq> []"
  by (auto simp: response_ok_def)

lemma loop_done_line:
  assumes n: "consumed < n" "n \<le> cl_input_len c" "request_line l" "drop consumed (inbox c) = l @ LF # drop n (inbox c)"
    and c1: "same_clients s s1" "cl_input_len c1 = cl_input_len c" "cl_close_after_write c1 = cl_close_after_write c"
      "drop n (inbox c1) = drop n (inbox c)" "outbox c1 = outbox c @ pre @ tx" "response_ok tx"
    and l: "loop_done s1 ci c1 n m s2"
  shows "loop_done s ci c consumed m s2"
proof -
  from l obtain c' more ls rest where m: "server_inv s2" "same_clients s1 s2" "n \<le> m" "m \<le> cl_input_len c1"
    "get_client s2 ci = Some c'" "cl_used c'" "cl_input_len c' = cl_input_len c1" "outbox c' = outbox c1 @ more"
    "\<forall>l \<in> set ls. request_line l" "drop n (inbox c1) = wire ls @ rest"
    "cl_close_after_write c' \<and> m = cl_input_len c1 \<and> starts_oversized rest \<and> (\<exists>tx. more = tx @ refusal) \<or>
       cl_close_after_write c' = cl_close_after_write c1 \<and> drop m (inbox c') = rest \<and> drop m (inbox c1) = rest \<and>
       (KS_OUTPUT_HIGH_WATER \<le> pending c' \<or> LF \<notin> set rest)" unfolding loop_done_def by (elim conjE exE) (rule that; assumption)
  have "drop (m - n) (drop n (inbox c1)) = drop (m - n) (drop n (inbox c))" using c1(4) by simp
  then have dr: "drop m (inbox c1) = drop m (inbox c)" using m(3) by simp
  have ends: "\<exists>u. pre @ tx @ more = u @ refusal" if "\<exists>u. more = u @ refusal"
    using that by (metis append.assoc)
  have line: "drop consumed (inbox c) = wire (l # ls) @ rest" "\<forall>l \<in> set (l # ls). request_line l"
    using n(3,4) m(9,10) c1(4) by simp_all
  show ?thesis
  proof (rule loop_doneI [OF m(1) _ _ _ m(5,6) _ _ _ line(2,1)])
    show "same_clients s s2" by (rule same_clients_trans [OF c1(1) m(2)])
    show "consumed \<le> m" "m \<le> cl_input_len c" "cl_input_len c' = cl_input_len c" using n(1) m(3,4,7) c1(2) by simp_all
    show "outbox c' = outbox c @ pre @ tx @ more" using m(8) c1(5) by simp
    show "pre @ tx @ more = [] \<longleftrightarrow> m = consumed" using response_ne [OF c1(6)] n(1) m(3) by simp
    show "cl_close_after_write c' \<and> m = cl_input_len c \<and> starts_oversized rest \<and> (\<exists>u. pre @ tx @ more = u @ refusal) \<or>
      cl_close_after_write c' = cl_close_after_write c \<and> drop m (inbox c') = rest \<and> drop m (inbox c) = rest \<and>
        (KS_OUTPUT_HIGH_WATER \<le> pending c' \<or> LF \<notin> set rest)"
      using m(11) ends unfolding c1(2,3) dr by blast
  qed
qed

lemma process_loop_spec:
  assumes "server_inv s" "get_client s ci = Some c" "cl_used c" "env_ok env" "consumed \<le> cl_input_len c"
  shows "\<exists>n s'. process_loop env cfg ci consumed s = Some (0, n, s') \<and> loop_done s ci c consumed n s'"
  using assms
proof (induction "cl_input_len c - consumed" arbitrary: s c consumed rule: less_induct)
  case less
  show ?case
  proof (cases "consumed < cl_input_len c")
    case False
    then have "drop consumed (inbox c) = []" using less.prems by (simp add: inbox_def)
    with less.prems have "loop_done s ci c consumed consumed s"
      by (intro loop_doneI [where u = "[]" and ls = "[]" and rest = "[]"] disjI2) simp_all
    moreover have "process_loop env cfg ci consumed s = Some (0, consumed, s)"
      using False less.prems by (subst process_loop.simps) simp
    ultimately show ?thesis by blast
  next
    case True
    from process_step_spec [OF less.prems(1-4) True, of cfg] obtain st s1 where
      st: "process_step env cfg ci consumed s = Some (st, s1)" "step_done s ci c consumed st s1" by blast
    show ?thesis
    proof (cases st)
      case (Return r)
      with st(2) show ?thesis by (simp add: step_done_def)
    next
      case (Break n)
      have run: "process_loop env cfg ci consumed s = Some (0, n, s1)"
        using True less.prems(2) st(1) Break by (subst process_loop.simps) simp
      from st(2) Break consider "n = consumed" "s1 = s"
          "KS_OUTPUT_HIGH_WATER \<le> pending c \<or> LF \<notin> set (drop consumed (inbox c))"
        | "n = cl_input_len c" "starts_oversized (drop consumed (inbox c))"
          "line_done s ci (c\<lparr>cl_close_after_write := True\<rparr>) n s1"
          "map_option outbox (get_client s1 ci) = Some (outbox c @ refusal)"
        by (auto simp: step_done_def)
      then show ?thesis
      proof cases
        case 1
        then have "loop_done s ci c consumed n s1"
          using less.prems 1
          by (intro loop_doneI [where c' = c and u = "[]" and ls = "[]" and rest = "drop consumed (inbox c)"] disjI2)
            simp_all
        with run show ?thesis by blast
      next
        case 2
        from 2(3,4) obtain c' where c': "server_inv s1" "same_clients s s1" "get_client s1 ci = Some c'" "cl_used c'"
          "cl_input_len c' = cl_input_len c" "cl_close_after_write c'" "outbox c' = outbox c @ refusal"
          by (auto simp: line_done_def)
        have "refusal \<noteq> []" by (simp add: refusal_def error_text_def)
        with c' 2(1,2) True have "loop_done s ci c consumed n s1"
          by (intro loop_doneI [where u = refusal and ls = "[]" and rest = "drop consumed (inbox c)"]) auto
        with run show ?thesis by blast
      qed
    next
      case (Continue n)
      with st(2) obtain l where n: "consumed < n" "n \<le> cl_input_len c" "request_line l"
        "line_done s ci c n s1" "drop consumed (inbox c) = l @ LF # drop n (inbox c)"
        by (auto simp: step_done_def)
      from n(4) obtain c1 pre tx where c1: "server_inv s1" "same_clients s s1" "get_client s1 ci = Some c1" "cl_used c1"
        "cl_input_len c1 = cl_input_len c" "cl_close_after_write c1 = cl_close_after_write c"
        "drop n (inbox c1) = drop n (inbox c)" "outbox c1 = outbox c @ pre @ tx" "response_ok tx"
        by (auto simp: line_done_def)
      have run: "process_loop env cfg ci consumed s = process_loop env cfg ci n s1"
        using True less.prems(2) st(1) Continue by (subst process_loop.simps) simp
      have "cl_input_len c1 - n < cl_input_len c - consumed" using c1(5) n(1,2) by simp
      from less.hyps [OF this c1(1,3,4) less.prems(4)] c1(5) n(2) obtain m s2 where
        m: "process_loop env cfg ci n s1 = Some (0, m, s2)" "loop_done s1 ci c1 n m s2" by auto
      have "loop_done s ci c consumed m s2" by (rule loop_done_line [OF n(1-3,5) c1(2,5-9) m(2)])
      with m(1) show ?thesis unfolding run by blast
    qed
  qed
qed

definition requests_done :: "ks_server \<Rightarrow> nat \<Rightarrow> ks_client \<Rightarrow> ks_server \<Rightarrow> bool" where
  "requests_done s ci c s' \<longleftrightarrow> server_inv s' \<and> same_clients s s' \<and>
     (\<exists>c' more ls rest. get_client s' ci = Some c' \<and> cl_used c' \<and> outbox c' = outbox c @ more \<and>
        (\<forall>l \<in> set ls. request_line l) \<and> inbox c = wire ls @ rest \<and>
        (cl_close_after_write c' \<and> inbox c' = [] \<and> starts_oversized rest \<and> (\<exists>tx. more = tx @ refusal) \<or>
         cl_close_after_write c' = cl_close_after_write c \<and> inbox c' = rest \<and> (more = [] \<longleftrightarrow> ls = []) \<and>
           (KS_OUTPUT_HIGH_WATER \<le> pending c' \<or> LF \<notin> set rest)))"

lemma requests_doneI:
  assumes "server_inv s'" "same_clients s s'" "get_client s' ci = Some c'" "cl_used c'" "outbox c' = outbox c @ u"
    "\<forall>l \<in> set ls. request_line l" "inbox c = wire ls @ rest"
    "cl_close_after_write c' \<and> inbox c' = [] \<and> starts_oversized rest \<and> (\<exists>tx. u = tx @ refusal) \<or>
     cl_close_after_write c' = cl_close_after_write c \<and> inbox c' = rest \<and> (u = [] \<longleftrightarrow> ls = []) \<and>
       (KS_OUTPUT_HIGH_WATER \<le> pending c' \<or> LF \<notin> set rest)"
  shows "requests_done s ci c s'"
  unfolding requests_done_def
  by (intro conjI exI) (rule assms)+

lemma process_requests_spec:
  assumes s: "server_inv s" and c: "get_client s ci = Some c" "cl_used c" and env: "env_ok env"
  shows "\<exists>s'. process_requests env cfg s ci = Some (0, s') \<and> requests_done s ci c s'"
proof -
  from process_loop_spec [OF s c env, of 0 cfg] obtain n s1 where
    run: "process_loop env cfg ci 0 s = Some (0, n, s1)" and l: "loop_done s ci c 0 n s1" by auto
  from l obtain c1 more ls rest where c1: "server_inv s1" "same_clients s s1" "n \<le> cl_input_len c"
    "get_client s1 ci = Some c1" "cl_used c1" "cl_input_len c1 = cl_input_len c" "outbox c1 = outbox c @ more"
    "more = [] \<longleftrightarrow> n = 0"
    and ls: "\<forall>l \<in> set ls. request_line l" "inbox c = wire ls @ rest"
    and e: "cl_close_after_write c1 \<and> n = cl_input_len c \<and> starts_oversized rest \<and> (\<exists>tx. more = tx @ refusal) \<or>
       cl_close_after_write c1 = cl_close_after_write c \<and> drop n (inbox c1) = rest \<and> drop n (inbox c) = rest \<and>
       (KS_OUTPUT_HIGH_WATER \<le> pending c1 \<or> LF \<notin> set rest)"
    unfolding loop_done_def drop_0 by (elim conjE exE) (rule that; assumption)
  note ok = get_client_ok [OF c1(1,4)]
  note d = client_okD [OF ok c1(5)]
  note len = inbox_length [OF get_client_ok [OF s c(1)] c(2)] inbox_length [OF ok c1(5)]
  have none: "n = 0 \<longleftrightarrow> ls = []" if "drop n (inbox c) = rest"
  proof -
    have "length (inbox c) = length (wire ls) + (length (inbox c) - n)" using arg_cong [OF ls(2), of length] that by auto
    then have "n = length (wire ls)" using c1(3) len(1) by simp
    then show ?thesis by simp
  qed
  have rest: "inbox c' = drop n (inbox c1) \<Longrightarrow> pending c' = pending c1 \<Longrightarrow>
      cl_close_after_write c' = cl_close_after_write c1 \<Longrightarrow>
      cl_close_after_write c' \<and> inbox c' = [] \<and> starts_oversized rest \<and> (\<exists>tx. more = tx @ refusal) \<or>
      cl_close_after_write c' = cl_close_after_write c \<and> inbox c' = rest \<and> (more = [] \<longleftrightarrow> ls = []) \<and>
        (KS_OUTPUT_HIGH_WATER \<le> pending c' \<or> LF \<notin> set rest)" for c'
    using e c1(3,6,8) len none by auto
  show ?thesis
  proof (cases "n = 0")
    case True
    with run have "process_requests env cfg s ci = Some (0, s1)" by (simp add: process_requests_def)
    moreover have "requests_done s ci c s1"
      by (rule requests_doneI [OF c1(1,2,4,5,7) ls rest]) (simp_all add: True)
    ultimately show ?thesis by blast
  next
    case False
    let ?m = "cl_input_len c1 - n"
    let ?b = "take ?m (drop n (cl_input c1)) @ drop ?m (cl_input c1)"
    let ?c = "c1\<lparr>cl_input := ?b, cl_input_len := ?m\<rparr>"
    have run': "process_requests env cfg s ci = Some (0, put_client s1 ci ?c)"
      using run c1 False d by (simp add: process_requests_def memcpy_def Let_def)
    have "inbox ?c = take ?m (drop n (cl_input c1))" using d c1(3,6) by (simp add: inbox_def)
    also have "\<dots> = drop n (inbox c1)" by (simp add: inbox_def drop_take)
    finally have inb: "inbox ?c = drop n (inbox c1)" .
    have out: "outbox ?c = outbox c1" "pending ?c = pending c1" by (simp_all add: outbox_def pending_def)
    have "client_ok ?c" using ok d c1(3,5,6) by (auto simp: client_ok_def)
    then have inv: "server_inv (put_client s1 ci ?c)" by (intro server_inv_put [OF c1(1,4)]) simp_all
    have same: "same_clients s (put_client s1 ci ?c)"
      by (intro same_clients_trans [OF c1(2)] same_clients_put [OF c1(4)]) simp_all
    have "requests_done s ci c (put_client s1 ci ?c)"
      by (rule requests_doneI [OF inv same get_put [OF c1(4)] _ _ ls rest [OF inb out(2)]])
        (use c1(5,7) out(1) in simp_all)
    with run' show ?thesis by blast
  qed
qed

section \<open>Reading\<close>

text \<open>
  Reading from a client returns once the socket has nothing more to give, keeps the invariant,
  and reports failure only when the socket failed: no request makes it fail.
\<close>

lemma read_client_spec:
  assumes "server_inv s" "get_client s ci = Some c" "cl_used c" "env_ok env" "settles os"
  shows "\<exists>r s' os'. read_client env cfg ci s os = Some (r, s', os') \<and> server_inv s' \<and> same_clients s s' \<and>
    (r = 0 \<or> r = - 1 \<and> Inl E_OTHER \<in> set os)"
  using assms
proof (induction "recv_size os" arbitrary: s c os rule: less_induct)
  case less
  note ok = get_client_ok [OF less.prems(1,2)]
  note d = client_okD [OF ok less.prems(3)]
  note g = less.prems(2)
  let ?stopped = "\<lambda>c'. put_client s ci (c'\<lparr>cl_input_len := 0, cl_close_after_write := True\<rparr>)"
  have fin: "server_inv (?stopped c') \<and> same_clients s (?stopped c')" if "queued c tx c'" for tx c'
    using queuedD [OF that] less.prems(3)
    by (intro conjI server_inv_put [OF less.prems(1) g] same_clients_put [OF g]) (simp_all add: client_ok_def)
  show ?case
  proof (cases "KS_OUTPUT_HIGH_WATER \<le> pending c")
    case True
    with less.prems show ?thesis by (subst read_client.simps) simp
  next
    case False
    then have low: "pending c < KS_OUTPUT_HIGH_WATER" by simp
    note qe = queue_error_spec [OF ok less.prems(3) low]
    show ?thesis
    proof (cases "cl_input_len c = KS_INPUT_CAP")
      case True
      from qe [of "''request too large''"] obtain c' tx where
        "queue_error c ''request too large'' = Some (0, c')" "queued c tx c'" by auto
      with fin True low g show ?thesis by (subst read_client.simps) auto
    next
      case room: False
      let ?n = "KS_INPUT_CAP - cl_input_len c"
      have n: "0 < ?n" using room d by simp
      from recv_settles [OF less.prems(5) n] obtain st data os' where
        rv: "recv_loop ?n os = Some (st, data, os')" "length data \<le> ?n" "data \<noteq> [] \<longleftrightarrow> st = KS_IO_OK"
          "st = KS_IO_OK \<Longrightarrow> settles os' \<and> recv_size os' < recv_size os" by blast
      note inl = recv_errors [OF rv(1)]
      have recv: "ks_recv os ?n = Some (st, data, os')" using rv(1) n by (simp add: ks_recv_def)
      let ?b = "take (cl_input_len c) (cl_input c) @ data @ drop (cl_input_len c + length data) (cl_input c)"
      have copy: "memcpy (cl_input c) (cl_input_len c) data = Some ?b" using rv(2) d by (simp add: memcpy_def)
      note unf = read_client.simps [of env cfg ci s os]
      show ?thesis
      proof (cases st)
        case KS_IO_ERROR
        with less.prems(1) g low room recv copy inl(2) show ?thesis unfolding unf by simp
      next
        case KS_IO_WOULD_BLOCK
        with less.prems(1) g low room recv copy show ?thesis unfolding unf by simp
      next
        case KS_IO_CLOSED
        obtain c' tx where q: "(if cl_input_len c \<noteq> 0 then queue_error c ''incomplete command'' else Some (0, c)) = Some (0, c')"
          "queued c tx c'"
        proof (cases "cl_input_len c = 0")
          case True
          with that [of c "[]"] ok show thesis by (simp add: queued_def)
        next
          case False
          with that qe [of "''incomplete command''"] show thesis by auto
        qed
        with KS_IO_CLOSED fin [OF q(2)] g low room recv copy show ?thesis unfolding unf by auto
      next
        case KS_IO_OK
        let ?c = "c\<lparr>cl_input := ?b, cl_input_len := cl_input_len c + length data\<rparr>"
        let ?s = "put_client s ci ?c"
        have "client_ok ?c" using ok d rv(2) less.prems(3) by (auto simp: client_ok_def)
        then have s1: "server_inv ?s" by (intro server_inv_put [OF less.prems(1) g]) simp_all
        have same1: "same_clients s ?s" by (intro same_clients_put [OF g]) simp_all
        from process_requests_spec [OF s1 get_put [OF g] _ less.prems(4), of cfg] less.prems(3) obtain s2 c2 where
          p: "process_requests env cfg ?s ci = Some (0, s2)" "server_inv s2" "same_clients ?s s2"
            "get_client s2 ci = Some c2" "cl_used c2" by (auto simp: requests_done_def)
        note same = same_clients_trans [OF same1 p(3)]
        have run: "read_client env cfg ci s os =
            (if cl_close_after_write c2 then Some (0, s2, os') else read_client env cfg ci s2 os')"
          using KS_IO_OK g low room recv copy p unfolding unf by simp
        show ?thesis
        proof (cases "cl_close_after_write c2")
          case True
          with run p same show ?thesis by simp
        next
          case False
          from rv(4) KS_IO_OK have "recv_size os' < recv_size os" "settles os'" by auto
          from less.hyps [OF this(1) p(2,4,5) less.prems(4) this(2)] same_clients_trans [OF same] inl(1) False
          show ?thesis unfolding run by auto
        qed
      qed
    qed
  qed
qed

end
