(* ===== verification/Kessel_Event_Loop_Correct.thy ===== *)
theory Kessel_Event_Loop_Correct
  imports Kessel_Event_Loop Kessel_Server_Requests
begin

text \<open>
  The event loop. Every round returns, whatever the clients send and the system answers, and keeps
  the invariant; descriptors are accounted for: each one that \<open>accept\<close> gave belongs to a
  connected client or was closed, once. Identifiers stay unique as long as fewer than \<open>2 ^ 64\<close>
  connections were accepted, which the bound \<open>k\<close> of \<open>srv_ok k\<close> keeps track of.
\<close>

section \<open>Open descriptors\<close>

definition open_fds :: "ks_client list \<Rightarrow> int list" where
  "open_fds cs = map cl_fd (filter cl_used cs)"

lemma open_fds_same:
  assumes "list_all2 same_identity cs cs'" shows "open_fds cs' = open_fds cs" "used_ids cs' = used_ids cs"
  using assms by (induction rule: list_all2_induct) (auto simp: open_fds_def same_identity_def)

lemma same_clientsD:
  assumes "same_clients s s'"
  shows "open_fds (sv_clients s') = open_fds (sv_clients s)" "used_ids (sv_clients s') = used_ids (sv_clients s)"
    "length (sv_clients s') = length (sv_clients s)" "sv_next_client_id s' = sv_next_client_id s"
  using assms open_fds_same by (auto simp: same_clients_def dest: list_all2_lengthD)

definition ids_fresh :: "ks_server \<Rightarrow> bool" where
  "ids_fresh s \<longleftrightarrow> (\<forall>i \<in> set (used_ids (sv_clients s)). unat i < unat (sv_next_client_id s))"

definition srv_ok :: "nat \<Rightarrow> ks_server \<Rightarrow> bool" where
  "srv_ok k s \<longleftrightarrow> server_inv s \<and> ids_fresh s \<and> unat (sv_next_client_id s) + k < 2 ^ 64"

lemma srv_ok_same: "srv_ok k s \<Longrightarrow> server_inv s' \<Longrightarrow> same_clients s s' \<Longrightarrow> srv_ok k s'"
  by (simp add: srv_ok_def ids_fresh_def same_clientsD)

lemma srv_ok_less: "srv_ok k s \<Longrightarrow> j \<le> k \<Longrightarrow> srv_ok j s"
  by (simp add: srv_ok_def)

section \<open>Disconnecting\<close>

lemma used_ids_remove:
  assumes "i < length cs" "cl_used (cs ! i)" "\<not> cl_used c"
  shows "length (used_ids cs) = Suc (length (used_ids (cs[i := c])))"
    "mset (used_ids cs) = add_mset (cl_id (cs ! i)) (mset (used_ids (cs[i := c])))"
    "mset (open_fds cs) = add_mset (cl_fd (cs ! i)) (mset (open_fds (cs[i := c])))"
proof -
  show m: "mset (used_ids cs) = add_mset (cl_id (cs ! i)) (mset (used_ids (cs[i := c])))"
    "mset (open_fds cs) = add_mset (cl_fd (cs ! i)) (mset (open_fds (cs[i := c])))"
    using mset_map_filter_update [OF assms(1), of cl_id cl_used c] mset_map_filter_update [OF assms(1), of cl_fd cl_used c]
      assms(2,3) by (simp_all add: used_ids_def open_fds_def)
  from arg_cong [OF m(1), of size] show "length (used_ids cs) = Suc (length (used_ids (cs[i := c])))" by simp
qed

lemma of_nat_dec: "0 < n \<Longrightarrow> n < 1024 \<Longrightarrow> (of_nat n :: u64) > 0 \<and> (of_nat n :: u64) - 1 = of_nat (n - 1)"
  by (simp add: word_less_nat_alt unsigned_of_nat take_bit_nat_eq_self of_nat_diff)

lemma disconnect_spec:
  assumes s: "srv_ok k s" and c: "get_client s ci = Some c" "cl_used c"
  obtains s' where "disconnect s ci = Some (s', [cl_fd c])" "srv_ok k s'"
    "length (sv_clients s') = length (sv_clients s)"
    "mset (open_fds (sv_clients s)) = add_mset (cl_fd c) (mset (open_fds (sv_clients s')))"
proof -
  have inv: "server_inv s" using s by (simp add: srv_ok_def)
  note d = server_invD [OF inv]
  have ci: "ci < length (sv_clients s)" "sv_clients s ! ci = c" using c(1) by (auto simp: get_client_def split: if_splits)
  from remove_client_spec [OF d(6), of "cl_id c"] obtain p ev m where
    p: "ks_pubsub_remove_client (Some (sv_pubsub s)) (cl_id c) = (m, Some p, ev)" "ps_inv p"
      "ps_members p = {q \<in> ps_members (sv_pubsub s). snd q \<noteq> cl_id c}" by blast
  let ?cs = "(sv_clients s)[ci := zero_client]" and ?n = "mt_connected_clients (sv_metrics s)"
  let ?s = "(put_client s ci zero_client)\<lparr>sv_metrics := (sv_metrics s)\<lparr>mt_connected_clients := if ?n > 0 then ?n - 1 else ?n\<rparr>,
    sv_pubsub := p\<rparr>"
  have z: "\<not> cl_used zero_client" by (simp add: zero_client_def)
  note u = used_ids_remove [OF ci(1) _ z, unfolded ci(2), OF c(2)]
  have set_u: "set (used_ids (sv_clients s)) = insert (cl_id c) (set (used_ids ?cs))"
    using arg_cong [OF u(2), of set_mset] by simp
  have dist: "distinct (used_ids ?cs)" "cl_id c \<notin> set (used_ids ?cs)"
    using d(2) u(2) by (metis distinct_count_atmost_1 distinct.simps(2) mset.simps(2) mset_eq_imp_distinct_iff)+
  have "length (used_ids (sv_clients s)) < 1024"
    using d(3) le_less_trans [OF length_filter_le d(3), of cl_used] by (simp add: used_ids_def FD_SETSIZE_def)
  then have cnt: "(if ?n > 0 then ?n - 1 else ?n) = of_nat (length (used_ids ?cs))"
    using of_nat_dec [of "length (used_ids (sv_clients s))"] d(8) u(1) by simp
  have ok: "\<forall>c \<in> set ?cs. client_ok c" using d(1) set_update_subset_insert [of "sv_clients s" ci zero_client] by auto
  have mem: "snd ` ps_members p \<subseteq> set (used_ids ?cs)" using d(7) set_u p(3) by auto
  have "server_inv ?s" using d ok dist(1) p(2) mem cnt by (simp add: server_inv_def)
  then have "srv_ok k ?s" using s set_u by (simp add: srv_ok_def ids_fresh_def)
  moreover have "disconnect s ci = Some (?s, [cl_fd c])"
    using c p(1) by (simp add: disconnect_def client_reset_def Let_def)
  ultimately show thesis using u(3) by (intro that [of ?s]) simp_all
qed

section \<open>Serving the clients\<close>

text \<open>
  What is assumed of the system: calls on non-blocking sockets settle, \<open>accept\<close> gives
  descriptors, \<open>time\<close> a 64-bit time.
\<close>

definition te_ok :: "tick_env \<Rightarrow> bool" where
  "te_ok te \<longleftrightarrow> settles (te_accept te) \<and> (\<forall>fd nb. Inr (fd, nb) \<in> set (te_accept te) \<longrightarrow> 0 \<le> fd) \<and>
     (\<forall>i. settles (te_recv te i) \<and> settles (te_send te i)) \<and> env_ok (te_commands te)"

definition served :: "nat \<Rightarrow> ks_server \<Rightarrow> int list \<Rightarrow> ks_server \<Rightarrow> bool" where
  "served k s closed s' \<longleftrightarrow> srv_ok k s' \<and> length (sv_clients s') = length (sv_clients s) \<and>
     mset (open_fds (sv_clients s)) = mset closed + mset (open_fds (sv_clients s'))"

lemma served_trans: "served k s cl s' \<Longrightarrow> served k s' cl' s'' \<Longrightarrow> served k s (cl @ cl') s''"
  by (simp add: served_def)

lemma served_same: "srv_ok k s \<Longrightarrow> server_inv s' \<Longrightarrow> same_clients s s' \<Longrightarrow> served k s [] s'"
  by (simp add: served_def srv_ok_same same_clientsD)

lemma same_clients_get:
  assumes "same_clients s s'" "get_client s ci = Some c"
  obtains c' where "get_client s' ci = Some c'" "cl_used c' = cl_used c" "cl_fd c' = cl_fd c"
  using assms
  by (auto simp: same_clients_def get_client_def list_all2_conv_all_nth same_identity_def split: if_splits)

lemma stage_read_spec:
  assumes te: "te_ok te" and s: "srv_ok k s" and c: "get_client s ci = Some c" "cl_used c"
  obtains b s' where "stage_read te cfg fds ci s = Some (b, s')" "server_inv s'" "same_clients s s'"
proof -
  have t: "settles (te_recv te ci)" "env_ok (te_commands te)" "server_inv s"
    using te s by (simp_all add: te_ok_def srv_ok_def)
  from read_client_spec [OF t(3) c t(2,1), of cfg] obtain r s' os' where
    "read_client (te_commands te) cfg ci s (te_recv te ci) = Some (r, s', os')" "server_inv s'" "same_clients s s'" by blast
  with c t(3) show thesis
    by (cases "cl_fd c \<in> set fds") (auto simp: stage_read_def intro: that)
qed

lemma stage_write_spec:
  assumes te: "te_ok te" and s: "server_inv s" and c: "get_client s ci = Some c" "cl_used c"
  obtains b' s' out where "stage_write te fds ci b s = Some (b', s', out)" "server_inv s'" "same_clients s s'"
proof (rule write_client_spec [OF get_client_ok [OF s c(1)] c(2), of "te_send te ci"])
  show "settles (te_send te ci)" using te by (simp add: te_ok_def)
  fix r c' out os'
  assume w: "write_client c (te_send te ci) = Some (r, c', out, os')" "client_ok c'"
    "c' = c\<lparr>cl_output_offset := cl_output_offset c', cl_output_len := cl_output_len c'\<rparr>"
  from w(3) obtain x y where xy: "c' = c\<lparr>cl_output_offset := x, cl_output_len := y\<rparr>" by blast
  have "server_inv (put_client s ci c')" "same_clients s (put_client s ci c')"
    using w(2) by (auto intro!: server_inv_put [OF s c(1)] same_clients_put [OF c(1)] simp: xy)
  with w(1) c s show thesis
    by (cases "\<not> b \<and> cl_fd c \<in> set fds") (auto simp: stage_write_def intro: that)
qed

lemma stage_requests_spec:
  assumes te: "te_ok te" and s: "server_inv s" and c: "get_client s ci = Some c" "cl_used c"
  obtains b' s' where "stage_requests te cfg ci b s = Some (b', s')" "server_inv s'" "same_clients s s'"
proof -
  have t: "env_ok (te_commands te)" using te by (simp add: te_ok_def)
  from process_requests_spec [OF s c t, of cfg] obtain s' where
    "process_requests (te_commands te) cfg s ci = Some (0, s')" "server_inv s'" "same_clients s s'"
    by (auto simp: requests_done_def)
  with c s show thesis
    by (cases "\<not> b \<and> cl_input_len c > 0 \<and> pending c < KS_OUTPUT_HIGH_WATER")
      (auto simp: stage_requests_def intro: that)
qed

lemma stage_close_spec:
  assumes s: "srv_ok k s" and c: "get_client s ci = Some c" "cl_used c"
  obtains closed s' where "stage_close ci b s = Some (s', closed)" "served k s closed s'"
proof (rule disconnect_spec [OF s c])
  fix s'
  assume "disconnect s ci = Some (s', [cl_fd c])" "srv_ok k s'" "length (sv_clients s') = length (sv_clients s)"
    "mset (open_fds (sv_clients s)) = add_mset (cl_fd c) (mset (open_fds (sv_clients s')))"
  with c s show thesis
    by (cases "b \<or> cl_close_after_write c \<and> cl_output_len c = cl_output_offset c")
      (auto simp: stage_close_def served_def intro: that)
qed

lemma serve_client_spec:
  assumes te: "te_ok te" and s: "srv_ok k s" and ci: "ci < length (sv_clients s)"
  shows "\<exists>s' closed sent. serve_client te cfg rfds wfds ci s = Some (s', closed, sent) \<and> served k s closed s'"
proof -
  obtain c where c: "get_client s ci = Some c" using ci by (simp add: get_client_def)
  show ?thesis
  proof (cases "cl_used c")
    case False
    with c s show ?thesis by (simp add: serve_client_def served_def)
  next
    case used: True
    obtain b1 s1 where 1: "stage_read te cfg rfds ci s = Some (b1, s1)" "server_inv s1" "same_clients s s1"
      by (rule stage_read_spec [OF te s c used])
    obtain c1 where c1: "get_client s1 ci = Some c1" "cl_used c1"
      by (rule same_clients_get [OF 1(3) c]) (use used in simp)
    obtain b2 s2 out where 2: "stage_write te wfds ci b1 s1 = Some (b2, s2, out)" "server_inv s2" "same_clients s1 s2"
      by (rule stage_write_spec [OF te 1(2) c1])
    obtain c2 where c2: "get_client s2 ci = Some c2" "cl_used c2"
      by (rule same_clients_get [OF 2(3) c1(1)]) (use c1(2) in simp)
    obtain b3 s3 where 3: "stage_requests te cfg ci b2 s2 = Some (b3, s3)" "server_inv s3" "same_clients s2 s3"
      by (rule stage_requests_spec [OF te 2(2) c2])
    obtain c3 where c3: "get_client s3 ci = Some c3" "cl_used c3"
      by (rule same_clients_get [OF 3(3) c2(1)]) (use c2(2) in simp)
    have sv: "served k s [] s3"
      by (rule served_same [OF s 3(2) same_clients_trans [OF same_clients_trans [OF 1(3) 2(3)] 3(3)]])
    then have ok3: "srv_ok k s3" by (simp add: served_def)
    obtain closed s4 where 4: "stage_close ci b3 s3 = Some (s4, closed)" "served k s3 closed s4"
      by (rule stage_close_spec [OF ok3 c3])
    from served_trans [OF sv 4(2)] 1(1) 2(1) 3(1) 4(1) c used show ?thesis by (simp add: serve_client_def)
  qed
qed

lemma serve_all_spec:
  assumes te: "te_ok te" and s: "srv_ok k s" and ci: "\<forall>ci \<in> set cis. ci < length (sv_clients s)"
  shows "\<exists>s' closed sent. serve_all te cfg rfds wfds cis s = Some (s', closed, sent) \<and> served k s closed s'"
  using s ci
proof (induction cis arbitrary: s)
  case Nil
  then show ?case by (simp add: served_def)
next
  case (Cons ci cis)
  from serve_client_spec [OF te Cons.prems(1), of ci cfg rfds wfds] Cons.prems(2) obtain s1 cl sent where
    1: "serve_client te cfg rfds wfds ci s = Some (s1, cl, sent)" "served k s cl s1" by auto
  then have "srv_ok k s1" "length (sv_clients s1) = length (sv_clients s)" by (simp_all add: served_def)
  with Cons.IH [of s1] Cons.prems(2) obtain s2 cl' sent' where
    2: "serve_all te cfg rfds wfds cis s1 = Some (s2, cl', sent')" "served k s1 cl' s2" by auto
  from served_trans [OF 1(2) 2(2)] 1(1) 2(1) show ?case by simp
qed

section \<open>Accepting\<close>

text \<open>
  What one call of \<open>accept_clients\<close> is handed by the system, read off the answers alone: the
  descriptors that \<open>accept\<close> gave before the budget was spent, a stop was requested or a call failed,
  and whether one failed. Interrupted calls are repeated; a descriptor that cannot be made
  non-blocking is the last one, and a failure.
\<close>

fun accepted :: "(nat \<Rightarrow> bool) \<Rightarrow> nat \<Rightarrow> accept_answer list \<Rightarrow> int list \<times> bool" where
  "accepted stop 0 os = ([], False)"
| "accepted stop (Suc n) os =
     (if stop n then ([], False)
      else case dropWhile (\<lambda>a. a = Inl EINTR) os of
        [] \<Rightarrow> ([], False)
      | Inl errno # os \<Rightarrow> ([], \<not> ks_error_would_block errno)
      | Inr (fd, nb) # os \<Rightarrow> if ks_set_nonblock nb \<noteq> 0 then ([fd], True) else apfst ((#) fd) (accepted stop n os))"

lemma accepted_subset: "fd \<in> set (fst (accepted stop n os)) \<Longrightarrow> \<exists>nb. Inr (fd, nb) \<in> set os"
proof (induction stop n os rule: accepted.induct)
  case (2 stop n os)
  have sub: "set (dropWhile (\<lambda>a. a = Inl EINTR) os) \<subseteq> set os" by (auto dest: set_dropWhileD)
  show ?case
  proof (cases "dropWhile (\<lambda>a. a = Inl EINTR) os")
    case Nil
    show ?thesis using 2(2) by (simp add: Nil del: dropWhile_eq_Nil_conv split: if_splits)
  next
    case (Cons a rest)
    note h = 2(1) [OF _ Cons]
    show ?thesis
    proof (cases a)
      case (Inl errno)
      with 2(2) Cons show ?thesis by (simp split: if_splits)
    next
      case (Inr q)
      obtain cfd nb where q: "q = (cfd, nb)" by (rule prod.exhaust)
      have "Inr (cfd, nb) \<in> set os" "set rest \<subseteq> set os" using sub Cons Inr q by auto
      with 2(2) Cons h [OF _ Inr q [symmetric]] Inr q show ?thesis by (auto split: if_splits)
    qed
  qed
qed simp

lemma accept_uninterrupted: "ks_accept os = ks_accept (dropWhile (\<lambda>a. a = Inl EINTR) os)"
  by (induction os rule: ks_accept.induct) (simp_all add: ks_error_interrupted_def)

lemma settles_uninterrupted:
  fixes os :: "accept_answer list"
  assumes "settles os"
  obtains errno rest where "dropWhile (\<lambda>a. a = Inl EINTR) os = Inl errno # rest" "errno \<noteq> EINTR"
    | fd nb rest where "dropWhile (\<lambda>a. a = Inl EINTR) os = Inr (fd, nb) # rest" "settles rest" "Inr (fd, nb) \<in> set os"
      "set rest \<subseteq> set os"
proof -
  let ?d = "dropWhile (\<lambda>a. a = Inl EINTR) os"
  have "settles xs \<Longrightarrow> settles (dropWhile (\<lambda>a. a = Inl EINTR) xs)" for xs :: "accept_answer list"
    by (induction xs) (auto simp: settles_def)
  from this [OF assms] have d: "settles ?d" .
  have sub: "set ?d \<subseteq> set os" by (auto dest: set_dropWhileD)
  show thesis
  proof (cases ?d)
    case Nil
    with d show thesis by (simp del: dropWhile_eq_Nil_conv)
  next
    case (Cons a rest)
    then have a: "a \<noteq> Inl EINTR" by (simp add: dropWhile_eq_Cons_conv)
    show thesis
    proof (cases a)
      case (Inl errno)
      show thesis by (rule that(1) [of errno rest]) (use a Inl Cons in simp_all)
    next
      case (Inr p)
      obtain fd nb where p: "p = (fd, nb)" by (rule prod.exhaust)
      show thesis
      proof (rule that(2) [of fd nb rest])
        show "?d = Inr (fd, nb) # rest" using Cons Inr p by simp
        show "settles rest" using d Cons Inr by simp
        show "Inr (fd, nb) \<in> set os" "set rest \<subseteq> set os" using sub Cons Inr p by simp_all
      qed
    qed
  qed
qed

lemma free_slot_spec:
  "free_slot cs \<le> length cs" "free_slot cs < length cs \<Longrightarrow> \<not> cl_used (cs ! free_slot cs)"
  "free_slot cs = length cs \<longleftrightarrow> (\<forall>c \<in> set cs. cl_used c)"
  by (induction cs) auto

text \<open>A client put into a free place: the converse of \<open>used_ids_remove\<close>.\<close>

lemma used_ids_add:
  assumes "i < length cs" "\<not> cl_used (cs ! i)" "cl_used c"
  shows "length (used_ids (cs[i := c])) = Suc (length (used_ids cs))"
    "mset (used_ids (cs[i := c])) = add_mset (cl_id c) (mset (used_ids cs))"
    "mset (open_fds (cs[i := c])) = add_mset (cl_fd c) (mset (open_fds cs))"
  using used_ids_remove [of i "cs[i := c]" "cs ! i"] assms by simp_all

lemma next_id_spec:
  assumes "unat n + 1 < 2 ^ 64" shows "unat (next_id n) = Suc (unat n)"
proof -
  have "unat (n + 1) = Suc (unat n)" using assms by (simp add: unat_word_ariths)
  moreover from this have "n + 1 \<noteq> 0" by (metis Zero_not_Suc unat_0)
  ultimately show ?thesis by (simp add: next_id_def)
qed

lemma fresh_client_ok: "client_init al c fd i = (0, c', closed) \<Longrightarrow> client_ok c' \<and> cl_used c' \<and> cl_fd c' = fd \<and> cl_id c' = i \<and> closed = []"
  by (auto simp: client_init_def client_ok_def zero_client_def split: if_splits)

lemma client_init_refused: "client_init al c fd i = (r, c', closed) \<Longrightarrow> r \<noteq> 0 \<Longrightarrow> closed = [fd]"
  by (auto simp: client_init_def split: if_splits)

lemma reject_clients [simp]: "sv_clients (reject_connection s) = sv_clients s"
  by (simp add: reject_connection_def)

lemma srv_ok_reject: "srv_ok (Suc k) s \<Longrightarrow> srv_ok k (reject_connection s)"
  by (simp add: srv_ok_def server_inv_def ids_fresh_def reject_connection_def)

lemma srv_ok_bump: "srv_ok (Suc k) s \<Longrightarrow> srv_ok k (s\<lparr>sv_next_client_id := next_id (sv_next_client_id s)\<rparr>)"
  using next_id_spec [of "sv_next_client_id s"] by (auto simp: srv_ok_def server_inv_def ids_fresh_def)

definition accounted :: "nat \<Rightarrow> ks_server \<Rightarrow> int list \<Rightarrow> int list \<Rightarrow> ks_server \<Rightarrow> bool" where
  "accounted k s fds closed s' \<longleftrightarrow> srv_ok k s' \<and> length (sv_clients s') = length (sv_clients s) \<and>
     mset (open_fds (sv_clients s)) + mset fds = mset closed + mset (open_fds (sv_clients s'))"

lemma accounted_trans:
  "accounted j s fds cl s' \<Longrightarrow> accounted k s' fds' cl' s'' \<Longrightarrow> accounted k s (fds @ fds') (cl @ cl') s''"
  by (simp add: accounted_def) (metis (no_types, lifting) add.commute add.left_commute)

lemma served_accounted: "served k s cl s' \<longleftrightarrow> accounted k s [] cl s'"
  by (simp add: served_def accounted_def)

lemma admit_new:
  assumes s: "srv_ok (Suc k) s" and free: "free_slot (sv_clients s) < length (sv_clients s)"
    and c: "client_ok c" "cl_used c" "cl_id c = sv_next_client_id s"
  shows "srv_ok k ((put_client (s\<lparr>sv_next_client_id := next_id (sv_next_client_id s)\<rparr>) (free_slot (sv_clients s)) c)\<lparr>
    sv_metrics := (sv_metrics s)\<lparr>mt_connected_clients := mt_connected_clients (sv_metrics s) + 1,
      mt_total_connections := mt_total_connections (sv_metrics s) + 1\<rparr>\<rparr>)" (is "srv_ok k ?s")
proof -
  let ?i = "sv_next_client_id s" and ?cs = "(sv_clients s)[free_slot (sv_clients s) := c]"
  have inv: "server_inv s" and fr: "ids_fresh s" and k: "unat ?i + Suc k < 2 ^ 64" using s by (simp_all add: srv_ok_def)
  note d = server_invD [OF inv] and u = used_ids_add [OF free free_slot_spec(2) [OF free] c(2)]
  have set_u: "set (used_ids ?cs) = insert ?i (set (used_ids (sv_clients s)))"
    using arg_cong [OF u(2), of set_mset] c(3) by simp
  have "?i \<notin> set (used_ids (sv_clients s))" using fr by (auto simp: ids_fresh_def)
  then have dist: "distinct (used_ids ?cs)"
    using d(2) u(2) c(3) by (metis distinct.simps(2) mset.simps(2) mset_eq_imp_distinct_iff set_mset_mset)
  have ok: "\<forall>c \<in> set ?cs. client_ok c"
    using d(1) c(1) set_update_subset_insert [of "sv_clients s" "free_slot (sv_clients s)" c] by auto
  have n: "unat (next_id ?i) = Suc (unat ?i)" using k by (intro next_id_spec) simp
  have "server_inv ?s" using d ok dist u(1) set_u by (auto simp: server_inv_def put_client_def)
  moreover have "ids_fresh ?s" using fr n set_u by (auto simp: ids_fresh_def put_client_def)
  ultimately show ?thesis using k n by (simp add: srv_ok_def put_client_def)
qed

lemma admit_spec:
  assumes s: "srv_ok (Suc k) s" and a: "admit al s fd = (s', closed)"
  shows "accounted k s [fd] closed s'"
proof (cases "free_slot (sv_clients s) = length (sv_clients s) \<or> fd \<ge> int FD_SETSIZE")
  case True
  with a have "s' = reject_connection s" "closed = [fd]" by (auto simp: admit_def Let_def)
  with srv_ok_reject [OF s] show ?thesis by (simp add: accounted_def)
next
  case False
  with free_slot_spec(1) [of "sv_clients s"] have free: "free_slot (sv_clients s) < length (sv_clients s)" by simp
  obtain r c cl where i: "client_init al (sv_clients s ! free_slot (sv_clients s)) fd (sv_next_client_id s) = (r, c, cl)"
    by (rule prod_cases3)
  show ?thesis
  proof (cases "r = 0")
    case True
    note c = fresh_client_ok [OF i [unfolded True]]
    from admit_new [OF s free, of c] used_ids_add(3) [OF free free_slot_spec(2) [OF free], of c] c a False i True
    show ?thesis by (auto simp: admit_def Let_def accounted_def put_client_def)
  next
    case r: False
    from srv_ok_bump [OF s] have "srv_ok k (reject_connection (s\<lparr>sv_next_client_id := next_id (sv_next_client_id s)\<rparr>))"
      by (simp add: srv_ok_def server_inv_def ids_fresh_def reject_connection_def)
    with client_init_refused [OF i r] False i r a show ?thesis
      by (auto simp: admit_def Let_def accounted_def)
  qed
qed

text \<open>
  The loop takes exactly these descriptors, each of which is now a client's or closed, and fails
  exactly if a call failed.
\<close>

lemma accept_loop_spec:
  assumes "srv_ok (n + k) s" "settles os" "\<forall>fd nb. Inr (fd, nb) \<in> set os \<longrightarrow> 0 \<le> fd"
  shows "\<exists>r s' closed. accept_loop stop al n s os = Some (r, s', closed) \<and>
    accounted k s (fst (accepted stop n os)) closed s' \<and> (r \<noteq> 0 \<longleftrightarrow> snd (accepted stop n os))"
  using assms
proof (induction n arbitrary: s os)
  case 0
  then show ?case by (simp add: accounted_def)
next
  case (Suc n)
  have ok: "srv_ok k s" by (rule srv_ok_less [OF Suc.prems(1)]) simp
  note codes = KS_NET_ACCEPT_ERROR_def KS_NET_ACCEPT_WOULD_BLOCK_def
  show ?case
  proof (cases "stop n")
    case True
    with ok show ?thesis by (simp add: accounted_def)
  next
    case go: False
    from Suc.prems(2) show ?thesis
    proof (cases rule: settles_uninterrupted)
      case (1 errno rest)
      then have "ks_accept os = Some (if ks_error_would_block errno then KS_NET_ACCEPT_WOULD_BLOCK
          else KS_NET_ACCEPT_ERROR, [], rest)"
        by (subst accept_uninterrupted) (simp add: ks_error_interrupted_def)
      with go ok 1(1) show ?thesis by (simp add: accounted_def codes)
    next
      case (2 fd nb rest)
      have a: "ks_accept os = (if ks_set_nonblock nb \<noteq> 0 then Some (KS_NET_ACCEPT_ERROR, [fd], rest)
          else Some (fd, [], rest))"
        by (subst accept_uninterrupted) (simp add: 2(1) ks_close_def)
      have fd: "0 \<le> fd" using Suc.prems(3) 2(3) by blast
      show ?thesis
      proof (cases "ks_set_nonblock nb = 0")
        case False
        with a go ok 2(1) show ?thesis by (simp add: accounted_def codes)
      next
        case True
        obtain s1 cl where ad: "admit (al n) s fd = (s1, cl)" by (rule prod.exhaust)
        from Suc.prems(1) have "srv_ok (Suc (n + k)) s" by simp
        from admit_spec [OF this ad] have 1: "accounted (n + k) s [fd] cl s1" .
        then have "srv_ok (n + k) s1" by (simp add: accounted_def)
        from Suc.IH [OF this 2(2)] Suc.prems(3) 2(4) obtain r s2 cl' where
          3: "accept_loop stop al n s1 rest = Some (r, s2, cl')"
            "accounted k s1 (fst (accepted stop n rest)) cl' s2" "r \<noteq> 0 \<longleftrightarrow> snd (accepted stop n rest)" by blast
        have "accept_loop stop al (Suc n) s os = Some (r, s2, cl @ cl')"
          using a True ad 3(1) go fd by (simp add: codes)
        moreover have "accepted stop (Suc n) os = apfst ((#) fd) (accepted stop n rest)"
          using True go 2(1) by simp
        ultimately show ?thesis using accounted_trans [OF 1 3(2)] 3(3) by simp
      qed
    qed
  qed
qed

lemma accept_stage_spec:
  assumes "srv_ok (KS_ACCEPT_BUDGET + k) s" "settles os" "\<forall>fd nb. Inr (fd, nb) \<in> set os \<longrightarrow> 0 \<le> fd"
  shows "\<exists>r s' closed. (if b then accept_clients stop al s os else Some (0, s, [])) = Some (r, s', closed) \<and>
    accounted k s (if b then fst (accepted stop KS_ACCEPT_BUDGET os) else []) closed s' \<and>
    (r \<noteq> 0 \<longleftrightarrow> b \<and> snd (accepted stop KS_ACCEPT_BUDGET os))"
proof (cases b)
  case True
  with accept_loop_spec [OF assms, of stop al] show ?thesis by (simp add: accept_clients_def)
next
  case False
  have "srv_ok k s" by (rule srv_ok_less [OF assms(1)]) simp
  with False show ?thesis by (simp add: accounted_def)
qed

section \<open>One round\<close>

lemma reap_server:
  assumes "srv_ok k s"
  obtains r store where "ks_kv_reap (sv_store s) b = Some (r, store)" "srv_ok k (s\<lparr>sv_store := store\<rparr>)"
proof -
  have inv: "server_inv s" using assms by (simp add: srv_ok_def)
  note d = server_invD [OF inv]
  from kv_step_spec [OF d(4), of "Op_Reap b"] obtain a store where
    a: "kv_step (Op_Reap b) (sv_store s) = Some (a, store)" by blast
  have "store_inv store" by (rule kv.step_invar [OF d(4) a])
  moreover have "small_values store" by (rule small_step [OF d(4,5) a]) simp
  ultimately have "srv_ok k (s\<lparr>sv_store := store\<rparr>)"
    using assms by (simp add: srv_ok_def server_inv_def ids_fresh_def)
  moreover obtain r where "ks_kv_reap (sv_store s) b = Some (r, store)"
    using a by (cases "ks_kv_reap (sv_store s) b") auto
  ultimately show thesis by (rule that [rotated])
qed

text \<open>
  The connections of one round and the ticks without polling after it, read off what the system
  answers: the round accepts if the listener was polled and is ready.
\<close>

definition round_connections :: "int \<Rightarrow> nat \<Rightarrow> tick_env \<Rightarrow> int list \<times> nat" where
  "round_connections listen_fd backoff te = (case te_select te of
     Inl errno \<Rightarrow> ([], backoff - 1)
   | Inr polled \<Rightarrow>
       if backoff = 0 \<and> listen_fd \<in> set (fst polled)
       then (case accepted (te_stop te) KS_ACCEPT_BUDGET (te_accept te) of
               (fds, failed) \<Rightarrow> (fds, if failed then 10 else 0))
       else ([], backoff - 1))"

text \<open>
  A round accounts for every descriptor it took, and these are the connections of the round,
  given that no client has the descriptor of the listener. It ends the loop only when
  \<open>select\<close> fails.
\<close>

lemma polled_listener:
  fixes backoff :: nat
  assumes "c_select polled ((if backoff = 0 then [listen_fd] else []) @ map cl_fd (filter wants_read cs)) ws = (rfds, wfds)"
    and "listen_fd \<notin> set (open_fds cs)"
  shows "backoff - 1 = 0 \<and> listen_fd \<in> set rfds \<longleftrightarrow> backoff = 0 \<and> listen_fd \<in> set (fst polled)"
proof -
  have "listen_fd \<notin> cl_fd ` {c \<in> set cs. wants_read c}"
    using assms(2) by (auto simp: open_fds_def wants_read_def)
  with assms(1) show ?thesis by (cases "backoff = 0") (auto simp: c_select_def)
qed

lemma tick_spec:
  assumes te: "te_ok te" and s: "srv_ok (KS_ACCEPT_BUDGET + k) s"
  obtains t fds where "tick te cfg listen_fd backoff s = Some t"
    "accounted k s fds (tr_closed t) (tr_server t)"
    "tr_exit t = (case te_select te of Inl errno \<Rightarrow> if errno = EINTR then None else Some 1 | Inr fds \<Rightarrow> None)"
    "listen_fd \<notin> set (open_fds (sv_clients s)) \<longrightarrow> (fds, tr_backoff t) = round_connections listen_fd backoff te"
    "set fds \<subseteq> {fd. \<exists>nb. Inr (fd, nb) \<in> set (te_accept te)}"
proof -
  obtain r store where r: "ks_kv_reap (sv_store s) KS_REAPER_BUDGET = Some (r, store)"
    "srv_ok (KS_ACCEPT_BUDGET + k) (s\<lparr>sv_store := store\<rparr>)" by (rule reap_server [OF s])
  let ?s = "s\<lparr>sv_store := store\<rparr>"
  have ok: "srv_ok k ?s" by (rule srv_ok_less [OF r(2)]) simp
  show thesis
  proof (cases "te_select te")
    case (Inl errno)
    have "tick te cfg listen_fd backoff s = Some \<lparr>tr_exit = if errno = EINTR then None else Some 1,
      tr_server = ?s, tr_backoff = backoff - 1, tr_closed = [], tr_sent = []\<rparr>"
      using r(1) Inl by (simp add: tick_def Let_def)
    from that [OF this, of "[]"] ok Inl show thesis by (simp add: accounted_def round_connections_def)
  next
    case (Inr polled)
    let ?listening = "if backoff = 0 then [listen_fd] else []"
    obtain rfds wfds where sel: "c_select polled (?listening @ map cl_fd (filter wants_read (sv_clients s)))
      (map cl_fd (filter wants_write (sv_clients s))) = (rfds, wfds)" by (rule prod.exhaust)
    let ?b = "backoff - 1 = 0 \<and> listen_fd \<in> set rfds"
      and ?took = "accepted (te_stop te) KS_ACCEPT_BUDGET (te_accept te)"
    have t: "settles (te_accept te)" "\<forall>fd nb. Inr (fd, nb) \<in> set (te_accept te) \<longrightarrow> 0 \<le> fd"
      using te by (simp_all add: te_ok_def)
    from accept_stage_spec [OF r(2) t, of ?b "te_stop te" "te_accept_alloc te"] obtain q s1 cl where
      1: "(if ?b then accept_clients (te_stop te) (te_accept_alloc te) ?s (te_accept te) else Some (0, ?s, [])) = Some (q, s1, cl)"
        "accounted k ?s (if ?b then fst ?took else []) cl s1" "q \<noteq> 0 \<longleftrightarrow> ?b \<and> snd ?took" by blast
    then have ok1: "srv_ok k s1" by (simp add: accounted_def)
    from serve_all_spec [OF te ok1, of "[0..<length (sv_clients s1)]" cfg rfds wfds] obtain s2 cl' sent where
      2: "serve_all te cfg rfds wfds [0..<length (sv_clients s1)] s1 = Some (s2, cl', sent)" "served k s1 cl' s2" by auto
    from accounted_trans [OF 1(2) 2(2) [unfolded served_accounted]]
    have acc: "accounted k s (if ?b then fst ?took else []) (cl @ cl') s2" by (simp add: accounted_def)
    have tk: "tick te cfg listen_fd backoff s =
      Some \<lparr>tr_exit = None, tr_server = s2, tr_backoff = if q \<noteq> 0 then 10 else backoff - 1,
        tr_closed = cl @ cl', tr_sent = sent\<rparr>"
      using r(1) Inr sel 1(1) 2(1) by (simp add: tick_def Let_def)
    show thesis
    proof (rule that [OF tk])
      from polled_listener [OF sel] 1(3) Inr
      show "listen_fd \<notin> set (open_fds (sv_clients s)) \<longrightarrow> (if ?b then fst ?took else [], tr_backoff \<lparr>tr_exit = None, tr_server = s2,
          tr_backoff = if q \<noteq> 0 then 10 else backoff - 1, tr_closed = cl @ cl', tr_sent = sent\<rparr>) =
        round_connections listen_fd backoff te"
        by (auto simp: round_connections_def split: prod.splits)
    qed (use acc Inr accepted_subset in \<open>auto split: if_splits\<close>)
  qed
qed

section \<open>The loop\<close>

text \<open>The result of the loop is 1 if a round saw \<open>select\<close> fail with another error than \<open>EINTR\<close>.\<close>

definition select_failed :: "tick_env \<Rightarrow> bool" where
  "select_failed te = (case te_select te of Inl errno \<Rightarrow> errno \<noteq> EINTR | Inr fds \<Rightarrow> False)"

text \<open>The connections of all rounds, up to one in which \<open>select\<close> fails.\<close>

fun connections :: "int \<Rightarrow> nat \<Rightarrow> tick_env list \<Rightarrow> int list" where
  "connections listen_fd backoff [] = []"
| "connections listen_fd backoff (te # tes) =
     fst (round_connections listen_fd backoff te) @
     (if select_failed te then [] else connections listen_fd (snd (round_connections listen_fd backoff te)) tes)"

text \<open>\<open>accept\<close> answers with a new descriptor, never with that of the listener.\<close>

definition accepts_new :: "int \<Rightarrow> tick_env list \<Rightarrow> bool" where
  "accepts_new listen_fd tes \<longleftrightarrow> (\<forall>te \<in> set tes. \<forall>nb. Inr (listen_fd, nb) \<notin> set (te_accept te))"

lemma accounted_fds:
  assumes "accounted k s fds cl s'" "fd \<notin> set (open_fds (sv_clients s))" "fd \<notin> set fds"
  shows "fd \<notin> set (open_fds (sv_clients s'))"
proof -
  from assms(1) have "mset (open_fds (sv_clients s)) + mset fds = mset cl + mset (open_fds (sv_clients s'))"
    by (simp add: accounted_def)
  from arg_cong [OF this, of set_mset] assms(2,3) show ?thesis by auto
qed

lemma event_loop_spec:
  assumes "\<forall>te \<in> set tes. te_ok te" "srv_ok (length tes * KS_ACCEPT_BUDGET) s"
  shows "\<exists>s' closed sent fds. event_loop cfg listen_fd tes backoff s =
      Some (if list_ex select_failed tes then 1 else 0, s', closed, sent) \<and> accounted 0 s fds closed s' \<and>
    (accepts_new listen_fd tes \<longrightarrow> listen_fd \<notin> set (open_fds (sv_clients s)) \<longrightarrow> fds = connections listen_fd backoff tes)"
  using assms
proof (induction tes arbitrary: backoff s)
  case Nil
  then show ?case by (auto simp: accounted_def intro: exI [of _ "[]"])
next
  case (Cons te tes)
  have te: "te_ok te" and ok: "srv_ok (KS_ACCEPT_BUDGET + length tes * KS_ACCEPT_BUDGET) s" using Cons.prems by auto
  obtain t fds where t: "tick te cfg listen_fd backoff s = Some t"
    "accounted (length tes * KS_ACCEPT_BUDGET) s fds (tr_closed t) (tr_server t)"
    "tr_exit t = (case te_select te of Inl errno \<Rightarrow> if errno = EINTR then None else Some 1 | Inr fds \<Rightarrow> None)"
    "listen_fd \<notin> set (open_fds (sv_clients s)) \<longrightarrow> (fds, tr_backoff t) = round_connections listen_fd backoff te"
    "set fds \<subseteq> {fd. \<exists>nb. Inr (fd, nb) \<in> set (te_accept te)}"
    by (rule tick_spec [OF te ok, of cfg listen_fd backoff])
  show ?case
  proof (cases "select_failed te")
    case True
    with t(3) have "tr_exit t = Some 1" by (auto simp: select_failed_def split: sum.splits)
    then have "event_loop cfg listen_fd (te # tes) backoff s =
      Some (if list_ex select_failed (te # tes) then 1 else 0, tr_server t, tr_closed t, tr_sent t)"
      using True t(1) by simp
    moreover have "accounted 0 s fds (tr_closed t) (tr_server t)"
      using t(2) srv_ok_less [of "length tes * KS_ACCEPT_BUDGET" "tr_server t" 0] by (simp add: accounted_def)
    moreover have "fds = connections listen_fd backoff (te # tes)" if "listen_fd \<notin> set (open_fds (sv_clients s))"
      using t(4) [rule_format, OF that, symmetric] True by simp
    ultimately show ?thesis by blast
  next
    case False
    with t(3) have x: "tr_exit t = None" by (auto simp: select_failed_def split: sum.splits)
    from t(2) have "srv_ok (length tes * KS_ACCEPT_BUDGET) (tr_server t)" by (simp add: accounted_def)
    with Cons.IH [of "tr_server t" "tr_backoff t"] Cons.prems(1) obtain s' cl sent fds' where
      1: "event_loop cfg listen_fd tes (tr_backoff t) (tr_server t) =
          Some (if list_ex select_failed tes then 1 else 0, s', cl, sent)"
        "accounted 0 (tr_server t) fds' cl s'"
        "accepts_new listen_fd tes \<Longrightarrow> listen_fd \<notin> set (open_fds (sv_clients (tr_server t))) \<Longrightarrow>
          fds' = connections listen_fd (tr_backoff t) tes" by auto
    have "event_loop cfg listen_fd (te # tes) backoff s =
      Some (if list_ex select_failed (te # tes) then 1 else 0, s', tr_closed t @ cl, tr_sent t @ sent)"
      using t(1) x 1(1) False by simp
    moreover have "fds @ fds' = connections listen_fd backoff (te # tes)"
      if "accepts_new listen_fd (te # tes)" and l: "listen_fd \<notin> set (open_fds (sv_clients s))"
    proof -
      from that(1) have "accepts_new listen_fd tes" "listen_fd \<notin> set fds" using t(5) by (auto simp: accepts_new_def)
      with 1(3) accounted_fds [OF t(2) l] have "fds' = connections listen_fd (tr_backoff t) tes" by simp
      with t(4) [rule_format, OF l, symmetric] False show ?thesis by simp
    qed
    ultimately show ?thesis using accounted_trans [OF t(2) 1(2)] by blast
  qed
qed

section \<open>Shutdown\<close>

text \<open>Closes what is open and leaves nobody subscribed.\<close>

lemma shutdown_spec:
  assumes "ps_inv p"
  shows "\<exists>p' freed. shutdown_clients cs p = Some (p', freed, open_fds cs) \<and> ps_inv p' \<and>
    ps_members p' = {q \<in> ps_members p. snd q \<notin> set (used_ids cs)}"
  using assms
proof (induction cs arbitrary: p)
  case Nil
  then show ?case by (simp add: open_fds_def)
next
  case (Cons c cs)
  from remove_client_spec [OF Cons.prems, of "cl_id c"] obtain p1 ev m where
    p1: "ks_pubsub_remove_client (Some p) (cl_id c) = (m, Some p1, ev)" "ps_inv p1"
      "ps_members p1 = {q \<in> ps_members p. snd q \<noteq> cl_id c}" by blast
  from Cons.IH [OF p1(2)] Cons.IH [OF Cons.prems] p1 show ?case
    by (cases "cl_used c") (auto simp: client_reset_def open_fds_def)
qed

end
