(* ===== verification/Kessel_Server_Run.thy ===== *)
theory Kessel_Server_Run
  imports Kessel_Event_Loop_Correct
begin

text \<open>
  The life of the server. A locale states what a system needs so that it can run for a number
  of steps: each step uses a part of a budget, keeps the invariant and never blocks. The server
  is an instance, its budget the client identifiers that have not been given out. From it follow
  the properties of the reachable states, and those of a whole run of \<open>ks_server_run\<close>.
\<close>

section \<open>Systems with a budget\<close>

locale budgeted_system =
  fixes start :: "'s \<Rightarrow> bool"
    and step :: "'e \<Rightarrow> 's \<Rightarrow> 's option"
    and allowed :: "'e \<Rightarrow> bool"
    and inv :: "nat \<Rightarrow> 's \<Rightarrow> bool"
    and cost :: nat
    and budget :: nat
  assumes start_inv: "start s \<Longrightarrow> inv budget s"
    and step_inv: "inv (cost + k) s \<Longrightarrow> allowed e \<Longrightarrow> \<exists>s'. step e s = Some s' \<and> inv k s'"
    and inv_less: "inv k s \<Longrightarrow> j \<le> k \<Longrightarrow> inv j s"
begin

inductive reach :: "nat \<Rightarrow> 's \<Rightarrow> bool" where
  initial: "start s \<Longrightarrow> reach 0 s"
| next_step: "reach n s \<Longrightarrow> allowed e \<Longrightarrow> step e s = Some s' \<Longrightarrow> reach (Suc n) s'"

lemma reach_inv:
  assumes "reach n s" "n * cost + k \<le> budget"
  shows "inv k s"
  using assms
proof (induction arbitrary: k rule: reach.induct)
  case (initial s)
  then show ?case using inv_less [OF start_inv] by simp
next
  case (next_step n s e s')
  then have "inv (cost + k) s" by (simp add: add.assoc add.left_commute)
  from step_inv [OF this next_step(2)] next_step(3) show ?case by auto
qed

lemma reach_progress:
  assumes "reach n s" "Suc n * cost \<le> budget" "allowed e"
  shows "\<exists>s'. step e s = Some s' \<and> reach (Suc n) s'"
proof -
  from assms(2) have "inv (cost + 0) s" by (intro reach_inv [OF assms(1)]) (simp add: add.commute)
  from step_inv [OF this assms(3)] next_step [OF assms(1,3)] show ?thesis by blast
qed

end

section \<open>The server is one\<close>

text \<open>A fresh server: empty store, empty registry, no clients.\<close>

definition fresh_server :: "ks_config \<Rightarrow> nat \<times> ks_server \<Rightarrow> bool" where
  "fresh_server cfg bs \<longleftrightarrow> (\<exists>al os started store pubsub.
     bs = (0, initial_server cfg store pubsub started) \<and> time_ok started \<and>
     monotonic (ks_ttl_system_clock os) \<and>
     ks_kv_init al os = Some store \<and> ks_pubsub_create al = Some pubsub)"

text \<open>One round: what it makes of the ticks without polling and of the server.\<close>

definition server_round :: "ks_config \<Rightarrow> int \<Rightarrow> tick_env \<Rightarrow> nat \<times> ks_server \<Rightarrow> (nat \<times> ks_server) option" where
  "server_round cfg listen_fd te bs = map_option (\<lambda>t. (tr_backoff t, tr_server t)) (tick te cfg listen_fd (fst bs) (snd bs))"

definition config_ok :: "ks_config \<Rightarrow> bool" where
  "config_ok cfg \<longleftrightarrow> cfg_max_clients cfg \<noteq> 0 \<and> unat (cfg_max_clients cfg) < FD_SETSIZE"

lemma kv_live_empty: "kv_map s = Map.empty \<Longrightarrow> kv_live t s = Map.empty"
  by (simp add: kv_live_def fun_eq_iff)

lemma initial_server_ok:
  assumes "ks_kv_init al os = Some store" "ks_pubsub_create al' = Some pubsub"
    "monotonic (ks_ttl_system_clock os)" "time_ok started" "unat (cfg_max_clients cfg) < FD_SETSIZE"
    "k \<le> 2 ^ 64 - 2"
  shows "srv_ok k (initial_server cfg store pubsub started)"
proof -
  note kv = kv_init [OF assms(1) [unfolded ks_kv_init_def]]
  have none: "used_ids (replicate n zero_client) = []" for n
    by (simp add: used_ids_def zero_client_def)
  from assms(2) have p: "pubsub = \<lparr>ps_channels = [], ps_channel_count = 0, ps_subscription_count = 0\<rparr>"
    by (simp add: ks_pubsub_create_def split: if_splits)
  then have "ps_inv pubsub" "ps_members pubsub = {}"
    by (simp_all add: ps_inv_def ps_members_def members_def chs_inv_def)
  moreover have "client_ok zero_client" by (simp add: client_ok_def zero_client_def)
  moreover have "store_inv store" "small_values store"
    using kv assms(3) by (simp_all add: store_inv_def small_values_def kv_live_empty)
  ultimately show ?thesis
    using assms(4-6) none by (simp add: srv_ok_def server_inv_def ids_fresh_def initial_server_def)
qed

interpretation srv: budgeted_system "\<lambda>bs. config_ok cfg \<and> fresh_server cfg bs" "server_round cfg listen_fd" te_ok
  "\<lambda>k bs. srv_ok k (snd bs)" KS_ACCEPT_BUDGET "2 ^ 64 - 2" for cfg listen_fd
proof unfold_locales
  fix bs :: "nat \<times> ks_server" assume "config_ok cfg \<and> fresh_server cfg bs"
  then show "srv_ok (2 ^ 64 - 2) (snd bs)"
    unfolding fresh_server_def config_ok_def
    by (elim exE conjE, hypsubst, unfold snd_conv) (rule initial_server_ok; simp)
next
  fix k and bs :: "nat \<times> ks_server" and te assume "srv_ok (KS_ACCEPT_BUDGET + k) (snd bs)" "te_ok te"
  from tick_spec [OF this(2,1), of cfg listen_fd "fst bs"] obtain t fds where
    "tick te cfg listen_fd (fst bs) (snd bs) = Some t" "accounted k (snd bs) fds (tr_closed t) (tr_server t)"
    by metis
  then show "\<exists>s'. server_round cfg listen_fd te bs = Some s' \<and> srv_ok k (snd s')"
    by (simp add: server_round_def accounted_def)
next
  fix k j and bs :: "nat \<times> ks_server" assume "srv_ok k (snd bs)" "j \<le> k"
  then show "srv_ok j (snd bs)" by (rule srv_ok_less)
qed

text \<open>The states after \<open>n\<close> rounds, written out.\<close>

inductive reachable :: "ks_config \<Rightarrow> int \<Rightarrow> nat \<Rightarrow> nat \<times> ks_server \<Rightarrow> bool" for cfg listen_fd where
  start: "config_ok cfg \<Longrightarrow> fresh_server cfg bs \<Longrightarrow> reachable cfg listen_fd 0 bs"
| round: "reachable cfg listen_fd n (backoff, s) \<Longrightarrow> te_ok te \<Longrightarrow>
    tick te cfg listen_fd backoff s = Some t \<Longrightarrow> tr_exit t = None \<Longrightarrow>
    reachable cfg listen_fd (Suc n) (tr_backoff t, tr_server t)"

lemma reachable_reach: "reachable cfg listen_fd n bs \<Longrightarrow> srv.reach cfg listen_fd n bs"
proof (induction rule: reachable.induct)
  case (round n backoff s te t)
  then have "server_round cfg listen_fd te (backoff, s) = Some (tr_backoff t, tr_server t)"
    by (simp add: server_round_def)
  from srv.next_step [OF round.IH round.hyps(2) this] show ?case .
qed (rule srv.initial, simp)

lemma reachable_clients:
  assumes "reachable cfg listen_fd n (backoff, s)" "n * KS_ACCEPT_BUDGET \<le> 2 ^ 64 - 2"
  shows "length (sv_clients s) = unat (cfg_max_clients cfg)"
  using assms
proof (induction n "(backoff, s)" arbitrary: backoff s rule: reachable.induct)
  case start
  then show ?case by (auto simp: fresh_server_def initial_server_def)
next
  case (round n backoff s te t)
  have "srv_ok (KS_ACCEPT_BUDGET + 0) s"
    using srv.reach_inv [OF reachable_reach [OF round.hyps(1)], of "KS_ACCEPT_BUDGET + 0"] round.prems
    by (simp add: add.commute)
  from tick_spec [OF round.hyps(3) this, of cfg listen_fd backoff] round.hyps(4)
  have "length (sv_clients (tr_server t)) = length (sv_clients s)" by (auto simp: accounted_def)
  with round show ?case by simp
qed

section \<open>A whole run\<close>

lemma listen_cases:
  assumes "ks_listen os host = (fd, closed)"
  shows "fd = lo_socket os \<and> 0 \<le> fd \<and> closed = [] \<or> fd < 0 \<and> closed = (if lo_socket os < 0 then [] else [lo_socket os])"
  using assms by (auto simp: ks_listen_def Let_def split: if_splits)

text \<open>The descriptor of the listener, if the run came so far as to open it.\<close>

definition listener :: "run_env \<Rightarrow> ks_config \<Rightarrow> int list" where
  "listener re cfg = (if config_ok cfg \<and> 0 \<le> lo_socket (re_listen re) then [lo_socket (re_listen re)] else [])"

text \<open>Whether the run gets to the event loop, by what the start of the server is answered.\<close>

definition enters_loop :: "run_env \<Rightarrow> ks_config \<Rightarrow> bool" where
  "enters_loop re cfg \<longleftrightarrow> config_ok cfg \<and>
     (let listen_fd = fst (ks_listen (re_listen re) (Some (cfg_host cfg))) in 0 \<le> listen_fd \<and> listen_fd < int FD_SETSIZE) \<and>
     ks_kv_init (re_alloc re) (re_clock re) \<noteq> None \<and> ks_pubsub_create (re_alloc re) \<noteq> None \<and>
     c_calloc (re_alloc re) Site_clients (cfg_max_clients cfg) sizeof_ks_client"

lemma run_loop:
  assumes te: "\<forall>te \<in> set (re_ticks re). te_ok te" and n: "length (re_ticks re) * KS_ACCEPT_BUDGET \<le> 2 ^ 64 - 2"
    and s: "srv_ok (2 ^ 64 - 2) (initial_server cfg store pubsub st)"
  shows "\<exists>s closed sent p freed.
    event_loop cfg listen_fd (re_ticks re) 0 (initial_server cfg store pubsub st) =
      Some (if list_ex select_failed (re_ticks re) then 1 else 0, s, closed, sent) \<and>
    shutdown_clients (sv_clients s) (sv_pubsub s) = Some (p, freed, open_fds (sv_clients s)) \<and>
    ps_members p = {} \<and> (accepts_new listen_fd (re_ticks re) \<longrightarrow>
      mset (closed @ open_fds (sv_clients s)) = mset (connections listen_fd 0 (re_ticks re)))"
proof -
  from event_loop_spec [OF te srv_ok_less [OF s n], of cfg listen_fd 0] obtain s' closed sent fds where
    1: "event_loop cfg listen_fd (re_ticks re) 0 (initial_server cfg store pubsub st) =
      Some (if list_ex select_failed (re_ticks re) then 1 else 0, s', closed, sent)"
      "accounted 0 (initial_server cfg store pubsub st) fds closed s'"
      "accepts_new listen_fd (re_ticks re) \<longrightarrow>
        listen_fd \<notin> set (open_fds (sv_clients (initial_server cfg store pubsub st))) \<longrightarrow>
        fds = connections listen_fd 0 (re_ticks re)" by blast
  have none: "open_fds (sv_clients (initial_server cfg store pubsub st)) = []"
    by (simp add: open_fds_def initial_server_def zero_client_def)
  from 1(2) have inv: "server_inv s'" by (simp add: accounted_def srv_ok_def)
  note d = server_invD [OF inv]
  have "{q \<in> ps_members (sv_pubsub s'). snd q \<notin> set (used_ids (sv_clients s'))} = {}" using d(7) by blast
  with shutdown_spec [OF d(6), of "sv_clients s'"] obtain p freed where
    2: "shutdown_clients (sv_clients s') (sv_pubsub s') = Some (p, freed, open_fds (sv_clients s'))" "ps_members p = {}"
    by auto
  from 1(2) none have "mset (closed @ open_fds (sv_clients s')) = mset fds" by (simp add: accounted_def)
  with 1(1,3) none 2 show ?thesis by auto
qed

lemma server_run_spec:
  assumes te: "\<forall>te \<in> set (re_ticks re). te_ok te" and n: "length (re_ticks re) * KS_ACCEPT_BUDGET \<le> 2 ^ 64 - 2"
    and clk: "monotonic (ks_ttl_system_clock (re_clock re))" and st: "time_ok (re_started_at re)"
    and new: "accepts_new (lo_socket (re_listen re)) (re_ticks re)"
  shows "\<exists>rr. ks_server_run re (Some cfg) = Some rr \<and> mset (rr_closed rr) =
    mset (listener re cfg @ (if enters_loop re cfg then connections (lo_socket (re_listen re)) 0 (re_ticks re) else []))"
proof (cases "config_ok cfg")
  case False
  then have "ks_server_run re (Some cfg) = Some (refused [])"
    by (auto simp: ks_server_run_def config_ok_def not_less)
  with False show ?thesis by (auto simp: listener_def refused_def enters_loop_def)
next
  case cfg: True
  obtain fd cl where l: "ks_listen (re_listen re) (Some (cfg_host cfg)) = (fd, cl)" by (rule prod.exhaust)
  have mc: "\<not> (cfg_max_clients cfg = 0 \<or> unat (cfg_max_clients cfg) \<ge> FD_SETSIZE)"
    using cfg by (auto simp: config_ok_def)
  note run = ks_server_run_def l mc Let_def refused_def
  from listen_cases [OF l] show ?thesis
  proof (elim disjE conjE)
    assume "fd < 0" "cl = (if lo_socket (re_listen re) < 0 then [] else [lo_socket (re_listen re)])"
    then show ?thesis using cfg l by (simp add: run listener_def enters_loop_def)
  next
    assume fd: "fd = lo_socket (re_listen re)" "0 \<le> fd" "cl = []"
    then have ln: "listener re cfg = [fd]" "\<not> fd < 0" using cfg by (simp_all add: listener_def)
    show ?thesis
    proof (cases "fd \<ge> int FD_SETSIZE \<or> ks_kv_init (re_alloc re) (re_clock re) = None \<or> ks_pubsub_create (re_alloc re) = None \<or>
        \<not> c_calloc (re_alloc re) Site_clients (cfg_max_clients cfg) sizeof_ks_client")
      case True
      then have "\<not> enters_loop re cfg" using fd l by (auto simp: enters_loop_def)
      with True show ?thesis using fd ln by (auto simp: run split: option.splits)
    next
      case False
      then obtain store pubsub where o: "ks_kv_init (re_alloc re) (re_clock re) = Some store"
        "ks_pubsub_create (re_alloc re) = Some pubsub" by auto
      have "srv_ok (2 ^ 64 - 2) (initial_server cfg store pubsub (re_started_at re))"
        by (rule initial_server_ok [OF o clk st]) (use mc in auto)
      from run_loop [OF te n this, of fd] new obtain s closed sent p freed where
        "event_loop cfg fd (re_ticks re) 0 (initial_server cfg store pubsub (re_started_at re)) =
          Some (if list_ex select_failed (re_ticks re) then 1 else 0, s, closed, sent)"
        "shutdown_clients (sv_clients s) (sv_pubsub s) = Some (p, freed, open_fds (sv_clients s))"
        "mset (closed @ open_fds (sv_clients s)) = mset (connections fd 0 (re_ticks re))" using fd(1) by blast
      moreover have "enters_loop re cfg" using False fd l cfg by (simp add: enters_loop_def)
      ultimately show ?thesis using fd ln False o by (auto simp: run)
    qed
  qed
qed

end
