(* ===== verification/Kessel_Server_Pipeline.thy ===== *)
theory Kessel_Server_Pipeline
  imports Kessel_Server_Requests
begin

text \<open>
  The server as a store: a buffer full of requests on keys is carried out as the history of
  operations on the store that the requests stand for, in order, and the answers follow in the
  output in the same order. Nothing else of the server changes.
\<close>

section \<open>The specification\<close>

text \<open>
  The operations that the lines stand for. The allocator a line is given depends on its number.
\<close>

fun operations :: "command_env \<Rightarrow> u64 \<Rightarrow> bytes list \<Rightarrow> kv_op list option" where
  "operations env n [] = Some []"
| "operations env n (l # ls) = do {
     (cmd, args) \<leftarrow> parse_spec (l @ [LF]);
     op \<leftarrow> kv_command (ce_alloc env n) cmd args;
     ops \<leftarrow> operations env (n + 1) ls;
     Some (op # ops) }"

definition answers :: "kv_answer list \<Rightarrow> bytes" where
  "answers as = concat (map answer_text as)"

definition line_ok :: "bytes \<Rightarrow> bool" where
  "line_ok l \<longleftrightarrow> LF \<notin> set l \<and> NUL \<notin> set l \<and> length l \<le> KS_MAX_REQUEST"

lemma answers_simps [simp]: "answers [] = []" "answers (a # as) = answer_text a @ answers as"
  by (simp_all add: answers_def)

text \<open>The state after requests on keys: \<open>n\<close> bytes of input used, \<open>k\<close> commands counted.\<close>

definition data_done ::
    "ks_server \<Rightarrow> nat \<Rightarrow> ks_client \<Rightarrow> nat \<Rightarrow> bytes \<Rightarrow> ks_kv \<Rightarrow> nat \<Rightarrow> ks_server \<Rightarrow> bool" where
  "data_done s ci c n tx st k s' \<longleftrightarrow> (\<exists>c' inp out off len.
     s' = (put_client s ci c')\<lparr>sv_store := st,
       sv_metrics := (sv_metrics s)\<lparr>mt_total_commands := mt_total_commands (sv_metrics s) + of_nat k\<rparr>\<rparr> \<and>
     c' = c\<lparr>cl_input := inp, cl_output := out, cl_output_offset := off, cl_output_len := len\<rparr> \<and>
     outbox c' = outbox c @ tx \<and> drop n (inbox c') = drop n (inbox c))"

section \<open>One line\<close>

lemma memchr_at:
  assumes "p + n \<le> length buf" "take n (drop p buf) = l @ x # rest" "x \<notin> set l"
  shows "c_memchr buf p x n = Some (Some (p + length l))"
proof -
  have "takeWhile (\<lambda>y. y \<noteq> x) (take n (drop p buf)) = l"
    unfolding assms(2) using assms(3) by (subst takeWhile_append2) auto
  moreover have "length l < n" using arg_cong [OF assms(2), of length] assms(1) by simp
  ultimately show ?thesis using assms(1) by (simp add: c_memchr_def)
qed

lemma memchr_absent:
  assumes "p + n \<le> length buf" "x \<notin> set (take n (drop p buf))"
  shows "c_memchr buf p x n = Some None"
proof -
  have "takeWhile (\<lambda>y. y \<noteq> x) (take n (drop p buf)) = take n (drop p buf)"
    using assms(2) by (auto simp: takeWhile_eq_all_conv)
  from arg_cong [OF this, of length] show ?thesis using assms(1) unfolding c_memchr_def Let_def by simp
qed

lemma data_exec:
  assumes s: "server_inv s" and r: "ready s ci" and c: "get_client s ci = Some c"
    and i: "consumed < stop" "stop \<le> cl_input_len c"
    and line: "NUL \<notin> set (take (stop - consumed) (drop consumed (cl_input c)))"
    and p: "parse_spec (take (stop - consumed) (drop consumed (cl_input c))) = Some (cmd, args)"
      "kv_command (ce_alloc env (mt_total_commands (sv_metrics s))) cmd args = Some op"
      "kv_step op (sv_store s) = Some (a, st)"
  shows "\<exists>s'. run_line env cfg s ci c consumed stop = Some (Continue stop, s') \<and>
    data_done s ci c stop (answer_text a) st 1 s'"
proof -
  have ok: "client_ok c" "cl_used c" using r c by (auto simp: ready_def)
  note d = client_okD [OF ok]
  have stop: "stop < length (cl_input c)" using d i by simp
  let ?n = "mt_total_commands (sv_metrics s)" and ?line = "take (stop - consumed) (drop consumed (cl_input c))"
  obtain input where b: "length input = length (cl_input c)" "drop (Suc stop) input = drop (Suc stop) (cl_input c)"
    and run: "run_line env cfg s ci c consumed stop = do {
       (r, s') \<leftarrow> exec_line env cfg ?n (parsed s ci input) ci ?line;
       s' \<leftarrow> restore c stop ci s';
       Some (if r \<noteq> 0 then Return (- 1) else Continue stop, s') }"
    by (rule run_line_exec [OF c ok i line])
  let ?c = "c\<lparr>cl_input := input\<rparr>" and ?s = "parsed s ci input"
  note s1 = parsed_inv(1) [OF s c b(1) ok(2)] and g1 = parsed_simps [OF c, of input]
  note inv1 = server_invD [OF s1]
  from dispatch_kv [OF parsed_ready [OF r c b(1)] inv1(10,5) p(2), unfolded g1, OF p(3)] p(1) g1(4)
  obtain c2 where c2: "queued ?c (answer_text a) c2"
    "exec_line env cfg ?n ?s ci ?line = Some (0, put_client (?s\<lparr>sv_store := st, sv_pubsub := sv_pubsub s\<rparr>) ci c2)"
    unfolding exec_line_def answered_def by fastforce
  note q = queuedD [OF c2(1)]
  from c2(1) obtain out off len where f: "c2 = ?c\<lparr>cl_output := out, cl_output_offset := off, cl_output_len := len\<rparr>"
    by (auto simp: queued_def)
  let ?s2 = "put_client (?s\<lparr>sv_store := st, sv_pubsub := sv_pubsub s\<rparr>) ci c2"
  have g2: "get_client ?s2 ci = Some c2" using g1(4) by simp
  have inp: "cl_input c2 = input" "cl_input_len c2 = cl_input_len c" by (simp_all add: f)
  have out: "outbox (c2\<lparr>cl_input := x\<rparr>) = outbox c @ answer_text a" for x
    using q(2) by (simp add: outbox_def pending_def)
  have "\<exists>inp. restore c stop ci ?s2 = Some (put_client ?s2 ci (c2\<lparr>cl_input := inp\<rparr>)) \<and>
      drop stop (inbox (c2\<lparr>cl_input := inp\<rparr>)) = drop stop (inbox c)"
  proof (cases "stop < cl_input_len c")
    case False
    have same: "c2\<lparr>cl_input := input\<rparr> = c2" using inp(1) by (intro ks_client.equality) simp_all
    have "restore c stop ci ?s2 = Some (put_client ?s2 ci (c2\<lparr>cl_input := input\<rparr>))"
      unfolding same using False by (simp add: restore_def)
    moreover have "drop stop (inbox (c2\<lparr>cl_input := input\<rparr>)) = drop stop (inbox c)"
      using False inp i(2) by (simp add: inbox_def)
    ultimately show ?thesis by blast
  next
    case True
    let ?b = "input[stop := cl_input c ! stop]"
    have "drop stop ?b = ?b ! stop # drop (Suc stop) ?b"
      by (rule Cons_nth_drop_Suc [symmetric]) (use stop b in simp)
    also have "\<dots> = drop stop (cl_input c)" using stop b by (simp add: Cons_nth_drop_Suc)
    finally have "drop stop (inbox (c2\<lparr>cl_input := ?b\<rparr>)) = drop stop (inbox c)"
      by (simp add: inbox_def f drop_take)
    with True g2 inp b(1) stop show ?thesis by (intro exI [of _ ?b]) (simp add: restore_def wr_def)
  qed
  then obtain inp where t: "restore c stop ci ?s2 = Some (put_client ?s2 ci (c2\<lparr>cl_input := inp\<rparr>))"
    "drop stop (inbox (c2\<lparr>cl_input := inp\<rparr>)) = drop stop (inbox c)" by blast
  have "data_done s ci c stop (answer_text a) st 1 (put_client ?s2 ci (c2\<lparr>cl_input := inp\<rparr>))"
    unfolding data_done_def
    by (intro exI [of _ "c2\<lparr>cl_input := inp\<rparr>"] exI [of _ inp] exI [of _ out] exI [of _ off] exI [of _ len] conjI)
      (use c out t(2) in \<open>simp_all add: parsed_def put_client_def f\<close>)
  with run c2(2) t(1) show ?thesis by simp
qed

lemma data_step:
  assumes s: "server_inv s" and c: "get_client s ci = Some c" "cl_used c" "pending c < KS_OUTPUT_HIGH_WATER"
    and env: "env_ok env" and l: "line_ok l" "drop consumed (inbox c) = l @ LF # rest"
    and p: "parse_spec (l @ [LF]) = Some (cmd, args)"
      "kv_command (ce_alloc env (mt_total_commands (sv_metrics s))) cmd args = Some op"
      "kv_step op (sv_store s) = Some (a, st)"
  shows "\<exists>s'. process_loop env cfg ci consumed s = process_loop env cfg ci (consumed + length l + 1) s' \<and>
    data_done s ci c (consumed + length l + 1) (answer_text a) st 1 s' \<and> server_inv s'"
proof -
  note ok = get_client_ok [OF s c(1)]
  note d = client_okD [OF ok c(2)] and len = inbox_length [OF ok c(2)]
  have r: "ready s ci" using c ok by (simp add: ready_def)
  let ?nl = "consumed + length l" and ?k = "cl_input_len c - consumed"
  have bytes: "take ?k (drop consumed (cl_input c)) = l @ LF # rest" using l(2) by (simp add: inbox_def drop_take)
  have lk: "length l < ?k" using arg_cong [OF l(2), of length] len by simp
  then have stop: "consumed < ?nl + 1" "?nl + 1 \<le> cl_input_len c" "consumed < cl_input_len c" by simp_all
  have "take (length l + 1) (take ?k (drop consumed (cl_input c))) = l @ [LF]" unfolding bytes by simp
  then have line: "take (?nl + 1 - consumed) (drop consumed (cl_input c)) = l @ [LF]" using lk by simp
  have lf: "c_memchr (cl_input c) consumed LF ?k = Some (Some ?nl)"
    by (rule memchr_at [OF _ bytes]) (use stop d l(1) in \<open>simp_all add: line_ok_def\<close>)
  have nul: "NUL \<notin> set (take (?nl + 1 - consumed) (drop consumed (cl_input c)))"
    unfolding line using l(1) by (simp add: line_ok_def)
  have zero: "c_memchr (cl_input c) consumed NUL (?nl + 1 - consumed) = Some None"
    by (rule memchr_absent [OF _ nul]) (use stop d in simp)
  have size: "\<not> line_content (cl_input c) consumed ?nl > KS_MAX_REQUEST"
    using l(1) by (auto simp: line_content_def line_ok_def)
  have "process_step env cfg ci consumed s = run_line env cfg s ci c consumed (?nl + 1)"
    using process_step_found [OF c(1) _ lf, of env cfg] c(3) stop d zero size by simp
  moreover from data_exec [OF s r c(1) stop(1,2) nul, unfolded line, OF p, of cfg] obtain s' where
    run: "run_line env cfg s ci c consumed (?nl + 1) = Some (Continue (?nl + 1), s')"
      "data_done s ci c (?nl + 1) (answer_text a) st 1 s'" by blast
  moreover have "server_inv s'"
    using run_line_spec [OF s r c(1) stop(1,2) env nul, of cfg] run(1) by (auto simp: line_done_def)
  ultimately show ?thesis
    using c(1) stop(3) by (intro exI [of _ s']) (subst process_loop.simps, simp)
qed

section \<open>All the lines\<close>

lemma data_done_trans:
  assumes "data_done s ci c n tx st k s'" "get_client s ci = Some c" "n \<le> m"
    and "\<And>c'. get_client s' ci = Some c' \<Longrightarrow> data_done s' ci c' m tx' st' k' s''"
  shows "data_done s ci c m (tx @ tx') st' (k + k') s''"
proof -
  from assms(1) obtain c' inp out off len where
    1: "s' = (put_client s ci c')\<lparr>sv_store := st,
         sv_metrics := (sv_metrics s)\<lparr>mt_total_commands := mt_total_commands (sv_metrics s) + of_nat k\<rparr>\<rparr>"
      "c' = c\<lparr>cl_input := inp, cl_output := out, cl_output_offset := off, cl_output_len := len\<rparr>"
      "outbox c' = outbox c @ tx" "drop n (inbox c') = drop n (inbox c)" by (auto simp: data_done_def)
  have "get_client s' ci = Some c'" using assms(2) by (simp add: 1(1))
  from assms(4) [OF this] obtain c2 inp2 out2 off2 len2 where
    2: "s'' = (put_client s' ci c2)\<lparr>sv_store := st',
         sv_metrics := (sv_metrics s')\<lparr>mt_total_commands := mt_total_commands (sv_metrics s') + of_nat k'\<rparr>\<rparr>"
      "c2 = c'\<lparr>cl_input := inp2, cl_output := out2, cl_output_offset := off2, cl_output_len := len2\<rparr>"
      "outbox c2 = outbox c' @ tx'" "drop m (inbox c2) = drop m (inbox c')" by (auto simp: data_done_def)
  have "drop (m - n) (drop n (inbox c')) = drop (m - n) (drop n (inbox c))" using 1(4) by simp
  then have "drop m (inbox c2) = drop m (inbox c)" using assms(3) 2(4) by simp
  then show ?thesis
    unfolding data_done_def using 1 2
    by (intro exI [of _ c2] exI [of _ inp2] exI [of _ out2] exI [of _ off2] exI [of _ len2] conjI)
      (simp_all add: put_client_def add.assoc)
qed

lemma data_loop:
  assumes "server_inv s" "get_client s ci = Some c" "cl_used c" "env_ok env" "\<forall>l \<in> set ls. line_ok l"
    "drop consumed (inbox c) = wire ls" "consumed \<le> cl_input_len c"
    "operations env (mt_total_commands (sv_metrics s)) ls = Some ops" "kv_run ops (sv_store s) = Some (as, st)"
    "length (outbox c @ answers as) < KS_OUTPUT_HIGH_WATER"
  shows "\<exists>s'. process_loop env cfg ci consumed s = Some (0, cl_input_len c, s') \<and>
    data_done s ci c (cl_input_len c) (answers as) st (length ls) s' \<and> server_inv s'"
  using assms
proof (induction ls arbitrary: s c consumed ops as)
  case Nil
  note len = inbox_length [OF get_client_ok [OF Nil.prems(1,2)] Nil.prems(3)]
  from Nil.prems(6,7) have con: "consumed = cl_input_len c" using len by simp
  have "c = c\<lparr>cl_input := cl_input c, cl_output := cl_output c, cl_output_offset := cl_output_offset c,
      cl_output_len := cl_output_len c\<rparr>" by simp
  moreover have "s = (put_client s ci c)\<lparr>sv_store := sv_store s, sv_metrics := sv_metrics s\<rparr>"
    using Nil.prems(2) by (auto simp: put_client_def get_client_def split: if_splits)
  ultimately have "data_done s ci c (cl_input_len c) [] (sv_store s) 0 s"
    unfolding data_done_def
    by (intro exI [of _ c] exI [of _ "cl_input c"] exI [of _ "cl_output c"] exI [of _ "cl_output_offset c"]
        exI [of _ "cl_output_len c"] conjI) simp_all
  with Nil.prems con show ?case by (subst process_loop.simps) simp
next
  case (Cons l ls)
  let ?n = "mt_total_commands (sv_metrics s)" and ?m = "consumed + length l + 1"
  from Cons.prems(8) obtain cmd args op ops' where o: "parse_spec (l @ [LF]) = Some (cmd, args)"
    "kv_command (ce_alloc env ?n) cmd args = Some op" "operations env (?n + 1) ls = Some ops'" "ops = op # ops'"
    by (auto split: bind_splits)
  from Cons.prems(9) o(4) obtain a st1 as' where a: "kv_step op (sv_store s) = Some (a, st1)"
    "kv_run ops' st1 = Some (as', st)" "as = a # as'" by (auto split: bind_splits)
  note ok = get_client_ok [OF Cons.prems(1,2)]
  note d = client_okD [OF ok Cons.prems(3)] and len = inbox_length [OF ok Cons.prems(3)]
  have low: "pending c < KS_OUTPUT_HIGH_WATER" using Cons.prems(10) d(7) by simp
  have inb: "drop consumed (inbox c) = l @ LF # wire ls" using Cons.prems(6) by simp
  from data_step [OF Cons.prems(1-3) low Cons.prems(4) _ inb o(1,2) a(1), of cfg] Cons.prems(5) obtain s1 where
    1: "process_loop env cfg ci consumed s = process_loop env cfg ci ?m s1"
      "data_done s ci c ?m (answer_text a) st1 1 s1" "server_inv s1" by auto
  from 1(2) obtain c1 inp out off len1 where
    f: "s1 = (put_client s ci c1)\<lparr>sv_store := st1,
         sv_metrics := (sv_metrics s)\<lparr>mt_total_commands := ?n + of_nat 1\<rparr>\<rparr>"
      "c1 = c\<lparr>cl_input := inp, cl_output := out, cl_output_offset := off, cl_output_len := len1\<rparr>"
      "outbox c1 = outbox c @ answer_text a" "drop ?m (inbox c1) = drop ?m (inbox c)"
    unfolding data_done_def by blast
  have g: "get_client s1 ci = Some c1" using Cons.prems(2) by (simp add: f(1))
  have "drop (length l + 1) (drop consumed (inbox c)) = wire ls" unfolding inb by simp
  then have rest: "drop ?m (inbox c1) = wire ls" using f(4) by (simp add: add.commute add.left_commute)
  have m: "?m \<le> cl_input_len c1" using arg_cong [OF inb, of length] len by (simp add: f(2))
  have "\<exists>s'. process_loop env cfg ci ?m s1 = Some (0, cl_input_len c1, s') \<and>
      data_done s1 ci c1 (cl_input_len c1) (answers as') st (length ls) s' \<and> server_inv s'"
    by (rule Cons.IH [OF 1(3) g _ Cons.prems(4) _ rest m])
      (use Cons.prems(3,5,10) o(3) a(2,3) f in simp_all)
  then obtain s2 where 2: "process_loop env cfg ci ?m s1 = Some (0, cl_input_len c, s2)"
    "data_done s1 ci c1 (cl_input_len c) (answers as') st (length ls) s2" "server_inv s2" by (auto simp: f(2))
  have "data_done s ci c (cl_input_len c) (answer_text a @ answers as') st (1 + length ls) s2"
    by (rule data_done_trans [OF 1(2) Cons.prems(2)]) (use m g 2(2) f(2) in simp_all)
  with 1(1) 2 a(3) show ?case by auto
qed

lemma data_requests:
  assumes s: "server_inv s" and c: "get_client s ci = Some c" "cl_used c" and env: "env_ok env"
    and ls: "\<forall>l \<in> set ls. line_ok l" "inbox c = wire ls"
    and ops: "operations env (mt_total_commands (sv_metrics s)) ls = Some ops" "kv_run ops (sv_store s) = Some (as, st)"
    and fits: "length (outbox c @ answers as) < KS_OUTPUT_HIGH_WATER"
  shows "\<exists>s' c'. process_requests env cfg s ci = Some (0, s') \<and> server_inv s' \<and>
    inbox c' = [] \<and> outbox c' = outbox c @ answers as \<and>
    cl_close_after_write c' = cl_close_after_write c \<and> cl_drop_connection c' = cl_drop_connection c \<and>
    s' = (put_client s ci c')\<lparr>sv_store := st,
      sv_metrics := (sv_metrics s)\<lparr>mt_total_commands := mt_total_commands (sv_metrics s) + of_nat (length ls)\<rparr>\<rparr>"
proof -
  have "drop 0 (inbox c) = wire ls" using ls(2) by simp
  from data_loop [OF s c env ls(1) this _ ops fits, of cfg] obtain s1 where
    1: "process_loop env cfg ci 0 s = Some (0, cl_input_len c, s1)"
      "data_done s ci c (cl_input_len c) (answers as) st (length ls) s1" "server_inv s1" by auto
  from 1(2) obtain c1 inp out off len where
    f: "s1 = (put_client s ci c1)\<lparr>sv_store := st, sv_metrics := (sv_metrics s)\<lparr>mt_total_commands :=
          mt_total_commands (sv_metrics s) + of_nat (length ls)\<rparr>\<rparr>"
      "c1 = c\<lparr>cl_input := inp, cl_output := out, cl_output_offset := off, cl_output_len := len\<rparr>"
      "outbox c1 = outbox c @ answers as" unfolding data_done_def by blast
  have g: "get_client s1 ci = Some c1" using c(1) by (simp add: f(1))
  from process_requests_spec [OF s c env, of cfg] obtain s2 where
    2: "process_requests env cfg s ci = Some (0, s2)" "server_inv s2" by (auto simp: requests_done_def)
  show ?thesis
  proof (cases "cl_input_len c = 0")
    case True
    then have "process_requests env cfg s ci = Some (0, s1)" using 1(1) by (simp add: process_requests_def)
    with 1(3) f True show ?thesis by (intro exI [of _ s1] exI [of _ c1]) (simp add: inbox_def)
  next
    case False
    have len: "cl_input_len c1 = cl_input_len c" by (simp add: f(2))
    let ?c = "c1\<lparr>cl_input_len := 0\<rparr>"
    have "process_requests env cfg s ci = Some (0, put_client s1 ci ?c)"
      using 1(1) g False len by (simp add: process_requests_def memcpy_def Let_def)
    moreover from this 2 have "server_inv (put_client s1 ci ?c)" by simp
    moreover have "put_client s1 ci ?c = (put_client s ci ?c)\<lparr>sv_store := st, sv_metrics := (sv_metrics s)\<lparr>mt_total_commands :=
          mt_total_commands (sv_metrics s) + of_nat (length ls)\<rparr>\<rparr>" by (simp add: f(1) put_client_def)
    ultimately show ?thesis using f(2,3)
      by (intro exI [of _ "put_client s1 ci ?c"] exI [of _ ?c]) (simp add: inbox_def outbox_def pending_def)
  qed
qed

section \<open>An example\<close>

text \<open>One client that has sent a request, on a store that holds one key.\<close>

definition ex_client :: "bytes \<Rightarrow> ks_client" where
  "ex_client req = zero_client\<lparr>cl_used := True, cl_fd := 5, cl_id := 1,
     cl_input := req @ fresh (KS_INPUT_CAP + 1 - length req), cl_input_len := length req,
     cl_output := fresh KS_OUTPUT_CAP\<rparr>"

definition ex_server :: "bytes \<Rightarrow> ks_server" where
  "ex_server req = \<lparr>sv_clients = [ex_client req], sv_store = ex_store,
     sv_pubsub = \<lparr>ps_channels = [], ps_channel_count = 0, ps_subscription_count = 0\<rparr>,
     sv_metrics = \<lparr>mt_connected_clients = 1, mt_total_connections = 1, mt_rejected_connections = 0,
       mt_total_commands = 0, mt_started_at = 0\<rparr>,
     sv_next_client_id = 2\<rparr>"

definition ex_env :: command_env where
  "ex_env = \<lparr>ce_alloc = \<lambda>n. mem_ok, ce_time = \<lambda>n. 0\<rparr>"

lemma ex_env_ok [simp]: "env_ok ex_env"
  by (simp add: env_ok_def ex_env_def time_ok_def)

lemma ex_client_simps [simp]:
  "inbox (ex_client req) = req" "outbox (ex_client req) = []" "cl_used (ex_client req)"
  "cl_close_after_write (ex_client req) = False" "cl_drop_connection (ex_client req) = False"
  by (simp_all add: ex_client_def inbox_def outbox_def pending_def zero_client_def)

lemma ex_server_simps [simp]:
  "get_client (ex_server req) 0 = Some (ex_client req)" "sv_store (ex_server req) = ex_store"
  "mt_total_commands (sv_metrics (ex_server req)) = 0" "sv_clients (ex_server req) = [ex_client req]"
  by (simp_all add: ex_server_def get_client_def)

lemma ex_server_inv: "length req \<le> KS_INPUT_CAP \<Longrightarrow> server_inv (ex_server req)"
proof -
  assume "length req \<le> KS_INPUT_CAP"
  then have c: "client_ok (ex_client req)"
    by (simp add: client_ok_def ex_client_def zero_client_def fresh_def)
  have "small_values ex_store"
    by (auto simp: small_values_def kv_live_iff ex_store(3) new_value_def KS_MAX_REQUEST_def split: if_splits)
  with c ex_store(2) show "server_inv (ex_server req)"
    by (simp add: server_inv_def ex_server_def FD_SETSIZE_def time_ok_def ps_inv_def ps_members_def members_def
        chs_inv_def ex_client_def used_ids_def)
qed

lemma ex_get:
  obtains st where "kv_run [Op_Get ''k''] ex_store = Some ([Ans_Get (Some (''v'' @ [NUL])) 1], st)"
proof -
  from kv_get [OF ex_live(1), of "''k''"] obtain st where
    "ks_kv_get ex_store (Some ''k'') = Some (Some (''v'' @ [NUL]), 1, st)"
    by (auto simp: ex_store(4) ex_live(2) new_value_def)
  then show thesis by (intro that) simp
qed

lemma ex_operations: "operations ex_env 0 [''GET k''] = Some [Op_Get ''k'']"
proof -
  have "trimmed (''GET k'' @ [LF]) = ''GET k''" "words ''GET k'' = Some [''GET'', ''k'']" "map c_toupper ''GET'' = ''GET''"
    by code_simp+
  then have "parse_spec (''GET k'' @ [LF]) = Some (''GET'', [''k''])"
    by (simp add: parse_spec_def KS_MAX_REQUEST_def KS_MAX_ARGS_def)
  then show ?thesis by (simp add: kv_command_def)
qed

section \<open>Properties\<close>

text \<open>
  C4. The server is the store. When the input buffer of a client holds complete lines that are
  requests on keys, and the answers stay below the high-water mark, \<open>process_requests\<close>
  carries out exactly the history of store operations they stand for, in order, appends exactly
  the answers of these operations to the output, in the same order, empties the input and counts
  the commands; no other client, no subscription and no other counter changes. The history
  always runs to its end.
\<close>

theorem server_pipeline:
  assumes "server_inv s" "get_client s ci = Some c" "cl_used c" "env_ok env"
    and "inbox c = wire ls" "\<forall>l \<in> set ls. line_ok l"
    and "operations env (mt_total_commands (sv_metrics s)) ls = Some ops"
  shows "\<exists>as st. kv_run ops (sv_store s) = Some (as, st) \<and> length as = length ops \<and>
    (length (outbox c @ answers as) < KS_OUTPUT_HIGH_WATER \<longrightarrow>
     (\<exists>s' c'. process_requests env cfg s ci = Some (0, s') \<and> server_inv s' \<and>
        inbox c' = [] \<and> outbox c' = outbox c @ answers as \<and>
        cl_close_after_write c' = cl_close_after_write c \<and> cl_drop_connection c' = cl_drop_connection c \<and>
        s' = (put_client s ci c')\<lparr>sv_store := st,
          sv_metrics := (sv_metrics s)\<lparr>mt_total_commands := mt_total_commands (sv_metrics s) + of_nat (length ls)\<rparr>\<rparr>))"
proof -
  from kv.run_returns [OF server_invD(4) [OF assms(1)], of ops] obtain as st where
    r: "kv_run ops (sv_store s) = Some (as, st)" "length as = length ops" by (auto simp: kv_run_eq)
  with data_requests [OF assms(1-4,6,5,7) r(1), of cfg] show ?thesis by blast
qed

theorem server_pipeline_witness:
  "\<exists>s' c'. process_requests ex_env ks_config_init (ex_server (''GET k'' @ [LF])) 0 = Some (0, s') \<and>
     get_client s' 0 = Some c' \<and> outbox c' = ''$1'' @ [CR, LF] @ ''v'' @ [CR, LF]"
proof -
  let ?req = "''GET k'' @ [LF]" and ?as = "[Ans_Get (Some (''v'' @ [NUL])) 1]"
  obtain st where st: "kv_run [Op_Get ''k''] ex_store = Some (?as, st)" by (rule ex_get)
  have t: "answers ?as = ''$1'' @ [CR, LF] @ ''v'' @ [CR, LF]" by code_simp
  have inv: "server_inv (ex_server ?req)" by (rule ex_server_inv) (simp add: KS_INPUT_CAP_def KS_MAX_REQUEST_def)
  have l: "inbox (ex_client ?req) = wire [''GET k'']" "\<forall>l \<in> set [''GET k'']. line_ok l"
    by (simp_all add: line_ok_def KS_MAX_REQUEST_def)
  have fits: "length (outbox (ex_client ?req) @ answers ?as) < KS_OUTPUT_HIGH_WATER"
    unfolding t by (simp add: KS_OUTPUT_HIGH_WATER_def KS_OUTPUT_CAP_def)
  from server_pipeline [OF inv ex_server_simps(1) ex_client_simps(3) ex_env_ok l, unfolded ex_server_simps,
      OF ex_operations, of ks_config_init] st fits obtain s' c' where
    "process_requests ex_env ks_config_init (ex_server ?req) 0 = Some (0, s')"
    "outbox c' = outbox (ex_client ?req) @ answers ?as"
    "s' = (put_client (ex_server ?req) 0 c')\<lparr>sv_store := st, sv_metrics := (sv_metrics (ex_server ?req))\<lparr>
       mt_total_commands := 0 + of_nat (length [''GET k''])\<rparr>\<rparr>"
    by (metis option.inject prod.inject)
  then show ?thesis unfolding t by (intro exI [of _ s'] exI [of _ c']) simp
qed

end
