(* ===== verification/Kessel_Server_Correct.thy ===== *)
theory Kessel_Server_Correct
  imports Kessel_Server_Run Kessel_Server_Pipeline
begin

text \<open>
  The properties of the server: its reachable states and rounds, a whole run, the requests of
  a client, publication, the output of a client and the admission of connections.
\<close>

section \<open>Examples\<close>

definition ex_nonblock :: nonblock_os where
  "ex_nonblock = \<lparr>nb_getfl = 0, nb_setfl = 0\<rparr>"

text \<open>A round in which one client connects.\<close>

definition ex_tick :: tick_env where
  "ex_tick = \<lparr>te_select = Inr ([3], []), te_stop = \<lambda>n. False, te_accept_alloc = \<lambda>n. mem_ok,
     te_accept = [Inr (5, ex_nonblock), Inl EAGAIN], te_recv = \<lambda>i. [Inl EAGAIN], te_send = \<lambda>i. [Inl EAGAIN],
     te_commands = ex_env\<rparr>"

definition ex_run :: run_env where
  "ex_run = \<lparr>re_listen = \<lparr>lo_socket = 3, lo_setsockopt = 0, lo_inet_pton = \<lambda>h. 1, lo_bind = 0, lo_listen = 0,
       lo_nonblock = ex_nonblock\<rparr>,
     re_alloc = mem_ok, re_clock = \<lambda>n. Some (1, 0), re_started_at = 0, re_ticks = [ex_tick]\<rparr>"

lemma ex_tick_ok: "te_ok ex_tick"
  by (auto simp: te_ok_def ex_tick_def)

lemma ex_run_ok:
  "re_ticks ex_run = [ex_tick]" "monotonic (ks_ttl_system_clock (re_clock ex_run))" "time_ok (re_started_at ex_run)"
  "config_ok ks_config_init" "lo_socket (re_listen ex_run) = 3"
  by (simp_all add: ex_run_def monotonic_def ks_ttl_system_clock_def mono_def time_ok_def config_ok_def
      ks_config_init_def FD_SETSIZE_def)

lemma ex_fresh_server: "\<exists>bs. fresh_server ks_config_init bs"
proof -
  have "ks_kv_init mem_ok (re_clock ex_run) \<noteq> None" "ks_pubsub_create mem_ok \<noteq> None"
    using mem_ok_calloc [of 8 sizeof_ks_ds_entry Site_ds_entries] mem_ok_calloc [of 1 sizeof_ks_pubsub Site_pubsub]
    by (simp_all add: ks_kv_init_def ks_kv_init_with_clock_def ks_ttl_system_clock_def ks_ds_init_def
        sizeof_ks_ds_entry_def KS_DS_INITIAL_CAPACITY_def ks_pubsub_create_def sizeof_ks_pubsub_def)
  then show ?thesis using ex_run_ok(2,3) unfolding fresh_server_def by blast
qed

section \<open>The life of the server\<close>

text \<open>
  C8. Every reachable state of the server is well formed. After any number of rounds, as long as
  fewer than \<open>2 ^ 64\<close> connections can have been accepted, whatever the clients send and the
  system answers: the buffers of every client are within their bounds, identifiers of connected
  clients are distinct, only connected clients are subscribed, the store and the registry satisfy
  their invariants, every value fits in a response, the connection counter is exact, and there
  are as many places for clients as were configured.
\<close>

theorem server_invariant:
  assumes "reachable cfg listen_fd n (backoff, s)" "n * KS_ACCEPT_BUDGET \<le> 2 ^ 64 - 2"
  shows "server_inv s \<and> length (sv_clients s) = unat (cfg_max_clients cfg)"
proof
  from srv.reach_inv [OF reachable_reach [OF assms(1)], of 0] assms(2) show "server_inv s"
    by (simp add: srv_ok_def)
  show "length (sv_clients s) = unat (cfg_max_clients cfg)" by (rule reachable_clients [OF assms])
qed

text \<open>
  C9. The server never gets stuck. In every reachable state, with calls on sockets that do not
  block and a system that is interrupted only finitely often, the next round of the event loop
  returns, its loops over clients, sockets and requests included, and the loop goes on
  unless \<open>select\<close> failed.
\<close>

theorem server_progress:
  assumes "reachable cfg listen_fd n (backoff, s)" "Suc n * KS_ACCEPT_BUDGET \<le> 2 ^ 64 - 2" "te_ok te"
  shows "\<exists>t. tick te cfg listen_fd backoff s = Some t \<and>
    (if select_failed te then tr_exit t = Some 1
     else tr_exit t = None \<and> reachable cfg listen_fd (Suc n) (tr_backoff t, tr_server t))"
proof -
  from assms(2) have "srv_ok (KS_ACCEPT_BUDGET + 0) s"
    using srv.reach_inv [OF reachable_reach [OF assms(1)], of "KS_ACCEPT_BUDGET + 0"] by (simp add: add.commute)
  from tick_spec [OF assms(3) this, of cfg listen_fd backoff] obtain t where
    t: "tick te cfg listen_fd backoff s = Some t"
      "tr_exit t = (case te_select te of Inl errno \<Rightarrow> if errno = EINTR then None else Some 1 | Inr fds \<Rightarrow> None)"
    by metis
  with reachable.round [OF assms(1,3) t(1)] show ?thesis
    by (intro exI [of _ t]) (auto simp: select_failed_def split: sum.splits)
qed

text \<open>
  C10. A run of the server leaks no descriptor. For every configuration, every answer of the
  allocator and the system during start, and any sequence of rounds, \<open>ks_server_run\<close> returns,
  and the descriptors it closes, each exactly once, are the listener, if one was opened, and the
  connections that the answers of the system made it take: in every round in which the listener
  was polled and ready, what \<open>accept\<close> gave until the budget of the round was spent, a stop was
  requested or a call failed. Nothing else is closed. \<open>accept\<close> is assumed never to answer with the
  descriptor of the listener itself.
\<close>

theorem server_run_no_leak:
  assumes "\<forall>te \<in> set (re_ticks re). te_ok te" "length (re_ticks re) * KS_ACCEPT_BUDGET \<le> 2 ^ 64 - 2"
    and "monotonic (ks_ttl_system_clock (re_clock re))" "time_ok (re_started_at re)"
    and "accepts_new (lo_socket (re_listen re)) (re_ticks re)"
  shows "\<exists>rr. ks_server_run re (Some cfg) = Some rr \<and> mset (rr_closed rr) =
    mset (listener re cfg @ (if enters_loop re cfg then connections (lo_socket (re_listen re)) 0 (re_ticks re) else []))"
  by (rule server_run_spec [OF assms])

lemma ex_connections: "connections 3 0 [ex_tick] = [5]"
  by (simp add: ex_tick_def round_connections_def KS_ACCEPT_BUDGET_def numeral_nat select_failed_def ex_nonblock_def
      ks_set_nonblock_def)

lemma ex_listen: "ks_listen (re_listen ex_run) (Some (cfg_host ks_config_init)) = (3, [])"
  by (simp add: ex_run_def ks_listen_def ks_set_nonblock_def ex_nonblock_def)

lemma ex_enters_loop: "enters_loop ex_run ks_config_init"
proof -
  have "ks_kv_init mem_ok (re_clock ex_run) \<noteq> None" "ks_pubsub_create mem_ok \<noteq> None"
    using mem_ok_calloc [of 8 sizeof_ks_ds_entry Site_ds_entries] mem_ok_calloc [of 1 sizeof_ks_pubsub Site_pubsub]
    by (simp_all add: ks_kv_init_def ks_kv_init_with_clock_def ks_ttl_system_clock_def ks_ds_init_def
        sizeof_ks_ds_entry_def KS_DS_INITIAL_CAPACITY_def ks_pubsub_create_def sizeof_ks_pubsub_def)
  moreover have "c_calloc mem_ok Site_clients (cfg_max_clients ks_config_init) sizeof_ks_client"
    using mem_ok_calloc [of "cfg_max_clients ks_config_init" sizeof_ks_client Site_clients]
    by (simp add: ks_config_init_def sizeof_ks_client_def)
  ultimately show ?thesis using ex_run_ok(4) by (simp add: enters_loop_def ex_listen FD_SETSIZE_def) (simp add: ex_run_def)
qed

theorem server_run_no_leak_witness:
  "\<exists>rr. ks_server_run ex_run (Some ks_config_init) = Some rr \<and> mset (rr_closed rr) = {#3, 5#}"
proof -
  have "accepts_new 3 [ex_tick]" by (auto simp: accepts_new_def ex_tick_def)
  with server_run_no_leak [of ex_run ks_config_init] ex_run_ok ex_tick_ok obtain rr where
    "ks_server_run ex_run (Some ks_config_init) = Some rr"
    "mset (rr_closed rr) = mset ([3] @ connections 3 0 [ex_tick])"
    by (auto simp: KS_ACCEPT_BUDGET_def listener_def ex_enters_loop)
  then show ?thesis unfolding ex_connections by auto
qed

theorem server_invariant_witness:
  "\<exists>bs. reachable ks_config_init 3 0 bs \<and> server_inv (snd bs)"
proof -
  from ex_fresh_server obtain b s where "fresh_server ks_config_init (b, s)" by auto
  from reachable.start [OF ex_run_ok(4) this] have r: "reachable ks_config_init 3 0 (b, s)" .
  from server_invariant [OF r] r show ?thesis by auto
qed

theorem server_progress_witness:
  "\<exists>b s t. reachable ks_config_init 3 0 (b, s) \<and> tick ex_tick ks_config_init 3 b s = Some t \<and> tr_exit t = None"
proof -
  from ex_fresh_server obtain b s where "fresh_server ks_config_init (b, s)" by auto
  from reachable.start [OF ex_run_ok(4) this] have r: "reachable ks_config_init 3 0 (b, s)" .
  from server_progress [OF r _ ex_tick_ok] r show ?thesis
    by (auto simp: KS_ACCEPT_BUDGET_def select_failed_def ex_tick_def)
qed

section \<open>Requests\<close>

text \<open>
  C22. Framing. Whatever bytes a client sent, \<open>process_requests\<close> returns 0 and keeps the
  invariant, and connects, disconnects or renames nobody. The input is a number of complete lines
  \<open>ls\<close>, each within the limit on a request, and a rest. Either the lines are used up and the rest
  is kept byte for byte: then there is new output exactly if a line was used, the connection stays
  open as it was, and no complete line is left unless the client is at the high-water mark of its
  output. Or the rest starts with a line whose content, without LF and a CR before it, exceeds the
  limit: then the last output is the error that says so, the input is discarded and the connection
  is to be closed. No other input closes the connection or is discarded.
\<close>

theorem requests_framed:
  assumes "server_inv s" "get_client s ci = Some c" "cl_used c" "env_ok env"
  shows "\<exists>s' c' out ls rest. process_requests env cfg s ci = Some (0, s') \<and> server_inv s' \<and> same_clients s s' \<and>
    get_client s' ci = Some c' \<and> outbox c' = outbox c @ out \<and>
    (\<forall>l \<in> set ls. LF \<notin> set l \<and> \<not> oversized l) \<and> inbox c = wire ls @ rest \<and>
    (cl_close_after_write c' = cl_close_after_write c \<and> inbox c' = rest \<and> (out = [] \<longleftrightarrow> ls = []) \<and>
       (KS_OUTPUT_HIGH_WATER \<le> pending c' \<or> LF \<notin> set rest) \<or>
     cl_close_after_write c' \<and> inbox c' = [] \<and>
       (\<exists>l junk. rest = l @ LF # junk \<and> LF \<notin> set l \<and> oversized l) \<and>
       (\<exists>tx. out = tx @ ''-ERR request too large'' @ [CR, LF]))"
proof -
  obtain s' where s': "process_requests env cfg s ci = Some (0, s')" "requests_done s ci c s'"
    using process_requests_spec [OF assms, of cfg] by blast
  have refusal: "refusal = ''-ERR request too large'' @ [CR, LF]" by (simp add: refusal_def error_text_def)
  show ?thesis
    using s' unfolding requests_done_def starts_oversized_def request_line_def refusal [symmetric]
    by (elim conjE exE) (intro exI conjI, assumption+, blast)
qed

text \<open>A line that is one byte too large: it is refused.\<close>

definition ex_large :: bytes where
  "ex_large = replicate (KS_MAX_REQUEST + 1) CHR ''x''"

lemma ex_large: "LF \<notin> set ex_large" "oversized ex_large" "length ex_large = KS_MAX_REQUEST + 1"
proof -
  show "LF \<notin> set ex_large" by (simp add: ex_large_def)
  show len: "length ex_large = KS_MAX_REQUEST + 1" by (simp add: ex_large_def)
  have "last ex_large = CHR ''x''" by (simp add: ex_large_def del: replicate_Suc)
  then show "oversized ex_large" using len by (simp add: oversized_def)
qed

theorem requests_framed_witness:
  "\<exists>s' c'. process_requests ex_env ks_config_init (ex_server (ex_large @ [LF])) 0 = Some (0, s') \<and>
     get_client s' 0 = Some c' \<and> cl_close_after_write c' \<and> inbox c' = [] \<and>
     (\<exists>tx. outbox c' = tx @ ''-ERR request too large'' @ [CR, LF])"
proof -
  let ?in = "ex_large @ [LF]" and ?c = "ex_client (ex_large @ [LF])"
  have i: "server_inv (ex_server ?in)" by (rule ex_server_inv) (simp add: ex_large(3) KS_INPUT_CAP_def)
  from requests_framed [OF i ex_server_simps(1) ex_client_simps(3) ex_env_ok, of ks_config_init]
  obtain s' c' out ls rest where r: "process_requests ex_env ks_config_init (ex_server ?in) 0 = Some (0, s')"
    "server_inv s'" "same_clients (ex_server ?in) s'" "get_client s' 0 = Some c'" "outbox c' = outbox ?c @ out"
    "\<forall>l \<in> set ls. LF \<notin> set l \<and> \<not> oversized l" "inbox ?c = wire ls @ rest"
    "cl_close_after_write c' = cl_close_after_write ?c \<and> inbox c' = rest \<and> (out = [] \<longleftrightarrow> ls = []) \<and>
       (KS_OUTPUT_HIGH_WATER \<le> pending c' \<or> LF \<notin> set rest) \<or>
     cl_close_after_write c' \<and> inbox c' = [] \<and>
       (\<exists>l junk. rest = l @ LF # junk \<and> LF \<notin> set l \<and> oversized l) \<and>
       (\<exists>tx. out = tx @ ''-ERR request too large'' @ [CR, LF])"
    by (elim exE conjE) (rule that; assumption)
  have "ls = []"
  proof (cases ls)
    case (Cons l ls')
    with r(6,7) have "ex_large @ LF # [] = l @ LF # wire ls' @ rest" by simp
    then have "l = ex_large" by (simp only: append_Cons_eq_iff [of LF ex_large "[]"] ex_large(1) list.set empty_iff not_False_eq_True simp_thms)
    with Cons r(6) ex_large(2) show ?thesis by simp
  qed simp
  with r(7) have "rest = ?in" by simp
  then have rest: "LF \<in> set rest" by simp
  obtain c'' where "get_client s' 0 = Some c''" "cl_used c'' = cl_used ?c"
    by (rule same_clients_get [OF r(3) ex_server_simps(1)])
  with r(4) have used: "cl_used c'" by simp
  have "\<not> (out = [] \<and> KS_OUTPUT_HIGH_WATER \<le> pending c')"
    using pending_outbox [OF get_client_ok [OF r(2,4)] used] r(5)
    by (auto simp: KS_OUTPUT_HIGH_WATER_def KS_OUTPUT_CAP_def)
  with r(8) rest \<open>ls = []\<close> have "cl_close_after_write c' \<and> inbox c' = [] \<and>
      (\<exists>tx. out = tx @ ''-ERR request too large'' @ [CR, LF])" by blast
  with r(1,4,5) show ?thesis by simp
qed

text \<open>
  C28. Reading from a client returns once the socket has nothing more to give, whatever it
  gives; the invariant holds again, and a failure is reported only if the socket failed: no
  request, however malformed or long, makes the server drop the connection without an answer.
\<close>

theorem read_client_errors:
  assumes "server_inv s" "get_client s ci = Some c" "cl_used c" "env_ok env" "settles os"
  shows "\<exists>r s' os'. read_client env cfg ci s os = Some (r, s', os') \<and> server_inv s' \<and> same_clients s s' \<and>
    (r = 0 \<or> r = - 1 \<and> Inl E_OTHER \<in> set os)"
  by (rule read_client_spec [OF assms])

theorem read_client_errors_witness:
  "\<exists>s' os'. read_client ex_env ks_config_init 0 (ex_server ''PI'') [Inr (''NG'' @ [LF]), Inl EAGAIN] = Some (0, s', os')"
proof -
  have "server_inv (ex_server ''PI'')" by (rule ex_server_inv) (simp add: KS_INPUT_CAP_def KS_MAX_REQUEST_def)
  from read_client_errors [OF this ex_server_simps(1) ex_client_simps(3) ex_env_ok,
      of "[Inr (''NG'' @ [LF]), Inl EAGAIN]" ks_config_init] show ?thesis by auto
qed

text \<open>
  C27. Publication through the server. PUBLISH puts the message, framed with its channel, into
  the output of each client that is subscribed to the channel and has room for it, drops the
  connection of those that have not, and answers the number of clients that took it; no other
  client changes, nor the store or the registry.
\<close>

theorem publish_delivers:
  assumes "server_inv s" "ready s ci" "length ch + length m \<le> KS_MAX_REQUEST"
  shows "\<exists>s' cs c'. dispatch al now cfg s ci ''PUBLISH'' [ch, m] = Some (0, s') \<and>
    s' = s\<lparr>sv_clients := cs[ci := c']\<rparr> \<and> length cs = length (sv_clients s) \<and>
    (\<forall>j < length cs. let c = sv_clients s ! j; I = set (targets (sv_pubsub s) ch) in
       if takes I (message_text ch m) c then queued c (message_text ch m) (cs ! j)
       else if cl_used c \<and> cl_id c \<in> I \<and> \<not> cl_drop_connection c
       then cl_drop_connection (cs ! j) \<and> outbox (cs ! j) = outbox c
       else cs ! j = c) \<and>
    queued (cs ! ci) (int_text (int (length (filter (takes (set (targets (sv_pubsub s) ch)) (message_text ch m))
      (sv_clients s))))) c'"
proof -
  let ?I = "set (targets (sv_pubsub s) ch)" and ?f = "message_text ch m"
  from dispatch_publish [OF assms, of al now cfg] obtain s' where
    s': "dispatch al now cfg s ci ''PUBLISH'' [ch, m] = Some (0, s')"
      "responded s ci (int_text (int (length (filter (takes ?I ?f) (sv_clients s))))) ?I ?f (sv_store s) (sv_pubsub s) s'"
    by blast
  then obtain cs c' where r: "list_all2 (handed ?I ?f) (sv_clients s) cs"
    "queued (cs ! ci) (int_text (int (length (filter (takes ?I ?f) (sv_clients s))))) c'"
    "s' = s\<lparr>sv_clients := cs[ci := c'], sv_store := sv_store s, sv_pubsub := sv_pubsub s\<rparr>"
    unfolding responded_def by blast
  have h: "handed ?I ?f (sv_clients s ! j) (cs ! j)" if "j < length cs" for j
    using r(1) that by (simp add: list_all2_conv_all_nth)
  have o: "outbox (c1\<lparr>cl_drop_connection := True\<rparr>) = outbox c" if "queued c [] c1" for c c1
    using queuedD(2) [OF that] by (simp add: outbox_def pending_def)
  have "let c = sv_clients s ! j in
       if takes ?I ?f c then queued c ?f (cs ! j)
       else if cl_used c \<and> cl_id c \<in> ?I \<and> \<not> cl_drop_connection c
       then cl_drop_connection (cs ! j) \<and> outbox (cs ! j) = outbox c
       else cs ! j = c" if "j < length cs" for j
    using h [OF that] o unfolding handed_def Let_def by (auto split: if_splits)
  moreover have "length cs = length (sv_clients s)" using r(1) by (simp add: list_all2_lengthD)
  ultimately show ?thesis using s'(1) r(2,3) unfolding Let_def
    by (intro exI [of _ s'] exI [of _ cs] exI [of _ c'] conjI) auto
qed

theorem publish_delivers_witness:
  "\<exists>s'. dispatch mem_ok 0 ks_config_init (ex_server []) 0 ''PUBLISH'' [''news'', ''hello''] = Some (0, s')"
proof -
  have i: "server_inv (ex_server [])" by (rule ex_server_inv) simp
  have "ready (ex_server []) 0"
    using get_client_ok [OF i ex_server_simps(1)]
    by (simp add: ready_def) (simp add: ex_client_def pending_def zero_client_def KS_OUTPUT_HIGH_WATER_def KS_OUTPUT_CAP_def)
  from publish_delivers [OF i this, of "''news''" "''hello''" mem_ok 0 ks_config_init] show ?thesis
    by (auto simp: KS_MAX_REQUEST_def)
qed

section \<open>Output\<close>

text \<open>
  C29. The output of a client is a queue of bytes within its buffer. Queueing appends exactly the
  given bytes, or refuses when they do not fit and loses nothing; writing hands a prefix of the
  queue to the socket and keeps the rest; a client structure stays well formed.
\<close>

theorem output_queue:
  assumes "client_ok c" "cl_used c" "n \<le> length data" "settles os"
  shows "(\<exists>c'. client_ok c' \<and> cl_output_len c' \<le> KS_OUTPUT_CAP \<and>
      (if pending c + n \<le> KS_OUTPUT_CAP
       then client_queue c data n = Some (0, c') \<and> outbox c' = outbox c @ take n data
       else client_queue c data n = Some (- 1, c') \<and> outbox c' = outbox c)) \<and>
    (\<exists>r c' out os'. write_client c os = Some (r, c', out, os') \<and> client_ok c' \<and>
      outbox c = out @ outbox c' \<and> r \<in> {0, - 1} \<and> (outbox c' = [] \<longrightarrow> (r = 0 \<longleftrightarrow> \<not> cl_close_after_write c)))"
proof
  from client_queue_spec [OF assms(1-3)] obtain c' where
    c': "if pending c + n \<le> KS_OUTPUT_CAP
     then client_queue c data n = Some (0, c') \<and> queued c (take n data) c'
     else client_queue c data n = Some (- 1, c') \<and> queued c [] c'" by blast
  then have q: "\<exists>tx. queued c tx c'" by (auto split: if_splits)
  then have "client_ok c'" "cl_used c'" using queuedD assms(2) by auto
  moreover from client_okD(5) [OF this] have "cl_output_len c' \<le> KS_OUTPUT_CAP" .
  ultimately show "\<exists>c'. client_ok c' \<and> cl_output_len c' \<le> KS_OUTPUT_CAP \<and>
      (if pending c + n \<le> KS_OUTPUT_CAP
       then client_queue c data n = Some (0, c') \<and> outbox c' = outbox c @ take n data
       else client_queue c data n = Some (- 1, c') \<and> outbox c' = outbox c)"
    using c' queuedD(2) by (intro exI [of _ c']) (auto split: if_splits)
  obtain r c' out os' where "write_client c os = Some (r, c', out, os')" "client_ok c'" "outbox c = out @ outbox c'"
    "r \<in> {0, - 1}" "outbox c' = [] \<Longrightarrow> (r = 0 \<longleftrightarrow> \<not> cl_close_after_write c)"
    by (rule write_client_spec [OF assms(1,2,4)]) (rule that)
  then show "\<exists>r c' out os'. write_client c os = Some (r, c', out, os') \<and> client_ok c' \<and>
      outbox c = out @ outbox c' \<and> r \<in> {0, - 1} \<and> (outbox c' = [] \<longrightarrow> (r = 0 \<longleftrightarrow> \<not> cl_close_after_write c))" by blast
qed

theorem output_queue_witness:
  "\<exists>c'. client_queue (ex_client []) ''+OK'' 3 = Some (0, c') \<and> outbox c' = ''+OK''"
proof -
  have i: "server_inv (ex_server [])" by (rule ex_server_inv) simp
  have "pending (ex_client []) + 3 \<le> KS_OUTPUT_CAP"
    by (simp add: ex_client_def pending_def zero_client_def KS_OUTPUT_CAP_def)
  with output_queue [OF get_client_ok [OF i ex_server_simps(1)] ex_client_simps(3), of 3 "''+OK''" "[Inl EAGAIN]"]
  show ?thesis by auto
qed

section \<open>Admission\<close>

text \<open>
  C30. Admission of a connection. It becomes a client exactly when a place is free, its descriptor
  fits a descriptor set and its buffers can be allocated; the new client has empty buffers and an
  identifier no other client has, and the counters of connections go up by one. Otherwise the
  descriptor is closed, the rejection counted, and no client changes.
\<close>

theorem admission:
  assumes "srv_ok (Suc k) s" "admit al s fd = (s', closed)"
  shows "srv_ok k s' \<and>
    (if (\<exists>c \<in> set (sv_clients s). \<not> cl_used c) \<and> fd < int FD_SETSIZE \<and>
        c_malloc al Site_client_input (KS_INPUT_CAP + 1) \<and> c_malloc al Site_client_output KS_OUTPUT_CAP
     then closed = [] \<and> (\<exists>i c. i < length (sv_clients s) \<and> \<not> cl_used (sv_clients s ! i) \<and>
       sv_clients s' = (sv_clients s)[i := c] \<and> cl_used c \<and> cl_fd c = fd \<and> inbox c = [] \<and> outbox c = [] \<and>
       cl_id c \<notin> set (used_ids (sv_clients s)) \<and>
       mt_connected_clients (sv_metrics s') = mt_connected_clients (sv_metrics s) + 1 \<and>
       mt_total_connections (sv_metrics s') = mt_total_connections (sv_metrics s) + 1)
     else closed = [fd] \<and> sv_clients s' = sv_clients s \<and>
       mt_rejected_connections (sv_metrics s') = mt_rejected_connections (sv_metrics s) + 1)"
proof -
  let ?i = "free_slot (sv_clients s)"
  let ?c = "zero_client\<lparr>cl_used := True, cl_fd := fd, cl_id := sv_next_client_id s,
    cl_input := fresh (KS_INPUT_CAP + 1), cl_output := fresh KS_OUTPUT_CAP\<rparr>"
  have "srv_ok k s'" using admit_spec [OF assms] by (simp add: accounted_def)
  moreover have free: "(\<exists>c \<in> set (sv_clients s). \<not> cl_used c) \<longleftrightarrow> ?i < length (sv_clients s)"
    using free_slot_spec(1,3) [of "sv_clients s"] by (auto simp: le_less)
  moreover have "sv_next_client_id s \<notin> set (used_ids (sv_clients s))"
    using assms(1) by (auto simp: srv_ok_def ids_fresh_def)
  moreover have "closed = [fd] \<and> sv_clients s' = sv_clients s \<and>
       mt_rejected_connections (sv_metrics s') = mt_rejected_connections (sv_metrics s) + 1"
    if "\<not> (?i < length (sv_clients s) \<and> fd < int FD_SETSIZE \<and>
        c_malloc al Site_client_input (KS_INPUT_CAP + 1) \<and> c_malloc al Site_client_output KS_OUTPUT_CAP)"
    using assms(2) that free_slot_spec(1) [of "sv_clients s"]
    by (auto simp: admit_def Let_def client_init_def reject_connection_def split: if_splits)
  moreover have "closed = [] \<and> sv_clients s' = (sv_clients s)[?i := ?c] \<and>
       mt_connected_clients (sv_metrics s') = mt_connected_clients (sv_metrics s) + 1 \<and>
       mt_total_connections (sv_metrics s') = mt_total_connections (sv_metrics s) + 1"
    if "?i < length (sv_clients s)" "fd < int FD_SETSIZE" "c_malloc al Site_client_input (KS_INPUT_CAP + 1)"
      "c_malloc al Site_client_output KS_OUTPUT_CAP"
    using assms(2) that by (auto simp: admit_def Let_def client_init_def put_client_def)
  moreover have "cl_used ?c" "cl_fd ?c = fd" "inbox ?c = []" "outbox ?c = []" "cl_id ?c = sv_next_client_id s"
    by (simp_all add: inbox_def outbox_def pending_def zero_client_def)
  ultimately show ?thesis using free_slot_spec(2) [of "sv_clients s"] unfolding free by metis
qed

theorem admission_witness:
  "admit mem_ok (ex_server []) 7 = (fst (admit mem_ok (ex_server []) 7), [7]) \<and>
   sv_clients (fst (admit mem_ok (ex_server []) 7)) = [ex_client []]"
proof -
  have i: "server_inv (ex_server [])" by (rule ex_server_inv) simp
  then have ok: "srv_ok (Suc 0) (ex_server [])"
    by (simp add: srv_ok_def ids_fresh_def) (simp add: ex_server_def used_ids_def ex_client_def)
  obtain s' closed where a: "admit mem_ok (ex_server []) 7 = (s', closed)" by (rule prod.exhaust)
  from admission [OF ok a] a show ?thesis by simp
qed

end
