(* ===== verification/Kessel_Cli.thy ===== *)
theory Kessel_Cli
  imports Kessel_Protocol Kessel_Net
begin

text \<open>
  \<^verbatim>\<open>src/cli/kessel_cli.c\<close>, first part: the arguments, the connection, sending, the buffered
  reader and the rendering of responses. The file-scope variables, the reader, what was written
  to the standard output, to the standard error and to the socket, the objects allocated, and the
  answers the system still has to give are one record \<open>cli\<close>. A function that waits for an answer
  the system does not give is \<open>None\<close>; that memory is used or freed which is not allocated is
  recorded in \<open>cli_fault\<close>.

  SIGINT is asynchronous: the handler may run before any access to the flag
  \<open>subscription_interrupted\<close>. The function \<open>os_interrupt\<close> says before which accesses it does.
\<close>

section \<open>Data\<close>

definition KESSEL_CLI_DEFAULT_HOST :: string where "KESSEL_CLI_DEFAULT_HOST = ''127.0.0.1''"
definition KESSEL_CLI_DEFAULT_PORT :: string where "KESSEL_CLI_DEFAULT_PORT = ''7070''"
definition KESSEL_CLI_MAX_LINE :: nat where "KESSEL_CLI_MAX_LINE = 64 * 1024"
definition READER_SIZE :: nat where "READER_SIZE = 4096"

record cli_config =
  cc_host :: string
  cc_port :: string

record response_reader =
  rr_buffer :: bytes
  rr_begin :: nat
  rr_end :: nat

datatype response_status =
    RESPONSE_OK
  | RESPONSE_DISCONNECTED
  | RESPONSE_IO_ERROR
  | RESPONSE_PROTOCOL_ERROR
  | RESPONSE_INTERRUPTED

datatype subscribe_status = SUBSCRIBE_NOT_COMMAND | SUBSCRIBE_COMMAND | SUBSCRIBE_NO_MEMORY

datatype response_kind =
    RESPONSE_KIND_SIMPLE
  | RESPONSE_KIND_ERROR
  | RESPONSE_KIND_INTEGER
  | RESPONSE_KIND_BULK
  | RESPONSE_KIND_ARRAY

text \<open>
  An answer of \<open>poll\<close>: nothing within the 100 ms, an error, or an event, which is \<open>POLLIN\<close>
  or \<open>POLLHUP\<close> or only others.
\<close>

datatype poll_answer = Poll_Timeout | Poll_Error ks_errno | Poll_Event bool

type_synonym timespec = "int \<times> int"

text \<open>What is done on a signal.\<close>

datatype sighandler = SIG_DFL | SIG_IGN | Handle_subscription_interrupt

record cli =
  c_reader :: response_reader
  subscription_interrupted :: bool
  subscription_active :: bool
  unsubscribe_sent :: bool
  unsubscribe_command :: "bytes option"
  unsubscribe_deadline :: timespec
  sigint_handler :: sighandler
  sigpipe_handler :: sighandler
  cli_heap :: "alloc_site list"
  cli_fault :: bool
  cli_stdout :: bytes
  cli_stderr :: bytes
  cli_sent :: bytes
  os_recv :: "recv_answer list"
  os_send :: "send_answer list"
  os_poll :: "poll_answer list"
  os_clock :: "timespec option list"
  os_interrupt :: "nat \<Rightarrow> bool"
  os_looks :: nat
  os_stdout :: "nat \<Rightarrow> bool"
  os_writes :: nat

text \<open>An access to the flag, the handler having run before it or not.\<close>

definition look :: "cli \<Rightarrow> bool \<times> cli" where
  "look c = (let i = subscription_interrupted c \<or> os_interrupt c (os_looks c) in
     (i, c\<lparr>subscription_interrupted := i, os_looks := Suc (os_looks c)\<rparr>))"

text \<open>Output whose result is not checked, and output whose result is: whether it succeeds is given.\<close>

definition put :: "bytes \<Rightarrow> cli \<Rightarrow> cli" where
  "put data c = c\<lparr>cli_stdout := cli_stdout c @ data\<rparr>"

definition complain :: "bytes \<Rightarrow> cli \<Rightarrow> cli" where
  "complain data c = c\<lparr>cli_stderr := cli_stderr c @ data\<rparr>"

definition put_checked :: "bytes \<Rightarrow> cli \<Rightarrow> bool \<times> cli" where
  "put_checked data c = (let ok = os_stdout c (os_writes c) in
     (ok, (if ok then put data c else c)\<lparr>os_writes := Suc (os_writes c)\<rparr>))"

text \<open>
  Memory. At most one object of each place of allocation is alive at a time, so that the place
  identifies the object; \<open>None\<close> as a pointer is the null pointer. That an object is freed or read
  which is not alive, a double free or a use after free, is recorded in \<open>cli_fault\<close>.
\<close>

definition cli_malloc :: "allocator \<Rightarrow> alloc_site \<Rightarrow> nat \<Rightarrow> cli \<Rightarrow> bool \<times> cli" where
  "cli_malloc al site n c =
     (if c_malloc al site n then (True, c\<lparr>cli_heap := site # cli_heap c\<rparr>) else (False, c))"

definition cli_free :: "alloc_site option \<Rightarrow> cli \<Rightarrow> cli" where
  "cli_free p c = (case p of None \<Rightarrow> c
     | Some site \<Rightarrow> if site \<in> set (cli_heap c) then c\<lparr>cli_heap := remove1 site (cli_heap c)\<rparr>
         else c\<lparr>cli_fault := True\<rparr>)"

definition cli_access :: "alloc_site \<Rightarrow> cli \<Rightarrow> cli" where
  "cli_access site c = (if site \<in> set (cli_heap c) then c else c\<lparr>cli_fault := True\<rparr>)"

section \<open>Arguments and connection\<close>

definition valid_port :: "string option \<Rightarrow> bool" where
  "valid_port port = (case port of None \<Rightarrow> False | Some port \<Rightarrow>
     port \<noteq> [] \<and>
     (let (parsed, stop, erange) = c_strtoul port
      in \<not> erange \<and> stop = length port \<and> parsed \<ge> 1 \<and> parsed \<le> 65535))"

definition usage :: "string \<Rightarrow> string" where
  "usage program = ''Usage: '' @ program @ '' [-h host] [-p port]'' @ [LF]"

text \<open>
  The loop over the arguments after the program name: the result if it returns from within, the
  configuration, and what was printed (a text and whether it goes to the standard output).
\<close>

fun cli_args_loop ::
    "string \<Rightarrow> string list \<Rightarrow> cli_config \<Rightarrow> int option \<times> cli_config \<times> (bool \<times> string) list" where
  "cli_args_loop program [] config = (None, config, [])"
| "cli_args_loop program (arg # rest) config =
     (if c_strcmp arg ''--help'' = 0 then (Some 1, config, [(True, usage program)])
      else case rest of
        v # rest' \<Rightarrow>
          if c_strcmp arg ''-h'' = 0 \<or> c_strcmp arg ''--host'' = 0
          then cli_args_loop program rest' (config\<lparr>cc_host := v\<rparr>)
          else if c_strcmp arg ''-p'' = 0 \<or> c_strcmp arg ''--port'' = 0
          then cli_args_loop program rest' (config\<lparr>cc_port := v\<rparr>)
          else (Some (- 1), config,
            [(False, ''kessel-cli: unknown or incomplete option: '' @ arg @ [LF]), (False, usage program)])
      | [] \<Rightarrow> (Some (- 1), config,
            [(False, ''kessel-cli: unknown or incomplete option: '' @ arg @ [LF]), (False, usage program)]))"

definition parse_args_cli :: "string \<Rightarrow> string list \<Rightarrow> int \<times> cli_config \<times> (bool \<times> string) list" where
  "parse_args_cli program args =
     (let (r, config, printed) = cli_args_loop program args
        \<lparr>cc_host = KESSEL_CLI_DEFAULT_HOST, cc_port = KESSEL_CLI_DEFAULT_PORT\<rparr>
      in case r of Some n \<Rightarrow> (n, config, printed)
         | None \<Rightarrow>
             if cc_host config = [] then (- 1, config, [(False, ''kessel-cli: host cannot be empty'' @ [LF])])
             else if \<not> valid_port (Some (cc_port config))
             then (- 1, config, [(False, ''kessel-cli: invalid port: '' @ cc_port config @ [LF])])
             else (0, config, []))"

text \<open>
  What the resolver answers: the result of \<open>getaddrinfo\<close> with its text, and the addresses found,
  each with the answers of \<open>socket\<close> and of \<open>connect\<close>, an error or success. The texts of errors are
  those of the C library; the last error starts as \<open>ECONNREFUSED\<close>.
\<close>

datatype connect_errno = ECONNREFUSED | Errno int

record resolver_os =
  ro_result :: int
  ro_gai_text :: string
  ro_addresses :: "((connect_errno + int) \<times> connect_errno option) list"

text \<open>The descriptor, the last error and the descriptors closed.\<close>

fun connect_loop :: "connect_errno \<Rightarrow> ((connect_errno + int) \<times> connect_errno option) list \<Rightarrow> int \<times> connect_errno \<times> int list" where
  "connect_loop last_error [] = (- 1, last_error, [])"
| "connect_loop last_error ((Inl errno, answer) # addresses) = connect_loop errno addresses"
| "connect_loop last_error ((Inr fd, None) # addresses) = (fd, last_error, [])"
| "connect_loop last_error ((Inr fd, Some errno) # addresses) =
     (let (r, e, closed) = connect_loop errno addresses in (r, e, fd # closed))"

text \<open>The descriptor, the descriptors closed, and what is written to the standard error.\<close>

definition connect_to_server ::
    "(connect_errno \<Rightarrow> string) \<Rightarrow> cli_config \<Rightarrow> resolver_os \<Rightarrow> int \<times> int list \<times> string" where
  "connect_to_server strerror config os =
     (if ro_result os \<noteq> 0
      then (- 1, [], ''kessel-cli: cannot resolve '' @ cc_host config @ '': '' @ ro_gai_text os @ [LF])
      else let (fd, last_error, closed) = connect_loop ECONNREFUSED (ro_addresses os) in
        (fd, closed, if fd < 0 then ''kessel-cli: cannot connect to '' @ cc_host config @ '':'' @ cc_port config @
           '': '' @ strerror last_error @ [LF] else []))"

section \<open>Sending\<close>

text \<open>Whether everything was sent, the bytes sent, and the answers of \<open>send\<close> that are left.\<close>

fun write_all :: "send_answer list \<Rightarrow> bytes \<Rightarrow> (bool \<times> bytes \<times> send_answer list) option" where
  "write_all os [] = Some (True, [], os)"
| "write_all [] (d # ds) = None"
| "write_all (Inr n # os) (d # ds) =
     (if n > 0 then do {
        (ok, sent, os) \<leftarrow> write_all os (drop n (d # ds));
        Some (ok, take n (d # ds) @ sent, os) }
      else Some (False, [], os))"
| "write_all (Inl errno # os) (d # ds) =
     (if errno = EINTR then write_all os (d # ds) else Some (False, [], os))"

definition send_all :: "bytes \<Rightarrow> cli \<Rightarrow> (bool \<times> cli) option" where
  "send_all data c = do {
     (ok, sent, os) \<leftarrow> write_all (os_send c) data;
     Some (ok, c\<lparr>os_send := os, cli_sent := cli_sent c @ sent\<rparr>) }"

text \<open>A reading of the monotonic clock, which may fail.\<close>

definition clock_gettime :: "cli \<Rightarrow> (timespec option \<times> cli) option" where
  "clock_gettime c = (case os_clock c of [] \<Rightarrow> None | t # ts \<Rightarrow> Some (t, c\<lparr>os_clock := ts\<rparr>))"

definition deadline_reached :: "cli \<Rightarrow> (bool \<times> cli) option" where
  "deadline_reached c = do {
     (now, c) \<leftarrow> clock_gettime c;
     case now of None \<Rightarrow> Some (True, c)
     | Some now \<Rightarrow>
         Some (fst now > fst (unsubscribe_deadline c) \<or>
               fst now = fst (unsubscribe_deadline c) \<and> snd now \<ge> snd (unsubscribe_deadline c), c) }"

definition send_pending_unsubscribe :: "cli \<Rightarrow> (response_status \<times> cli) option" where
  "send_pending_unsubscribe c =
     (let (interrupted, c) = look c in
      if \<not> interrupted \<or> unsubscribe_sent c then Some (RESPONSE_OK, c)
      else case unsubscribe_command c of None \<Rightarrow> Some (RESPONSE_IO_ERROR, c)
      | Some command \<Rightarrow> do {
          (ok, c) \<leftarrow> send_all command (cli_access Site_cli_unsubscribe c);
          if \<not> ok then Some (RESPONSE_IO_ERROR, c)
          else do {
            (now, c) \<leftarrow> clock_gettime (c\<lparr>unsubscribe_sent := True\<rparr>);
            case now of None \<Rightarrow> Some (RESPONSE_IO_ERROR, c)
            | Some now \<Rightarrow> Some (RESPONSE_OK, c\<lparr>unsubscribe_deadline := (fst now + 1, snd now)\<rparr>) } })"

section \<open>The reader\<close>

text \<open>
  What a subscriber does before it receives: send the unsubscription that is due, give up when its
  time is over, and wait for the socket. The result is to return, to start again, or to receive.
\<close>

datatype fill_step = Fill_Return response_status | Fill_Again | Fill_Receive

definition fill_wait :: "cli \<Rightarrow> (fill_step \<times> cli) option" where
  "fill_wait c = do {
     (status, c) \<leftarrow> send_pending_unsubscribe c;
     if status \<noteq> RESPONSE_OK then Some (Fill_Return status, c)
     else do {
       (late, c) \<leftarrow> (if unsubscribe_sent c then deadline_reached c else Some (False, c));
       if late then Some (Fill_Return RESPONSE_INTERRUPTED, c)
       else case os_poll c of [] \<Rightarrow> None
       | answer # os \<Rightarrow> (let c = c\<lparr>os_poll := os\<rparr> in
           case answer of
             Poll_Timeout \<Rightarrow> Some (Fill_Again, c)
           | Poll_Error errno \<Rightarrow>
               Some (if errno = EINTR then Fill_Again else Fill_Return RESPONSE_IO_ERROR, c)
           | Poll_Event readable \<Rightarrow>
               Some (if \<not> readable then Fill_Return RESPONSE_IO_ERROR else Fill_Receive, c)) } }"

text \<open>One call of \<open>recv\<close>: a status to return, or an interruption.\<close>

definition fill_receive :: "cli \<Rightarrow> (response_status option \<times> cli) option" where
  "fill_receive c = (case os_recv c of [] \<Rightarrow> None
     | Inr data # os \<Rightarrow>
         (let received = take READER_SIZE data in
          if received \<noteq> [] then do {
            buffer \<leftarrow> memcpy (rr_buffer (c_reader c)) 0 received;
            Some (Some RESPONSE_OK, c\<lparr>
              c_reader := \<lparr>rr_buffer = buffer, rr_begin = 0, rr_end = length received\<rparr>,
              os_recv := if length data \<le> READER_SIZE then os else Inr (drop READER_SIZE data) # os\<rparr>) }
          else Some (Some RESPONSE_DISCONNECTED, c\<lparr>os_recv := os\<rparr>))
     | Inl errno # os \<Rightarrow>
         Some (if errno \<noteq> EINTR then Some RESPONSE_IO_ERROR else None, c\<lparr>os_recv := os\<rparr>))"

partial_function (option) fill_reader :: "cli \<Rightarrow> (response_status \<times> cli) option" where
  [code]: "fill_reader c = do {
     (next_step, c) \<leftarrow> (if subscription_active c then fill_wait c else Some (Fill_Receive, c));
     case next_step of
       Fill_Return status \<Rightarrow> Some (status, c)
     | Fill_Again \<Rightarrow> fill_reader c
     | Fill_Receive \<Rightarrow> do {
         (status, c) \<leftarrow> fill_receive c;
         case status of Some status \<Rightarrow> Some (status, c) | None \<Rightarrow> fill_reader c } }"

definition refill :: "cli \<Rightarrow> (response_status \<times> cli) option" where
  "refill c = (if rr_begin (c_reader c) = rr_end (c_reader c) then fill_reader c else Some (RESPONSE_OK, c))"

definition advance :: "nat \<Rightarrow> cli \<Rightarrow> cli" where
  "advance n c = c\<lparr>c_reader := (c_reader c)\<lparr>rr_begin := rr_begin (c_reader c) + n\<rparr>\<rparr>"

definition read_byte :: "cli \<Rightarrow> (response_status \<times> char \<times> cli) option" where
  "read_byte c = do {
     (status, c) \<leftarrow> refill c;
     if status \<noteq> RESPONSE_OK then Some (status, NUL, c)
     else do {
       byte \<leftarrow> rd (rr_buffer (c_reader c)) (rr_begin (c_reader c));
       Some (RESPONSE_OK, byte, advance 1 c) } }"

text \<open>The bytes read so far are an argument, the place of the cursor in the output.\<close>

partial_function (option) read_exact ::
    "cli \<Rightarrow> bytes \<Rightarrow> nat \<Rightarrow> (response_status \<times> bytes \<times> cli) option" where
  [code]: "read_exact c out len =
     (if len = 0 then Some (RESPONSE_OK, out, c)
      else do {
        (status, c) \<leftarrow> refill c;
        if status \<noteq> RESPONSE_OK then Some (status, out, c)
        else do {
          let available = rr_end (c_reader c) - rr_begin (c_reader c);
          let chunk = (if available < len then available else len);
          if length (rr_buffer (c_reader c)) < rr_begin (c_reader c) + chunk then None
          else read_exact (advance chunk c)
            (out @ take chunk (drop (rr_begin (c_reader c)) (rr_buffer (c_reader c)))) (len - chunk) } })"

text \<open>The header without its terminator, as the string its reader sees.\<close>

partial_function (option) read_header ::
    "cli \<Rightarrow> bytes \<Rightarrow> nat \<Rightarrow> (response_status \<times> string \<times> cli) option" where
  [code]: "read_header c output capacity = do {
     (status, byte, c) \<leftarrow> read_byte c;
     if status \<noteq> RESPONSE_OK then Some (status, [], c)
     else if byte = LF then
       Some (if output = [] \<or> last output \<noteq> CR then (RESPONSE_PROTOCOL_ERROR, [], c)
             else (RESPONSE_OK, takeWhile (\<lambda>x. x \<noteq> NUL) (butlast output), c))
     else if length output + 1 \<ge> capacity then Some (RESPONSE_PROTOCOL_ERROR, [], c)
     else read_header c (output @ [byte]) capacity }"

section \<open>Rendering\<close>

definition parse_integer :: "string \<Rightarrow> int option" where
  "parse_integer tx =
     (if tx = [] then None
      else let (parsed, stop, erange) = c_strtoll tx
           in if erange \<or> stop \<noteq> length tx then None else Some parsed)"

text \<open>The length of a bulk string, which is \<open>-1\<close> for nil.\<close>

definition bulk_length :: "string \<Rightarrow> int option" where
  "bulk_length header = (case parse_integer header of None \<Rightarrow> None
     | Some n \<Rightarrow> if n < - 1 \<or> n > int KESSEL_CLI_MAX_LINE then None else Some n)"

text \<open>The loop that copies a bulk string to the standard output, in chunks.\<close>

function copy_bulk :: "nat \<Rightarrow> cli \<Rightarrow> (response_status \<times> cli) option" where
  "copy_bulk remaining c =
     (if remaining = 0 then Some (RESPONSE_OK, c)
      else do {
        let chunk = (if remaining < 4096 then remaining else 4096);
        (status, output, c) \<leftarrow> read_exact c [] chunk;
        if status \<noteq> RESPONSE_OK then Some (status, c)
        else do {
          let (ok, c) = put_checked output c;
          if \<not> ok then Some (RESPONSE_IO_ERROR, c)
          else copy_bulk (remaining - chunk) c } })"
  by pat_completeness auto
termination by (relation "measure fst") auto

declare copy_bulk.simps [simp del]

definition read_terminator :: "cli \<Rightarrow> (response_status \<times> cli) option" where
  "read_terminator c = do {
     (status, terminator, c) \<leftarrow> read_exact c [] 2;
     if status \<noteq> RESPONSE_OK then Some (status, c)
     else do {
       x \<leftarrow> rd terminator 0;
       y \<leftarrow> rd terminator 1;
       Some (if x \<noteq> CR \<or> y \<noteq> LF then RESPONSE_PROTOCOL_ERROR else RESPONSE_OK, c) } }"

definition render_bulk :: "string \<Rightarrow> cli \<Rightarrow> (response_status \<times> cli) option" where
  "render_bulk header c = (case bulk_length header of
     None \<Rightarrow> Some (RESPONSE_PROTOCOL_ERROR, c)
   | Some n \<Rightarrow>
       if n = - 1 then Some (RESPONSE_OK, put (''(nil)'' @ [LF]) c)
       else do {
         (status, c) \<leftarrow> copy_bulk (nat n) c;
         if status \<noteq> RESPONSE_OK then Some (status, c)
         else do {
           (status, c) \<leftarrow> read_terminator c;
           if status \<noteq> RESPONSE_OK then Some (status, c)
           else let (ok, c) = put_checked [LF] c
                in Some (if ok then RESPONSE_OK else RESPONSE_IO_ERROR, c) } })"

text \<open>One element of an array: number \<open>i\<close>, preceded by a space unless it is the first.\<close>

definition render_element :: "nat \<Rightarrow> cli \<Rightarrow> (response_status \<times> cli) option" where
  "render_element i c = do {
     (status, type, c) \<leftarrow> read_byte c;
     if status \<noteq> RESPONSE_OK then Some (status, c)
     else if type \<noteq> CHR ''$'' then Some (RESPONSE_PROTOCOL_ERROR, c)
     else do {
       (status, header, c) \<leftarrow> read_header c [] 32;
       if status \<noteq> RESPONSE_OK then Some (status, c)
       else case bulk_length header of
         None \<Rightarrow> Some (RESPONSE_PROTOCOL_ERROR, c)
       | Some n \<Rightarrow> do {
           let (ok, c) = (if i > 0 then put_checked '' '' c else (True, c));
           if \<not> ok then Some (RESPONSE_IO_ERROR, c)
           else if n = - 1 then
             (let (ok, c) = put_checked ''(nil)'' c in Some (if ok then RESPONSE_OK else RESPONSE_IO_ERROR, c))
           else do {
             (status, c) \<leftarrow> copy_bulk (nat n) c;
             if status \<noteq> RESPONSE_OK then Some (status, c) else read_terminator c } } } }"

fun render_elements :: "nat \<Rightarrow> nat \<Rightarrow> cli \<Rightarrow> (response_status \<times> cli) option" where
  "render_elements i 0 c = Some (RESPONSE_OK, c)"
| "render_elements i (Suc n) c = do {
     (status, c) \<leftarrow> render_element i c;
     if status \<noteq> RESPONSE_OK then Some (status, c) else render_elements (Suc i) n c }"

definition render_array :: "string \<Rightarrow> cli \<Rightarrow> (response_status \<times> cli) option" where
  "render_array header c = (case parse_integer header of
     None \<Rightarrow> Some (RESPONSE_PROTOCOL_ERROR, c)
   | Some n \<Rightarrow>
       if n < 0 \<or> n > 16 then Some (RESPONSE_PROTOCOL_ERROR, c)
       else do {
         (status, c) \<leftarrow> render_elements 0 (nat n) c;
         if status \<noteq> RESPONSE_OK then Some (status, c)
         else let (ok, c) = put_checked [LF] c
              in Some (if ok then RESPONSE_OK else RESPONSE_IO_ERROR, c) })"

text \<open>The kind of the response is set before the response is read to its end.\<close>

definition render_response :: "cli \<Rightarrow> (response_status \<times> response_kind option \<times> cli) option" where
  "render_response c = do {
     (status, type, c) \<leftarrow> read_byte c;
     if status \<noteq> RESPONSE_OK then Some (status, None, c)
     else do {
       (status, header, c) \<leftarrow> read_header c [] (KESSEL_CLI_MAX_LINE + 1);
       if status \<noteq> RESPONSE_OK then Some (status, None, c)
       else if type = CHR ''+'' then Some (RESPONSE_OK, Some RESPONSE_KIND_SIMPLE, put (header @ [LF]) c)
       else if type = CHR ''-'' then
         Some (RESPONSE_OK, Some RESPONSE_KIND_ERROR, put (''(error) '' @ header @ [LF]) c)
       else if type = CHR '':'' then
         (case parse_integer header of
            None \<Rightarrow> Some (RESPONSE_PROTOCOL_ERROR, Some RESPONSE_KIND_INTEGER, c)
          | Some v \<Rightarrow> Some (RESPONSE_OK, Some RESPONSE_KIND_INTEGER, put (''(integer) '' @ fmt_int v @ [LF]) c))
       else if type = CHR ''$'' then do {
         (status, c) \<leftarrow> render_bulk header c; Some (status, Some RESPONSE_KIND_BULK, c) }
       else if type = CHR ''*'' then do {
         (status, c) \<leftarrow> render_array header c; Some (status, Some RESPONSE_KIND_ARRAY, c) }
       else Some (RESPONSE_PROTOCOL_ERROR, None, c) } }"

end
