(* ===== verification/Kessel_Cli_Session.thy ===== *)
theory Kessel_Cli_Session
  imports Kessel_Cli
begin

text \<open>
  \<^verbatim>\<open>src/cli/kessel_cli.c\<close>, second part: the input of commands, with and without
  libedit, the commands, the subscription mode and \<open>main\<close>. That the program was built with
  libedit is an argument; its objects are known by their kind, and what is released is returned.
\<close>

section \<open>Lines\<close>

text \<open>The string that a pointer to the first of some bytes denotes for a function on strings.\<close>

definition c_string :: "bytes \<Rightarrow> string" where
  "c_string line = takeWhile (\<lambda>c. c \<noteq> NUL) line"

fun drop_end :: "(char \<Rightarrow> bool) \<Rightarrow> bytes \<Rightarrow> nat \<Rightarrow> nat" where
  "drop_end p line 0 = 0"
| "drop_end p line (Suc n) = (if p (line ! n) then drop_end p line n else Suc n)"

definition is_blank :: "char \<Rightarrow> bool" where
  "is_blank c \<longleftrightarrow> c = SP \<or> c = TAB"

definition is_newline :: "char \<Rightarrow> bool" where
  "is_newline c \<longleftrightarrow> c = LF \<or> c = CR"

definition is_exit_command :: "bytes \<Rightarrow> bool" where
  "is_exit_command line =
     (let line = dropWhile is_blank (take (drop_end (\<lambda>c. is_newline c \<or> is_blank c) line (length line)) line)
      in length line = 4 \<and> c_strncasecmp (c_string line) ''EXIT'' 4 = 0)"

definition command_length :: "bytes \<Rightarrow> nat" where
  "command_length line = drop_end is_newline line (length line)"

definition send_command :: "bytes \<Rightarrow> cli \<Rightarrow> (bool \<times> cli) option" where
  "send_command line c = do {
     (ok, c) \<leftarrow> send_all (take (command_length line) line) c;
     if \<not> ok then Some (False, c) else send_all [CR, LF] c }"

text \<open>The argument of a SUBSCRIBE, as an allocated copy of the bytes after the command.\<close>

definition copy_subscribe_argument :: "allocator \<Rightarrow> bytes \<Rightarrow> cli \<Rightarrow> subscribe_status \<times> bytes option \<times> cli" where
  "copy_subscribe_argument al line c =
     (let line = dropWhile is_blank (take (command_length line) line) in
      if length line \<le> 9 \<or> c_strncasecmp (c_string line) ''SUBSCRIBE'' 9 \<noteq> 0 \<or> \<not> is_blank (line ! 9)
      then (SUBSCRIBE_NOT_COMMAND, None, c)
      else
        let line = dropWhile is_blank (drop 9 line);
            line = take (drop_end is_blank line (length line)) line
        in if line = [] then (SUBSCRIBE_NOT_COMMAND, None, c)
           else let (ok, c) = cli_malloc al Site_cli_argument (length line + 1) c
             in if \<not> ok then (SUBSCRIBE_NO_MEMORY, None, c) else (SUBSCRIBE_COMMAND, Some line, c))"

section \<open>Subscription mode\<close>

partial_function (option) wait_for_subscription_data :: "cli \<Rightarrow> (response_status \<times> cli) option" where
  [code]: "wait_for_subscription_data c =
     (if rr_begin (c_reader c) \<noteq> rr_end (c_reader c) then Some (RESPONSE_OK, c)
      else
        let (interrupted, c) = look c in
        if interrupted then Some (RESPONSE_OK, c)
        else case os_poll c of [] \<Rightarrow> None
        | answer # os \<Rightarrow>
            if (case answer of Poll_Timeout \<Rightarrow> False | Poll_Error errno \<Rightarrow> errno \<noteq> EINTR
                | Poll_Event readable \<Rightarrow> \<not> readable)
            then Some (RESPONSE_IO_ERROR, c\<lparr>os_poll := os\<rparr>)
            else wait_for_subscription_data (c\<lparr>os_poll := os\<rparr>))"

text \<open>The messages until an interruption, then the responses until that of the unsubscription.\<close>

partial_function (option) message_loop :: "bool \<Rightarrow> cli \<Rightarrow> (response_status \<times> cli) option" where
  [code]: "message_loop response_interrupted c =
     (let (interrupted, c) = look c in
      if interrupted \<or> response_interrupted then Some (RESPONSE_OK, c)
      else do {
        (status, c) \<leftarrow> wait_for_subscription_data c;
        if status \<noteq> RESPONSE_OK then Some (status, c)
        else
          let (interrupted, c) = look c in
          if interrupted then Some (RESPONSE_OK, c)
          else do {
            (status, kind, c) \<leftarrow> render_response c;
            if status \<noteq> RESPONSE_OK then Some (status, c)
            else message_loop response_interrupted c } })"

partial_function (option) drain_loop :: "cli \<Rightarrow> (response_status \<times> cli) option" where
  [code]: "drain_loop c = do {
     (status, kind, c) \<leftarrow> render_response c;
     if status \<noteq> RESPONSE_OK \<or> kind = Some RESPONSE_KIND_INTEGER \<or> kind = Some RESPONSE_KIND_ERROR
     then Some (status, c) else drain_loop c }"

definition run_subscription :: "bool \<Rightarrow> cli \<Rightarrow> (response_status \<times> cli) option" where
  "run_subscription response_interrupted c = do {
     (status, c) \<leftarrow> message_loop response_interrupted c;
     let (interrupted, c) = (if status = RESPONSE_OK then look c else (False, c));
     if interrupted \<or> response_interrupted then do {
       (status, c) \<leftarrow> send_pending_unsubscribe c;
       if status = RESPONSE_OK then drain_loop c else Some (status, c) }
     else Some (status, c) }"

definition report_response_error :: "string \<Rightarrow> response_status \<Rightarrow> cli \<Rightarrow> cli" where
  "report_response_error error_text status c =
     (if status = RESPONSE_DISCONNECTED then complain (''kessel-cli: server disconnected'' @ [LF]) c
      else if status = RESPONSE_PROTOCOL_ERROR then complain (''kessel-cli: invalid response from server'' @ [LF]) c
      else if status \<noteq> RESPONSE_INTERRUPTED
      then complain (''kessel-cli: connection error: '' @ error_text @ [LF]) c
      else c)"

section \<open>The input\<close>

text \<open>
  The state of the input: whether the buffer of \<open>getline\<close>, the editor and the history exist, the
  size and the entries of the history, and the prompt and the mode of the editor.
\<close>

record input_t =
  in_line :: bool
  in_editor :: bool
  in_history :: bool
  in_history_size :: nat
  in_entered :: "bytes list"
  in_mode :: string
  in_uses_history :: bool
  in_prompt :: string

datatype input_object = Obj_line | Obj_editor | Obj_history

definition prompt :: string where
  "prompt = ''kessel> ''"

text \<open>Whether \<open>history_init\<close> and \<open>el_init\<close> succeed is given. The last result is what was released.\<close>

definition input_init :: "bool \<Rightarrow> bool \<times> bool \<Rightarrow> bool \<Rightarrow> int \<times> input_t \<times> input_object list" where
  "input_init libedit answers interactive =
     (let input = \<lparr>in_line = False, in_editor = False, in_history = False, in_history_size = 0,
        in_entered = [], in_mode = [], in_uses_history = False, in_prompt = []\<rparr>
      in if \<not> libedit \<or> \<not> interactive then (0, input, [])
         else
           let input = input\<lparr>in_history := fst answers, in_editor := snd answers\<rparr>
           in if \<not> in_history input \<or> \<not> in_editor input
              then (- 1, input, (if in_editor input then [Obj_editor] else []) @
                                (if in_history input then [Obj_history] else []))
              else (0, input\<lparr>in_history_size := 100, in_mode := ''emacs'', in_uses_history := True\<rparr>, []))"

definition input_destroy :: "input_t \<Rightarrow> input_object list" where
  "input_destroy input =
     (if in_editor input then [Obj_editor] else []) @ (if in_history input then [Obj_history] else []) @
     (if in_line input then [Obj_line] else [])"

text \<open>
  The next line, from \<open>el_gets\<close> or \<open>getline\<close>: \<open>answer\<close> is what this gives. \<open>getline\<close> has
  allocated its buffer also when it gives no line.
\<close>

definition input_read ::
    "bool \<Rightarrow> bool \<Rightarrow> bytes option \<Rightarrow> input_t \<Rightarrow> cli \<Rightarrow> bytes option \<times> input_t \<times> cli" where
  "input_read libedit interactive answer input c =
     (if libedit \<and> interactive then
        let input = input\<lparr>in_prompt := prompt\<rparr> in
        case answer of None \<Rightarrow> (None, input, c)
        | Some line \<Rightarrow>
            (Some line, if length line > 1 then input\<lparr>in_entered := in_entered input @ [line]\<rparr> else input, c)
      else
        let c = (if interactive then put ''kessel> '' c else c)
        in (answer, input\<lparr>in_line := True\<rparr>, c))"

section \<open>One command\<close>

definition EXIT_SUCCESS :: int where "EXIT_SUCCESS = 0"
definition EXIT_FAILURE :: int where "EXIT_FAILURE = 1"

text \<open>The answers for one round: the allocator, \<open>signal\<close>, and \<open>strerror\<close> for the last error.\<close>

record turn_os =
  to_alloc :: allocator
  to_signal_ok :: bool
  to_error_text :: string

definition release_argument :: "bytes option \<Rightarrow> cli \<Rightarrow> cli" where
  "release_argument p = cli_free (if p = None then None else Some Site_cli_argument)"

definition release_unsubscribe :: "bytes option \<Rightarrow> cli \<Rightarrow> cli" where
  "release_unsubscribe p = cli_free (if p = None then None else Some Site_cli_unsubscribe)"

text \<open>Entering the subscription mode: the command that leaves it, unless this is not possible.\<close>

definition prepare_subscription :: "turn_os \<Rightarrow> bytes \<Rightarrow> cli \<Rightarrow> bytes option \<times> sighandler \<times> cli" where
  "prepare_subscription os argument c =
     (let capacity = length (c_string argument) + 15;
          (ok, c) = cli_malloc (to_alloc os) Site_cli_unsubscribe capacity c
      in if \<not> ok then
           let c = release_argument (Some argument) c
           in (None, SIG_DFL, complain (''kessel-cli: cannot allocate subscription command'' @ [LF]) c)
         else
           let unsubscribe = ''UNSUBSCRIBE '' @ c_string argument @ [CR, LF]
           in if length unsubscribe \<ge> capacity then
                let c = release_unsubscribe (Some unsubscribe) c;
                    c = release_argument (Some argument) c
                in (None, SIG_DFL, complain (''kessel-cli: cannot prepare subscription command'' @ [LF]) c)
              else
                let c = c\<lparr>subscription_interrupted := False, unsubscribe_sent := False,
                      unsubscribe_command := Some unsubscribe, subscription_active := True\<rparr>
                in if to_signal_ok os
                   then (Some unsubscribe, sigint_handler c, c\<lparr>sigint_handler := Handle_subscription_interrupt\<rparr>)
                   else
                     let c = c\<lparr>subscription_active := False, unsubscribe_command := None\<rparr>;
                         c = release_unsubscribe (Some unsubscribe) c;
                         c = release_argument (Some argument) c
                     in (None, SIG_DFL, complain (''kessel-cli: cannot install interrupt handler'' @ [LF]) c))"

text \<open>The response, and the subscription mode when a SUBSCRIBE succeeded.\<close>

definition answer_turn :: "bool \<Rightarrow> sighandler \<Rightarrow> cli \<Rightarrow> (response_status \<times> cli) option" where
  "answer_turn subscribing previous_sigint c = do {
     (status, kind, c) \<leftarrow> render_response c;
     let response_interrupted = (status = RESPONSE_INTERRUPTED);
     if \<not> subscribing then Some (status, c)
     else do {
       let (go, c) = (if status = RESPONSE_OK
         then if kind = Some RESPONSE_KIND_SIMPLE then (True, c) else look c
         else (False, c));
       (status, c) \<leftarrow> (if go \<or> response_interrupted then run_subscription response_interrupted c
                       else Some (status, c));
       Some (status, c\<lparr>sigint_handler := previous_sigint, subscription_active := False,
         subscription_interrupted := False, unsubscribe_sent := False, unsubscribe_command := None\<rparr>) } }"

text \<open>From the sending of a command to the release of what it needed.\<close>

definition exchange ::
    "turn_os \<Rightarrow> bytes \<Rightarrow> bytes option \<Rightarrow> bytes option \<Rightarrow> sighandler \<Rightarrow> cli \<Rightarrow> (int option \<times> cli) option" where
  "exchange os line subscribe_argument unsubscribe previous_sigint c = do {
     let subscribing = (subscribe_argument \<noteq> None);
     (sent, c) \<leftarrow> send_command line c;
     if \<not> sent then do {
       let c = (if subscribing
         then c\<lparr>sigint_handler := previous_sigint, subscription_active := False, unsubscribe_command := None\<rparr> else c);
       let c = release_unsubscribe unsubscribe c;
       let c = release_argument subscribe_argument c;
       Some (Some EXIT_FAILURE, complain (''kessel-cli: connection error: '' @ to_error_text os @ [LF]) c) }
     else do {
       (status, c) \<leftarrow> answer_turn subscribing previous_sigint c;
       let c = release_unsubscribe unsubscribe c;
       let c = release_argument subscribe_argument c;
       Some (if status = RESPONSE_INTERRUPTED then (Some EXIT_SUCCESS, c)
             else if status \<noteq> RESPONSE_OK
             then (Some EXIT_FAILURE, report_response_error (to_error_text os) status c)
             else (None, c)) } }"

text \<open>The body of the loop of \<open>main\<close> for a line: to go on, or to leave the loop with an exit code.\<close>

definition turn :: "turn_os \<Rightarrow> bytes \<Rightarrow> cli \<Rightarrow> (int option \<times> cli) option" where
  "turn os line c =
     (if is_exit_command line then Some (Some EXIT_SUCCESS, c)
      else if command_length line = 0 then Some (None, c)
      else if command_length line > KESSEL_CLI_MAX_LINE
      then Some (None, complain (''kessel-cli: command exceeds 64 KiB'' @ [LF]) c)
      else
        let (subscribe_status, subscribe_argument, c) = copy_subscribe_argument (to_alloc os) line c
        in if subscribe_status = SUBSCRIBE_NO_MEMORY
           then Some (Some EXIT_FAILURE, complain (''kessel-cli: cannot allocate subscription command'' @ [LF]) c)
           else case subscribe_argument of
             None \<Rightarrow> exchange os line None None SIG_DFL c
           | Some argument \<Rightarrow>
               let (unsubscribe, previous_sigint, c) = prepare_subscription os argument c
               in if unsubscribe = None then Some (Some EXIT_FAILURE, c)
                  else exchange os line subscribe_argument unsubscribe previous_sigint c)"

section \<open>The program\<close>

record session_env =
  se_libedit :: bool
  se_program :: string
  se_args :: "string list"
  se_resolver :: resolver_os
  se_strerror :: "connect_errno \<Rightarrow> string"
  se_interactive :: bool
  se_editor :: "bool \<times> bool"
  se_lines :: "bytes list"
  se_input_error :: bool
  se_turn :: "nat \<Rightarrow> turn_os"
  se_cli :: cli

fun session_loop :: "session_env \<Rightarrow> nat \<Rightarrow> bytes list \<Rightarrow> input_t \<Rightarrow> cli \<Rightarrow> (int \<times> input_t \<times> cli) option" where
  "session_loop se n [] input c =
     (let (line, input, c) = input_read (se_libedit se) (se_interactive se) None input c
      in if se_input_error se
         then Some (EXIT_FAILURE, input, complain (''kessel-cli: cannot read command'' @ [LF]) c)
         else Some (EXIT_SUCCESS, input, c))"
| "session_loop se n (line # lines) input c = do {
     let (line', input, c) = input_read (se_libedit se) (se_interactive se) (Some line) input c;
     (stop, c) \<leftarrow> turn (se_turn se n) line c;
     case stop of Some code \<Rightarrow> Some (code, input, c) | None \<Rightarrow> session_loop se (Suc n) lines input c }"

text \<open>The state at the start: the file-scope variables as C initialises them, nothing written.\<close>

definition start_cli :: "cli \<Rightarrow> cli" where
  "start_cli c = c\<lparr>c_reader := \<lparr>rr_buffer = replicate READER_SIZE NUL, rr_begin = 0, rr_end = 0\<rparr>,
     subscription_interrupted := False, subscription_active := False, unsubscribe_sent := False,
     unsubscribe_command := None, cli_heap := [], cli_fault := False, cli_stdout := [], cli_stderr := [], cli_sent := []\<rparr>"

definition print_all :: "(bool \<times> string) list \<Rightarrow> cli \<Rightarrow> cli" where
  "print_all printed c = fold (\<lambda>(out, tx). if out then put tx else complain tx) printed c"

text \<open>The exit code, the descriptors closed, the objects of the input released, the final state.\<close>

record main_result =
  mr_code :: int
  mr_closed :: "int list"
  mr_released :: "input_object list"
  mr_cli :: cli

definition cli_main :: "session_env \<Rightarrow> main_result option" where
  "cli_main se =
     (let (argument_status, config, printed) = parse_args_cli (se_program se) (se_args se);
          c = print_all printed (start_cli (se_cli se))
      in if argument_status \<noteq> 0
         then Some \<lparr>mr_code = if argument_status > 0 then EXIT_SUCCESS else EXIT_FAILURE,
                    mr_closed = [], mr_released = [], mr_cli = c\<rparr>
         else
           let c = c\<lparr>sigpipe_handler := SIG_IGN\<rparr>;
               (fd, closed, message) = connect_to_server (se_strerror se) config (se_resolver se);
               c = complain message c
           in if fd < 0
              then Some \<lparr>mr_code = EXIT_FAILURE, mr_closed = closed, mr_released = [], mr_cli = c\<rparr>
              else
                let (input_status, input, released) =
                      input_init (se_libedit se) (se_editor se) (se_interactive se)
                in if input_status \<noteq> 0
                   then Some \<lparr>mr_code = EXIT_FAILURE, mr_closed = closed @ [fd], mr_released = released,
                     mr_cli = complain (''kessel-cli: cannot initialize command input'' @ [LF]) c\<rparr>
                   else do {
                     (code, input, c) \<leftarrow> session_loop se 0 (se_lines se) input c;
                     Some \<lparr>mr_code = code, mr_closed = closed @ [fd], mr_released = input_destroy input,
                           mr_cli = c\<rparr> })"

end
