(* ===== verification/Kessel_Cli_Reader.thy ===== *)
theory Kessel_Cli_Reader
  imports Kessel_Cli_Session
begin

text \<open>
  The buffered reader of the client against the byte stream it stands for. The bytes arrive in
  pieces of any size, with interruptions in between; what the reader returns, and what is printed
  of a response, depends only on the stream. The reference is a decoder on byte lists.
\<close>

section \<open>The stream\<close>

definition piece :: "recv_answer \<Rightarrow> bytes" where
  "piece a = (case a of Inr data \<Rightarrow> data | Inl errno \<Rightarrow> [])"

definition unread :: "cli \<Rightarrow> bytes" where
  "unread c = drop (rr_begin (c_reader c)) (take (rr_end (c_reader c)) (rr_buffer (c_reader c))) @
     concat (map piece (os_recv c))"

text \<open>
  An answer of \<open>poll\<close> that is no failure: nothing yet, an interruption, or data. And those that
  report data; how often at most \<open>recv\<close> can be called.
\<close>

definition harmless :: "poll_answer \<Rightarrow> bool" where
  "harmless answer = (case answer of Poll_Timeout \<Rightarrow> True | Poll_Error errno \<Rightarrow> errno = EINTR | Poll_Event readable \<Rightarrow> readable)"

definition events :: "poll_answer list \<Rightarrow> nat" where
  "events ps = length (filter (\<lambda>a. a = Poll_Event True) ps)"

definition recv_work :: "recv_answer list \<Rightarrow> nat" where
  "recv_work os = sum_list (map (\<lambda>a. case a of Inl errno \<Rightarrow> 1 | Inr data \<Rightarrow> length data) os)"

lemma recv_work_Cons [simp]:
  "recv_work (Inl e # os) = Suc (recv_work os)" "recv_work (Inr d # os) = length d + recv_work os"
  by (simp_all add: recv_work_def)

definition early :: "timespec \<Rightarrow> timespec option \<Rightarrow> bool" where
  "early deadline now = (case now of None \<Rightarrow> False
     | Some (s, n) \<Rightarrow> s < fst deadline \<or> s = fst deadline \<and> n < snd deadline)"

text \<open>
  In the subscription mode, once the unsubscription is sent: the clock does not reach the deadline
  and \<open>poll\<close> reports data often enough.
\<close>

definition attended :: "cli \<Rightarrow> bool" where
  "attended c \<longleftrightarrow> (subscription_active c \<longrightarrow> unsubscribe_sent c \<and>
     (\<forall>t \<in> set (os_clock c). early (unsubscribe_deadline c) t) \<and> (\<forall>a \<in> set (os_poll c). harmless a) \<and>
     recv_work (os_recv c) \<le> events (os_poll c) \<and> length (os_poll c) \<le> length (os_clock c))"

text \<open>A socket that delivers, and an output that works.\<close>

definition flows :: "cli \<Rightarrow> bool" where
  "flows c \<longleftrightarrow> attended c \<and> length (rr_buffer (c_reader c)) = READER_SIZE \<and>
     rr_begin (c_reader c) \<le> rr_end (c_reader c) \<and> rr_end (c_reader c) \<le> READER_SIZE \<and>
     (\<forall>a \<in> set (os_recv c). a = Inl EINTR \<or> (\<exists>d. a = Inr d \<and> d \<noteq> [])) \<and> os_stdout c = (\<lambda>n. True)"

text \<open>From \<open>c\<close> to \<open>c'\<close> the stream was read up to \<open>rest\<close> and \<open>tx\<close> was printed, nothing else happened.\<close>

definition printed :: "cli \<Rightarrow> bytes \<Rightarrow> bytes \<Rightarrow> cli \<Rightarrow> bool" where
  "printed c tx rest c' \<longleftrightarrow> flows c' \<and> unread c' = rest \<and>
     c' = c\<lparr>c_reader := c_reader c', os_recv := os_recv c', cli_stdout := cli_stdout c @ tx, os_writes := os_writes c',
       subscription_interrupted := subscription_interrupted c', os_looks := os_looks c', os_clock := os_clock c',
       os_poll := os_poll c'\<rparr>"

lemma printedI:
  assumes "flows c'" "unread c' = rest"
    "c' = c\<lparr>c_reader := r, os_recv := os, cli_stdout := cli_stdout c @ tx, os_writes := w,
      subscription_interrupted := i, os_looks := k, os_clock := ts, os_poll := ps\<rparr>"
  shows "printed c tx rest c'"
  using assms(1,2) unfolding printed_def assms(3) by simp

lemma printedE:
  assumes "printed c tx rest c'"
  obtains r os w i k ts ps where "flows c'" "unread c' = rest"
    "c' = c\<lparr>c_reader := r, os_recv := os, cli_stdout := cli_stdout c @ tx, os_writes := w,
      subscription_interrupted := i, os_looks := k, os_clock := ts, os_poll := ps\<rparr>"
  using assms unfolding printed_def by blast

lemma printedD: "printed c tx rest c' \<Longrightarrow> flows c' \<and> unread c' = rest"
  by (simp add: printed_def)

lemma printed_stdout:
  "printed c tx rest c' \<Longrightarrow> cli_stdout c' = cli_stdout c @ tx" "printed c tx rest c' \<Longrightarrow> cli_sent c' = cli_sent c"
  by (elim printedE, hypsubst, simp)+

lemma printed_refl: "flows c \<Longrightarrow> printed c [] (unread c) c"
  by (simp add: printed_def)

lemma printed_trans: "printed c tx rest c' \<Longrightarrow> printed c' tx' rest' c'' \<Longrightarrow> printed c (tx @ tx') rest' c''"
  by (elim printedE) (rule printedI, assumption+, simp)

lemma flows_output [simp]:
  "flows (c\<lparr>cli_stdout := x\<rparr>) = flows c" "unread (c\<lparr>cli_stdout := x\<rparr>) = unread c"
  "flows (c\<lparr>os_writes := n\<rparr>) = flows c" "unread (c\<lparr>os_writes := n\<rparr>) = unread c"
  by (simp_all add: flows_def attended_def unread_def)

lemma printed_put: "flows c \<Longrightarrow> printed c tx (unread c) (put tx c)"
  by (simp add: printed_def put_def)

lemma put_checked_ok:
  assumes "flows c"
  obtains c' where "put_checked tx c = (True, c')" "printed c tx (unread c) c'"
proof -
  have "printed c tx (unread c) (put tx c\<lparr>os_writes := Suc (os_writes c)\<rparr>)"
    using assms by (simp add: printed_def put_def)
  with assms show thesis by (intro that) (simp_all add: put_checked_def flows_def attended_def Let_def)
qed

section \<open>Reading\<close>

text \<open>One round of \<open>fill_reader\<close>, from the call of \<open>recv\<close> on.\<close>

definition receive :: "cli \<Rightarrow> (response_status \<times> cli) option" where
  "receive c = do {
     (status, c) \<leftarrow> fill_receive c;
     case status of Some status \<Rightarrow> Some (status, c) | None \<Rightarrow> fill_reader c }"

lemma fill_reader_step:
  "fill_reader c = do {
     (next_step, c) \<leftarrow> (if subscription_active c then fill_wait c else Some (Fill_Receive, c));
     case next_step of Fill_Return status \<Rightarrow> Some (status, c) | Fill_Again \<Rightarrow> fill_reader c | Fill_Receive \<Rightarrow> receive c }"
  unfolding receive_def by (rule fill_reader.simps)

text \<open>In the subscription mode, \<open>poll\<close> is called until it reports data.\<close>

lemma fill_reader_active:
  assumes "subscription_active c" "unsubscribe_sent c" "\<forall>t \<in> set (os_clock c). early (unsubscribe_deadline c) t"
    and "\<forall>a \<in> set (os_poll c). harmless a" "length (os_poll c) \<le> length (os_clock c)"
  shows "events (os_poll c) = 0 \<and> fill_reader c = None \<or> (\<exists>i k ts ps. events (os_poll c) = Suc (events ps) \<and>
    length ps \<le> length ts \<and> set ts \<subseteq> set (os_clock c) \<and> set ps \<subseteq> set (os_poll c) \<and>
    fill_reader c = receive (c\<lparr>subscription_interrupted := i, os_looks := k, os_clock := ts, os_poll := ps\<rparr>))"
  using assms
proof (induction "os_poll c" arbitrary: c)
  case Nil
  obtain i c1 where l: "look c = (i, c1)" by (rule prod.exhaust)
  then have c1: "c1 = c\<lparr>subscription_interrupted := i, os_looks := Suc (os_looks c)\<rparr>" by (auto simp: look_def Let_def)
  have "fill_wait c = None"
  proof (cases "os_clock c")
    case (Cons t ts)
    then have "early (unsubscribe_deadline c) t" using Nil.prems(3) by simp
    then show ?thesis using l Nil.prems(2) Nil.hyps Cons
      by (auto simp: fill_wait_def send_pending_unsubscribe_def c1 deadline_reached_def clock_gettime_def early_def
          split: option.splits)
  qed (use l Nil.prems(2) in \<open>simp add: fill_wait_def send_pending_unsubscribe_def c1 deadline_reached_def clock_gettime_def\<close>)
  then show ?case using Nil.prems(1) Nil.hyps by (subst (1 2) fill_reader_step) (simp add: events_def)
next
  case (Cons a os)
  obtain i c1 where l: "look c = (i, c1)" by (rule prod.exhaust)
  then have c1: "c1 = c\<lparr>subscription_interrupted := i, os_looks := Suc (os_looks c)\<rparr>" by (auto simp: look_def Let_def)
  from Cons.hyps(2) have os: "os_poll c = a # os" by simp
  with Cons.prems(5) obtain t ts where t: "os_clock c = t # ts" "length os \<le> length ts" by (cases "os_clock c") auto
  then have e: "early (unsubscribe_deadline c) t" using Cons.prems(3) by simp
  let ?c = "c\<lparr>subscription_interrupted := i, os_looks := Suc (os_looks c), os_clock := ts, os_poll := os\<rparr>"
  have h: "harmless a" using Cons.prems(4) os by simp
  have w: "fill_wait c = Some (if a = Poll_Event True then Fill_Receive else Fill_Again, ?c)"
    using l Cons.prems(2) os t(1) e h
    by (auto simp: fill_wait_def send_pending_unsubscribe_def c1 deadline_reached_def clock_gettime_def early_def harmless_def
        split: option.splits poll_answer.splits)
  show ?case
  proof (cases "a = Poll_Event True")
    case True
    with w Cons.prems(1) have "fill_reader c = receive ?c" by (subst fill_reader_step) simp
    with True os t show ?thesis
      by (intro disjI2 exI [of _ i] exI [of _ "Suc (os_looks c)"] exI [of _ ts] exI [of _ os]) (auto simp: events_def)
  next
    case False
    with w Cons.prems(1) have run: "fill_reader c = fill_reader ?c" by (subst fill_reader_step) simp
    have ev: "events (os_poll c) = events os" using os False by (simp add: events_def)
    have "events (os_poll ?c) = 0 \<and> fill_reader ?c = None \<or> (\<exists>i k ts ps. events (os_poll ?c) = Suc (events ps) \<and>
        length ps \<le> length ts \<and> set ts \<subseteq> set (os_clock ?c) \<and> set ps \<subseteq> set (os_poll ?c) \<and>
        fill_reader ?c = receive (?c\<lparr>subscription_interrupted := i, os_looks := k, os_clock := ts, os_poll := ps\<rparr>))"
      by (rule Cons.hyps(1)) (use Cons.prems os t in simp_all)
    then show ?thesis
    proof (elim disjE exE conjE)
      fix i' k' ts' ps'
      assume a: "events (os_poll ?c) = Suc (events ps')" "length ps' \<le> length ts'" "set ts' \<subseteq> set (os_clock ?c)"
        "set ps' \<subseteq> set (os_poll ?c)"
        "fill_reader ?c = receive (?c\<lparr>subscription_interrupted := i', os_looks := k', os_clock := ts', os_poll := ps'\<rparr>)"
      then show ?thesis using run ev os t(1)
        by (intro disjI2 exI [of _ i'] exI [of _ k'] exI [of _ ts'] exI [of _ ps']) auto
    qed (use run ev in simp)
  qed
qed

lemma unchanged: "c\<lparr>subscription_interrupted := subscription_interrupted c, os_looks := os_looks c, os_clock := os_clock c,
    os_poll := os_poll c\<rparr> = c"
  by (cases c) simp

lemma fill_round_inactive:
  assumes "\<not> subscription_active c"
  shows "\<exists>i k ts ps. fill_reader c = receive (c\<lparr>subscription_interrupted := i, os_looks := k, os_clock := ts, os_poll := ps\<rparr>) \<and>
    (\<forall>os r. recv_work os < recv_work (os_recv c) \<longrightarrow>
       attended (c\<lparr>subscription_interrupted := i, os_looks := k, os_clock := ts, os_poll := ps, c_reader := r, os_recv := os\<rparr>))"
proof -
  have 1: "fill_reader c = receive c" by (subst fill_reader_step) (simp add: assms)
  show ?thesis
    by (rule exI [of _ "subscription_interrupted c"], rule exI [of _ "os_looks c"], rule exI [of _ "os_clock c"],
        rule exI [of _ "os_poll c"], unfold unchanged) (simp add: 1 attended_def assms)
qed

lemma fill_round_active:
  assumes "flows c" "subscription_active c"
  shows "fill_reader c = None \<and> os_recv c = [] \<or> (\<exists>i k ts ps.
    fill_reader c = receive (c\<lparr>subscription_interrupted := i, os_looks := k, os_clock := ts, os_poll := ps\<rparr>) \<and>
    (\<forall>os r. recv_work os < recv_work (os_recv c) \<longrightarrow>
       attended (c\<lparr>subscription_interrupted := i, os_looks := k, os_clock := ts, os_poll := ps, c_reader := r, os_recv := os\<rparr>)))"
proof -
  from assms have a: "unsubscribe_sent c" "\<forall>t \<in> set (os_clock c). early (unsubscribe_deadline c) t"
    "\<forall>a \<in> set (os_poll c). harmless a" "length (os_poll c) \<le> length (os_clock c)"
    "recv_work (os_recv c) \<le> events (os_poll c)"
    and r: "\<forall>a \<in> set (os_recv c). a = Inl EINTR \<or> (\<exists>d. a = Inr d \<and> d \<noteq> [])"
    unfolding flows_def attended_def by blast+
  from fill_reader_active [OF assms(2) a(1-4)] show ?thesis
  proof (elim disjE exE conjE)
    assume e: "events (os_poll c) = 0" and n: "fill_reader c = None"
    have "os_recv c = []"
    proof (cases "os_recv c")
      case (Cons x xs)
      then have "x = Inl EINTR \<or> (\<exists>d. x = Inr d \<and> d \<noteq> [])" using r by simp
      then have "recv_work (os_recv c) > 0" unfolding Cons by (elim disjE exE conjE) simp_all
      with a(5) e show ?thesis by simp
    qed
    with n show ?thesis by blast
  next
    fix i k ts ps
    assume e: "events (os_poll c) = Suc (events ps)" and l: "length ps \<le> length ts" and ts: "set ts \<subseteq> set (os_clock c)"
      and ps: "set ps \<subseteq> set (os_poll c)"
      and f: "fill_reader c = receive (c\<lparr>subscription_interrupted := i, os_looks := k, os_clock := ts, os_poll := ps\<rparr>)"
    have t: "\<forall>t \<in> set ts. early (unsubscribe_deadline c) t" "\<forall>a \<in> set ps. harmless a" using a(2,3) ts ps by blast+
    have w: "recv_work os \<le> events ps" if "recv_work os < recv_work (os_recv c)" for os using that a(5) e by simp
    have "attended (c\<lparr>subscription_interrupted := i, os_looks := k, os_clock := ts, os_poll := ps, c_reader := r, os_recv := os\<rparr>)"
      if "recv_work os < recv_work (os_recv c)" for os r
      unfolding attended_def using t w [OF that] a(1) l by simp
    with f show ?thesis by blast
  qed
qed

lemma fill_round:
  assumes "flows c"
  obtains "fill_reader c = None" "os_recv c = []"
  | i k ts ps where "fill_reader c = receive (c\<lparr>subscription_interrupted := i, os_looks := k, os_clock := ts, os_poll := ps\<rparr>)"
    "\<And>os r. recv_work os < recv_work (os_recv c) \<Longrightarrow>
       attended (c\<lparr>subscription_interrupted := i, os_looks := k, os_clock := ts, os_poll := ps, c_reader := r, os_recv := os\<rparr>)"
proof (cases "subscription_active c")
  case False
  from fill_round_inactive [OF this] show thesis
  proof (elim exE conjE)
    fix i k ts ps
    assume f: "fill_reader c = receive (c\<lparr>subscription_interrupted := i, os_looks := k, os_clock := ts, os_poll := ps\<rparr>)"
      and a: "\<forall>os r. recv_work os < recv_work (os_recv c) \<longrightarrow>
        attended (c\<lparr>subscription_interrupted := i, os_looks := k, os_clock := ts, os_poll := ps, c_reader := r, os_recv := os\<rparr>)"
    show thesis by (rule that(2) [OF f]) (rule a [rule_format])
  qed
next
  case True
  from fill_round_active [OF assms True] show thesis
  proof (elim disjE exE conjE)
    assume "fill_reader c = None" "os_recv c = []"
    then show thesis by (rule that(1))
  next
    fix i k ts ps
    assume f: "fill_reader c = receive (c\<lparr>subscription_interrupted := i, os_looks := k, os_clock := ts, os_poll := ps\<rparr>)"
      and a: "\<forall>os r. recv_work os < recv_work (os_recv c) \<longrightarrow>
        attended (c\<lparr>subscription_interrupted := i, os_looks := k, os_clock := ts, os_poll := ps, c_reader := r, os_recv := os\<rparr>)"
    show thesis by (rule that(2) [OF f]) (rule a [rule_format])
  qed
qed

lemma fill_reader_flows:
  assumes "flows c" "rr_begin (c_reader c) = rr_end (c_reader c)"
  shows "if unread c = [] then fill_reader c = None
    else \<exists>c'. fill_reader c = Some (RESPONSE_OK, c') \<and> printed c [] (unread c) c' \<and>
      rr_begin (c_reader c') < rr_end (c_reader c')"
  using assms
proof (induction "recv_work (os_recv c)" arbitrary: c rule: less_induct)
  case less
  from less.prems(1) show ?case
  proof (cases rule: fill_round)
    case 1
    then show ?thesis using less.prems(2) by (simp add: unread_def)
  next
    case (2 i k ts ps)
    let ?c1 = "c\<lparr>subscription_interrupted := i, os_looks := k, os_clock := ts, os_poll := ps\<rparr>"
    show ?thesis
    proof (cases "os_recv c")
      case Nil
      with 2(1) less.prems(2) show ?thesis by (simp add: receive_def fill_receive_def unread_def)
    next
      case (Cons a os)
      note recv = less.prems(1) [unfolded flows_def]
      show ?thesis
      proof (cases a)
        case (Inl errno)
        let ?c = "?c1\<lparr>os_recv := os\<rparr>"
        from recv Inl Cons have e: "errno = EINTR" by auto
        have w: "recv_work os < recv_work (os_recv c)" using Cons Inl by simp
        from 2(2) [OF w, of "c_reader c"] have "attended ?c" by (simp add: attended_def)
        then have f: "flows ?c" "unread ?c = unread c" using less.prems Cons Inl by (auto simp: flows_def unread_def piece_def)
        have run: "fill_reader c = fill_reader ?c" using 2(1) Cons Inl e by (simp add: receive_def fill_receive_def)
        have p: "printed c [] rest c'" if "printed ?c [] rest c'" for c' rest
          using that by (elim printedE) (rule printedI, assumption+, simp)
        have "if unread ?c = [] then fill_reader ?c = None else \<exists>c'. fill_reader ?c = Some (RESPONSE_OK, c') \<and>
            printed ?c [] (unread ?c) c' \<and> rr_begin (c_reader c') < rr_end (c_reader c')"
          by (rule less.hyps) (use w f(1) less.prems(2) in simp_all)
        then show ?thesis using run f(2) p by (auto split: if_splits)
      next
        case (Inr data)
        from recv Inr Cons have ne: "data \<noteq> []" by auto
        let ?r = "take READER_SIZE data" and ?b = "rr_buffer (c_reader c)"
        let ?os = "if length data \<le> READER_SIZE then os else Inr (drop READER_SIZE data) # os"
        let ?rd = "\<lparr>rr_buffer = ?r @ drop (length ?r) ?b, rr_begin = 0, rr_end = length ?r\<rparr>"
        let ?c = "?c1\<lparr>c_reader := ?rd, os_recv := ?os\<rparr>"
        have len: "length ?b = READER_SIZE" "0 < READER_SIZE" using recv by (simp_all add: READER_SIZE_def)
        have run: "fill_reader c = Some (RESPONSE_OK, ?c)"
          using 2(1) Cons Inr ne len by (simp add: receive_def fill_receive_def memcpy_def Let_def)
        have "recv_work ?os < recv_work (os_recv c)" using Cons Inr ne len(2) by (cases data) simp_all
        then have "attended ?c" using 2(2) by blast
        then have "flows ?c" using less.prems(1) Cons Inr len(1) by (auto simp: flows_def)
        moreover have u: "unread ?c = unread c" using less.prems(2) Cons Inr by (auto simp: unread_def piece_def)
        ultimately have "printed c [] (unread c) ?c" by (simp add: printed_def)
        moreover have "unread c \<noteq> []" using Cons Inr ne by (simp add: unread_def piece_def)
        ultimately show ?thesis using run ne len(2) by simp
      qed
    qed
  qed
qed

lemma refill_flows:
  assumes "flows c"
  shows "if unread c = [] then refill c = None
    else \<exists>c'. refill c = Some (RESPONSE_OK, c') \<and> printed c [] (unread c) c' \<and>
      rr_begin (c_reader c') < rr_end (c_reader c')"
proof (cases "rr_begin (c_reader c) = rr_end (c_reader c)")
  case True
  with fill_reader_flows [OF assms] show ?thesis by (simp add: refill_def)
next
  case False
  then have "rr_begin (c_reader c) < rr_end (c_reader c)" using assms by (simp add: flows_def)
  moreover from this have "unread c \<noteq> []" using assms by (auto simp: flows_def unread_def)
  ultimately show ?thesis using printed_refl [OF assms] by (simp add: refill_def)
qed

lemma advance_flows:
  assumes "flows c" "rr_begin (c_reader c) + n \<le> rr_end (c_reader c)"
  shows "printed c [] (drop n (unread c)) (advance n c)"
    "take n (drop (rr_begin (c_reader c)) (rr_buffer (c_reader c))) = take n (unread c)"
proof -
  let ?x = "drop (rr_begin (c_reader c)) (take (rr_end (c_reader c)) (rr_buffer (c_reader c)))"
  have n: "n \<le> length ?x" using assms by (simp add: flows_def)
  have "unread (advance n c) = drop n (unread c)" using n by (simp add: unread_def advance_def add.commute)
  moreover have "flows (advance n c)" using assms by (auto simp: flows_def attended_def advance_def)
  ultimately show "printed c [] (drop n (unread c)) (advance n c)"
    by (simp add: printed_def advance_def)
  show "take n (drop (rr_begin (c_reader c)) (rr_buffer (c_reader c))) = take n (unread c)"
    using n assms(2) by (simp add: unread_def take_drop)
qed

text \<open>Every read is determined by the stream; it waits for ever exactly when the stream is too short.\<close>

lemma read_byte_flows:
  assumes "flows c"
  shows "case unread c of [] \<Rightarrow> read_byte c = None
    | b # s \<Rightarrow> \<exists>c'. read_byte c = Some (RESPONSE_OK, b, c') \<and> printed c [] s c'"
proof (cases "unread c")
  case Nil
  with refill_flows [OF assms] show ?thesis by (simp add: read_byte_def)
next
  case (Cons b s)
  with refill_flows [OF assms] obtain c1 where
    1: "refill c = Some (RESPONSE_OK, c1)" "printed c [] (b # s) c1" "rr_begin (c_reader c1) < rr_end (c_reader c1)"
    by auto
  then have f: "flows c1" "unread c1 = b # s" by (simp_all add: printedD)
  have le: "rr_begin (c_reader c1) + 1 \<le> rr_end (c_reader c1)" using 1(3) by simp
  note a = advance_flows [OF f(1) le, unfolded f(2)]
  have lt: "rr_begin (c_reader c1) < length (rr_buffer (c_reader c1))" using f(1) 1(3) by (auto simp: flows_def)
  then have "rr_buffer (c_reader c1) ! rr_begin (c_reader c1) = b" using a(2) by (simp add: take_Suc_conv_app_nth)
  then have "read_byte c = Some (RESPONSE_OK, b, advance 1 c1)" using 1(1) lt by (simp add: read_byte_def rd_def)
  with printed_trans [OF 1(2) a(1)] Cons show ?thesis by simp
qed

lemma read_exact_flows:
  assumes "flows c"
  shows "if length (unread c) < n then read_exact c out n = None
    else \<exists>c'. read_exact c out n = Some (RESPONSE_OK, out @ take n (unread c), c') \<and>
      printed c [] (drop n (unread c)) c'"
  using assms
proof (induction n arbitrary: c out rule: less_induct)
  case (less n)
  show ?case
  proof (cases "n = 0")
    case True
    with printed_refl [OF less.prems] show ?thesis by (subst (1 2) read_exact.simps) simp
  next
    case n: False
    show ?thesis
    proof (cases "unread c = []")
      case True
      with n refill_flows [OF less.prems] show ?thesis by (subst read_exact.simps) simp
    next
      case False
      with refill_flows [OF less.prems] obtain c1 where
        1: "refill c = Some (RESPONSE_OK, c1)" "printed c [] (unread c) c1" "rr_begin (c_reader c1) < rr_end (c_reader c1)"
        by auto
      then have f: "flows c1" "unread c1 = unread c" by (simp_all add: printedD)
      define k where "k = (if rr_end (c_reader c1) - rr_begin (c_reader c1) < n
        then rr_end (c_reader c1) - rr_begin (c_reader c1) else n)"
      have k: "0 < k" "k \<le> n" "rr_begin (c_reader c1) + k \<le> rr_end (c_reader c1)"
        using 1(3) n by (auto simp: k_def)
      note a = advance_flows [OF f(1) k(3), unfolded f(2)]
      have le: "rr_begin (c_reader c1) + k \<le> length (rr_buffer (c_reader c1))" using f(1) k(3) by (simp add: flows_def)
      have ku: "k \<le> length (unread c)"
        using arg_cong [OF a(2), of length] le by simp
      have run: "read_exact c out n = read_exact (advance k c1) (out @ take k (unread c)) (n - k)"
        using 1(1) n le a(2) by (subst read_exact.simps) (simp add: Let_def k_def [symmetric])
      note f2 = printedD [OF a(1)]
      have "n - k < n" using k by simp
      note ih = less.IH [OF this conjunct1 [OF f2], of "out @ take k (unread c)", unfolded conjunct2 [OF f2]]
      show ?thesis
      proof (cases "length (unread c) < n")
        case True
        with ih ku show ?thesis unfolding run by simp
      next
        case False
        then have "\<not> length (drop k (unread c)) < n - k" using k(2) ku by simp
        from ih [unfolded if_not_P [OF this]] obtain c' where c': "read_exact (advance k c1) (out @ take k (unread c)) (n - k) =
            Some (RESPONSE_OK, (out @ take k (unread c)) @ take (n - k) (drop k (unread c)), c')"
          "printed (advance k c1) [] (drop (n - k) (drop k (unread c))) c'" by blast
        have "take k (unread c) @ take (n - k) (drop k (unread c)) = take n (unread c)"
          using k(2) by (metis le_add_diff_inverse take_add)
        with c' printed_trans [OF printed_trans [OF 1(2) a(1)] c'(2)] False k(2) show ?thesis
          unfolding run by simp
      qed
    qed
  qed
qed

text \<open>The header on a stream: the status, the text and the rest.\<close>

fun header_spec :: "nat \<Rightarrow> bytes \<Rightarrow> bytes \<Rightarrow> (response_status \<times> string \<times> bytes) option" where
  "header_spec cap out [] = None"
| "header_spec cap out (b # s) =
     (if b = LF then
        Some (if out = [] \<or> last out \<noteq> CR then (RESPONSE_PROTOCOL_ERROR, [], s)
              else (RESPONSE_OK, takeWhile (\<lambda>x. x \<noteq> NUL) (butlast out), s))
      else if length out + 1 \<ge> cap then Some (RESPONSE_PROTOCOL_ERROR, [], s)
      else header_spec cap (out @ [b]) s)"

lemma read_header_flows:
  assumes "flows c"
  shows "case header_spec cap out (unread c) of None \<Rightarrow> read_header c out cap = None
    | Some (st, h, s) \<Rightarrow> \<exists>c'. read_header c out cap = Some (st, h, c') \<and> printed c [] s c'"
  using assms
proof (induction "unread c" arbitrary: c out)
  case Nil
  from Nil.hyps [symmetric] read_byte_flows [OF Nil.prems] show ?case by (subst read_header.simps) simp
next
  case (Cons b s)
  from Cons.hyps(2) [symmetric] read_byte_flows [OF Cons.prems] obtain c1 where
    1: "read_byte c = Some (RESPONSE_OK, b, c1)" "printed c [] s c1" by auto
  note f = printedD [OF 1(2)]
  have u: "unread c = b # s" using Cons.hyps(2) by simp
  show ?case
  proof (cases "b = LF \<or> length out + 1 \<ge> cap")
    case True
    with 1 show ?thesis unfolding u by (subst read_header.simps) auto
  next
    case False
    have run: "read_header c out cap = read_header c1 (out @ [b]) cap"
      using 1(1) False by (subst read_header.simps) simp
    from Cons.hyps(1) [of c1 "out @ [b]"] f have
      "case header_spec cap (out @ [b]) s of None \<Rightarrow> read_header c1 (out @ [b]) cap = None
       | Some (st, h, s) \<Rightarrow> \<exists>c'. read_header c1 (out @ [b]) cap = Some (st, h, c') \<and> printed c1 [] s c'"
      by simp
    with False printed_trans [OF 1(2)] show ?thesis
      unfolding u run by (auto split: option.splits prod.splits)
  qed
qed

end
