(* ===== verification/Kessel_Cli_Decoder.thy ===== *)
theory Kessel_Cli_Decoder
  imports Kessel_Cli_Reader
begin

text \<open>
  Rendering a response against a decoder on byte streams: the reference reads the whole stream
  at once, the code reads through a buffer of 4096 bytes and copies in chunks of 4096.
\<close>

section \<open>The reference\<close>

definition bulk_spec :: "nat \<Rightarrow> bytes \<Rightarrow> (response_status \<times> bytes \<times> bytes) option" where
  "bulk_spec n s = (if length s < n + 2 then None
     else Some (if take 2 (drop n s) = [CR, LF] then RESPONSE_OK else RESPONSE_PROTOCOL_ERROR,
       take n s, drop (n + 2) s))"

definition bulk_response :: "string \<Rightarrow> bytes \<Rightarrow> (response_status \<times> bytes \<times> bytes) option" where
  "bulk_response header s = (case bulk_length header of
     None \<Rightarrow> Some (RESPONSE_PROTOCOL_ERROR, [], s)
   | Some n \<Rightarrow> if n = - 1 then Some (RESPONSE_OK, ''(nil)'' @ [LF], s)
       else map_option (\<lambda>(st, tx, s). (st, if st = RESPONSE_OK then tx @ [LF] else tx, s)) (bulk_spec (nat n) s))"

fun element_spec :: "nat \<Rightarrow> bytes \<Rightarrow> (response_status \<times> bytes \<times> bytes) option" where
  "element_spec i [] = None"
| "element_spec i (t # s) =
     (if t \<noteq> CHR ''$'' then Some (RESPONSE_PROTOCOL_ERROR, [], s)
      else case header_spec 32 [] s of None \<Rightarrow> None
      | Some (st, header, s) \<Rightarrow>
          if st \<noteq> RESPONSE_OK then Some (st, [], s)
          else case bulk_length header of None \<Rightarrow> Some (RESPONSE_PROTOCOL_ERROR, [], s)
          | Some n \<Rightarrow>
              map_option (\<lambda>(st, tx, s). (st, (if i > 0 then '' '' else []) @ tx, s))
                (if n = - 1 then Some (RESPONSE_OK, ''(nil)'', s) else bulk_spec (nat n) s))"

fun elements_spec :: "nat \<Rightarrow> nat \<Rightarrow> bytes \<Rightarrow> (response_status \<times> bytes \<times> bytes) option" where
  "elements_spec i 0 s = Some (RESPONSE_OK, [], s)"
| "elements_spec i (Suc n) s = (case element_spec i s of None \<Rightarrow> None
     | Some (st, tx, s) \<Rightarrow> if st \<noteq> RESPONSE_OK then Some (st, tx, s)
         else map_option (\<lambda>(st, tx', s). (st, tx @ tx', s)) (elements_spec (Suc i) n s))"

definition array_response :: "string \<Rightarrow> bytes \<Rightarrow> (response_status \<times> bytes \<times> bytes) option" where
  "array_response header s = (case parse_integer header of
     None \<Rightarrow> Some (RESPONSE_PROTOCOL_ERROR, [], s)
   | Some n \<Rightarrow> if n < 0 \<or> n > 16 then Some (RESPONSE_PROTOCOL_ERROR, [], s)
       else map_option (\<lambda>(st, tx, s). (st, if st = RESPONSE_OK then tx @ [LF] else tx, s)) (elements_spec 0 (nat n) s))"

fun response_spec :: "bytes \<Rightarrow> (response_status \<times> response_kind option \<times> bytes \<times> bytes) option" where
  "response_spec [] = None"
| "response_spec (t # s) = (case header_spec (KESSEL_CLI_MAX_LINE + 1) [] s of None \<Rightarrow> None
     | Some (st, header, s) \<Rightarrow>
         if st \<noteq> RESPONSE_OK then Some (st, None, [], s)
         else if t = CHR ''+'' then Some (RESPONSE_OK, Some RESPONSE_KIND_SIMPLE, header @ [LF], s)
         else if t = CHR ''-'' then Some (RESPONSE_OK, Some RESPONSE_KIND_ERROR, ''(error) '' @ header @ [LF], s)
         else if t = CHR '':'' then
           (case parse_integer header of
              None \<Rightarrow> Some (RESPONSE_PROTOCOL_ERROR, Some RESPONSE_KIND_INTEGER, [], s)
            | Some v \<Rightarrow> Some (RESPONSE_OK, Some RESPONSE_KIND_INTEGER, ''(integer) '' @ fmt_int v @ [LF], s))
         else if t = CHR ''$'' then
           map_option (\<lambda>(st, tx, s). (st, Some RESPONSE_KIND_BULK, tx, s)) (bulk_response header s)
         else if t = CHR ''*'' then
           map_option (\<lambda>(st, tx, s). (st, Some RESPONSE_KIND_ARRAY, tx, s)) (array_response header s)
         else Some (RESPONSE_PROTOCOL_ERROR, None, [], s))"

section \<open>The code follows the reference\<close>

definition follows :: "cli \<Rightarrow> (response_status \<times> cli) option \<Rightarrow> (response_status \<times> bytes \<times> bytes) option \<Rightarrow> bool" where
  "follows c r sp \<longleftrightarrow> (case sp of None \<Rightarrow> r = None
     | Some (st, tx, s) \<Rightarrow> \<exists>c'. r = Some (st, c') \<and> printed c tx s c')"

lemma follows_simps [simp]:
  "follows c r None \<longleftrightarrow> r = None"
  "follows c r (Some (st, tx, s)) \<longleftrightarrow> (\<exists>c'. r = Some (st, c') \<and> printed c tx s c')"
  by (simp_all add: follows_def)

lemma follows_prefix:
  assumes "printed c tx s c1" "follows c1 r sp"
  shows "follows c r (map_option (\<lambda>(st, tx', s). (st, tx @ tx', s)) sp)"
  using assms printed_trans [OF assms(1)] by (cases sp) auto

lemma copy_bulk_flows:
  assumes "flows c"
  shows "if length (unread c) < n then copy_bulk n c = None
    else \<exists>c'. copy_bulk n c = Some (RESPONSE_OK, c') \<and> printed c (take n (unread c)) (drop n (unread c)) c'"
  using assms
proof (induction n arbitrary: c rule: less_induct)
  case (less n)
  show ?case
  proof (cases "n = 0")
    case True
    with printed_refl [OF less.prems] show ?thesis by (simp add: copy_bulk.simps [of 0])
  next
    case n: False
    define k where "k = (if n < 4096 then n else 4096)"
    have k: "0 < k" "k \<le> n" using n by (simp_all add: k_def)
    note step = copy_bulk.simps [of n c, folded k_def, unfolded Let_def]
    show ?thesis
    proof (cases "length (unread c) < k")
      case True
      then have "read_exact c [] k = None" using read_exact_flows [OF less.prems, of k "[]"] by simp
      with True n k show ?thesis by (simp add: step)
    next
      case False
      with read_exact_flows [OF less.prems, of k "[]"] obtain c1 where
        1: "read_exact c [] k = Some (RESPONSE_OK, take k (unread c), c1)" "printed c [] (drop k (unread c)) c1" by auto
      note f1 = printedD [OF 1(2)]
      obtain c2 where 2: "put_checked (take k (unread c)) c1 = (True, c2)"
        "printed c1 (take k (unread c)) (unread c1) c2" by (rule put_checked_ok [OF conjunct1 [OF f1]])
      note f2 = printedD [OF 2(2)]
      have run: "copy_bulk n c = copy_bulk (n - k) c2" using n 1(1) 2(1) by (simp add: step)
      have "n - k < n" using k by simp
      note ih = less.IH [OF this conjunct1 [OF f2]]
      have p: "printed c (take k (unread c)) (drop k (unread c)) c2"
        using printed_trans [OF 1(2) 2(2)] f1 by simp
      have u: "unread c2 = drop k (unread c)" using f1 f2 by simp
      show ?thesis
      proof (cases "length (unread c) < n")
        case True
        with ih False show ?thesis unfolding run u by simp
      next
        case long: False
        then have "\<not> length (drop k (unread c)) < n - k" using k(2) by simp
        from ih [unfolded u if_not_P [OF this]] obtain c' where
          "copy_bulk (n - k) c2 = Some (RESPONSE_OK, c')"
          "printed c2 (take (n - k) (drop k (unread c))) (drop (n - k) (drop k (unread c))) c'" by blast
        moreover have "take k (unread c) @ take (n - k) (drop k (unread c)) = take n (unread c)"
          using k(2) by (metis le_add_diff_inverse take_add)
        ultimately show ?thesis using printed_trans [OF p] long k(2) unfolding run by fastforce
      qed
    qed
  qed
qed

lemma read_terminator_flows:
  assumes "flows c"
  shows "if length (unread c) < 2 then read_terminator c = None
    else \<exists>c'. read_terminator c = Some (if take 2 (unread c) = [CR, LF] then RESPONSE_OK else RESPONSE_PROTOCOL_ERROR, c') \<and>
      printed c [] (drop 2 (unread c)) c'"
proof (cases "unread c")
  case Nil
  with read_exact_flows [OF assms, of 2 "[]"] show ?thesis by (simp add: read_terminator_def)
next
  case (Cons x s)
  show ?thesis
  proof (cases s)
    case Nil
    with Cons read_exact_flows [OF assms, of 2 "[]"] show ?thesis by (simp add: read_terminator_def)
  next
    case (Cons y s')
    with \<open>unread c = x # s\<close> read_exact_flows [OF assms, of 2 "[]"] show ?thesis
      by (auto simp: read_terminator_def rd_def numeral_2_eq_2)
  qed
qed

text \<open>A bulk string with its terminator.\<close>

lemma bulk_flows:
  assumes "flows c"
  shows "follows c (do { (st, c) \<leftarrow> copy_bulk n c; if st \<noteq> RESPONSE_OK then Some (st, c) else read_terminator c })
    (bulk_spec n (unread c))"
proof (cases "length (unread c) < n")
  case True
  with copy_bulk_flows [OF assms, of n] show ?thesis by (simp add: bulk_spec_def)
next
  case False
  with copy_bulk_flows [OF assms, of n] obtain c1 where
    1: "copy_bulk n c = Some (RESPONSE_OK, c1)" "printed c (take n (unread c)) (drop n (unread c)) c1" by auto
  note f = printedD [OF 1(2)]
  from read_terminator_flows [OF conjunct1 [OF f]] f printed_trans [OF 1(2)] False show ?thesis
    by (auto simp: 1(1) bulk_spec_def add.commute split: if_splits) fastforce+
qed

text \<open>A checked line feed after a response that was read to its end.\<close>

definition close_line :: "response_status \<times> cli \<Rightarrow> (response_status \<times> cli) option" where
  "close_line sc = (case sc of (st, c) \<Rightarrow>
     if st \<noteq> RESPONSE_OK then Some (st, c)
     else let (ok, c) = put_checked [LF] c in Some (if ok then RESPONSE_OK else RESPONSE_IO_ERROR, c))"

lemma close_line_follows:
  assumes "follows c r sp"
  shows "follows c (r \<bind> close_line) (map_option (\<lambda>(st, tx, s). (st, if st = RESPONSE_OK then tx @ [LF] else tx, s)) sp)"
proof (cases sp)
  case None
  with assms show ?thesis by simp
next
  case (Some q)
  obtain st tx s where q: "q = (st, tx, s)" by (rule prod_cases3)
  with Some assms obtain c1 where 1: "r = Some (st, c1)" "printed c tx s c1" by auto
  note f = printedD [OF 1(2)]
  obtain c2 where "put_checked [LF] c1 = (True, c2)" "printed c1 [LF] (unread c1) c2"
    by (rule put_checked_ok [OF conjunct1 [OF f]])
  with 1 f Some q printed_trans [OF 1(2)] show ?thesis by (auto simp: close_line_def)
qed

lemma render_bulk_flows:
  assumes "flows c"
  shows "follows c (render_bulk header c) (bulk_response header (unread c))"
proof (cases "bulk_length header")
  case None
  with printed_refl [OF assms] show ?thesis by (simp add: render_bulk_def bulk_response_def)
next
  case (Some n)
  show ?thesis
  proof (cases "n = - 1")
    case True
    with Some printed_put [OF assms] show ?thesis by (simp add: render_bulk_def bulk_response_def)
  next
    case False
    have "render_bulk header c = (do { (st, c) \<leftarrow> copy_bulk (nat n) c;
        if st \<noteq> RESPONSE_OK then Some (st, c) else read_terminator c }) \<bind> close_line"
      using Some False
      by (cases "copy_bulk (nat n) c") (auto simp: render_bulk_def close_line_def fun_eq_iff intro!: arg_cong2 [where f = Option.bind])
    with close_line_follows [OF bulk_flows [OF assms, of "nat n"]] Some False show ?thesis
      by (simp add: bulk_response_def)
  qed
qed

lemma separator_flows:
  assumes "flows c"
  obtains c' where "(if i > 0 then put_checked '' '' c else (True, c)) = (True, c')"
    "printed c (if 0 < (i :: nat) then '' '' else []) (unread c) c'"
proof (cases "i > 0")
  case True
  obtain c' where "put_checked '' '' c = (True, c')" "printed c '' '' (unread c) c'" by (rule put_checked_ok [OF assms])
  with True show thesis by (intro that) simp_all
next
  case False
  with printed_refl [OF assms] show thesis by (intro that) simp_all
qed

lemma element_flows:
  assumes "flows c"
  shows "follows c (render_element i c) (element_spec i (unread c))"
proof (cases "unread c")
  case Nil
  with read_byte_flows [OF assms] show ?thesis by (simp add: render_element_def)
next
  case (Cons t s)
  with read_byte_flows [OF assms] obtain c1 where 1: "read_byte c = Some (RESPONSE_OK, t, c1)" "printed c [] s c1" by auto
  note f1 = printedD [OF 1(2)]
  show ?thesis
  proof (cases "t = CHR ''$'' \<and> header_spec 32 [] s \<noteq> None")
    case False
    show ?thesis
    proof (cases "t = CHR ''$''")
      case True
      with False have h: "header_spec 32 [] s = None" by blast
      with f1 read_header_flows [OF conjunct1 [OF f1], of "[]" 32] have "read_header c1 [] 32 = None" by simp
      with True h Cons 1(1) show ?thesis by (simp add: render_element_def)
    next
      case False
      with Cons 1 show ?thesis by (simp add: render_element_def)
    qed
  next
    case True
    then obtain st h s2 where h: "header_spec 32 [] s = Some (st, h, s2)" by auto
    with f1 read_header_flows [OF conjunct1 [OF f1], of "[]" 32] obtain c2 where
      2: "read_header c1 [] 32 = Some (st, h, c2)" "printed c1 [] s2 c2" by auto
    have p2: "printed c [] s2 c2" using printed_trans [OF 1(2) 2(2)] by simp
    note f2 = printedD [OF p2]
    show ?thesis
    proof (cases "st = RESPONSE_OK \<and> bulk_length h \<noteq> None")
      case False
      with Cons True 1(1) 2(1) h p2 show ?thesis by (auto simp: render_element_def)
    next
      case ok: True
      then obtain n where n: "bulk_length h = Some n" by auto
      obtain c3 where 3: "(if i > 0 then put_checked '' '' c2 else (True, c2)) = (True, c3)"
        "printed c2 (if 0 < i then '' '' else []) (unread c2) c3" by (rule separator_flows [OF conjunct1 [OF f2]])
      have p3: "printed c (if 0 < i then '' '' else []) s2 c3" using printed_trans [OF p2 3(2)] f2 by simp
      note f3 = printedD [OF p3]
      obtain c4 where 4: "put_checked ''(nil)'' c3 = (True, c4)" "printed c3 ''(nil)'' (unread c3) c4"
        by (rule put_checked_ok [OF conjunct1 [OF f3]])
      let ?r = "if n = - 1 then (let (ok, c) = put_checked ''(nil)'' c3 in Some (if ok then RESPONSE_OK else RESPONSE_IO_ERROR, c))
        else do { (st, c) \<leftarrow> copy_bulk (nat n) c3; if st \<noteq> RESPONSE_OK then Some (st, c) else read_terminator c }"
      have run: "render_element i c = ?r"
        using 1(1) True 2(1) ok n 3(1) by (simp add: render_element_def)
      have "follows c3 ?r (if n = - 1 then Some (RESPONSE_OK, ''(nil)'', s2) else bulk_spec (nat n) s2)"
        using 4 bulk_flows [OF conjunct1 [OF f3], of "nat n"] f3 by simp
      from follows_prefix [OF p3 this] show ?thesis
        unfolding run Cons using True h ok n by simp
    qed
  qed
qed

lemma elements_flows:
  assumes "flows c"
  shows "follows c (render_elements i n c) (elements_spec i n (unread c))"
  using assms
proof (induction n arbitrary: i c)
  case 0
  then show ?case by (simp add: printed_refl)
next
  case (Suc n)
  note e = element_flows [OF Suc.prems, of i]
  show ?case
  proof (cases "element_spec i (unread c)")
    case None
    with e show ?thesis by simp
  next
    case (Some q)
    obtain st tx s where q: "q = (st, tx, s)" by (rule prod_cases3)
    with e Some obtain c1 where 1: "render_element i c = Some (st, c1)" "printed c tx s c1" by auto
    note f = printedD [OF 1(2)]
    show ?thesis
    proof (cases "st = RESPONSE_OK")
      case False
      with 1 Some q show ?thesis by simp
    next
      case True
      from follows_prefix [OF 1(2) Suc.IH [OF conjunct1 [OF f], of "Suc i", unfolded conjunct2 [OF f]]]
      show ?thesis using True Some q 1(1) by simp
    qed
  qed
qed

lemma render_array_flows:
  assumes "flows c"
  shows "follows c (render_array header c) (array_response header (unread c))"
proof (cases "parse_integer header")
  case None
  with printed_refl [OF assms] show ?thesis by (simp add: render_array_def array_response_def)
next
  case (Some n)
  show ?thesis
  proof (cases "n < 0 \<or> n > 16")
    case True
    with Some printed_refl [OF assms] show ?thesis by (auto simp: render_array_def array_response_def)
  next
    case False
    have "render_array header c = render_elements 0 (nat n) c \<bind> close_line"
      using Some False
      by (auto simp: render_array_def close_line_def fun_eq_iff intro!: arg_cong2 [where f = Option.bind])
    with close_line_follows [OF elements_flows [OF assms, of 0 "nat n"]] Some False show ?thesis
      by (simp add: array_response_def)
  qed
qed

lemma kind_follows:
  assumes "follows c r sp"
  shows "case map_option (\<lambda>(st, tx, s). (st, k, tx, s)) sp of
      None \<Rightarrow> (do { (st, c) \<leftarrow> r; Some (st, k, c) }) = None
    | Some (st, k', tx, s) \<Rightarrow> \<exists>c'. (do { (st, c) \<leftarrow> r; Some (st, k, c) }) = Some (st, k', c') \<and> printed c tx s c'"
  using assms by (cases sp) auto

lemma response_flows:
  assumes "flows c"
  shows "case response_spec (unread c) of None \<Rightarrow> render_response c = None
    | Some (st, k, tx, s) \<Rightarrow> \<exists>c'. render_response c = Some (st, k, c') \<and> printed c tx s c'"
proof (cases "unread c")
  case Nil
  with read_byte_flows [OF assms] show ?thesis by (simp add: render_response_def)
next
  case (Cons t s)
  with read_byte_flows [OF assms] obtain c1 where 1: "read_byte c = Some (RESPONSE_OK, t, c1)" "printed c [] s c1" by auto
  note f1 = printedD [OF 1(2)]
  note rh = read_header_flows [OF conjunct1 [OF f1], of "[]" "KESSEL_CLI_MAX_LINE + 1", unfolded conjunct2 [OF f1]]
  show ?thesis
  proof (cases "header_spec (KESSEL_CLI_MAX_LINE + 1) [] s")
    case None
    with Cons 1(1) rh show ?thesis by (simp add: render_response_def)
  next
    case (Some q)
    obtain st h s2 where q: "q = (st, h, s2)" by (rule prod_cases3)
    with rh Some obtain c2 where
      2: "read_header c1 [] (KESSEL_CLI_MAX_LINE + 1) = Some (st, h, c2)" "printed c1 [] s2 c2" by auto
    have p2: "printed c [] s2 c2" using printed_trans [OF 1(2) 2(2)] by simp
    note f2 = printedD [OF p2]
    have out: "printed c tx s2 (put tx c2)" for tx
      using printed_trans [OF p2 printed_put [OF conjunct1 [OF f2]]] f2 by simp
    have sub: "follows c r sp" if "follows c2 r sp" for r sp
      using follows_prefix [OF p2 that] by (cases sp) auto
    note b = kind_follows [OF sub [OF render_bulk_flows [OF conjunct1 [OF f2], of h, unfolded conjunct2 [OF f2]]],
        of "Some RESPONSE_KIND_BULK"]
    note a = kind_follows [OF sub [OF render_array_flows [OF conjunct1 [OF f2], of h, unfolded conjunct2 [OF f2]]],
        of "Some RESPONSE_KIND_ARRAY"]
    have run: "render_response c =
      (if st \<noteq> RESPONSE_OK then Some (st, None, c2)
       else if t = CHR ''+'' then Some (RESPONSE_OK, Some RESPONSE_KIND_SIMPLE, put (h @ [LF]) c2)
       else if t = CHR ''-'' then Some (RESPONSE_OK, Some RESPONSE_KIND_ERROR, put (''(error) '' @ h @ [LF]) c2)
       else if t = CHR '':'' then
         (case parse_integer h of None \<Rightarrow> Some (RESPONSE_PROTOCOL_ERROR, Some RESPONSE_KIND_INTEGER, c2)
          | Some v \<Rightarrow> Some (RESPONSE_OK, Some RESPONSE_KIND_INTEGER, put (''(integer) '' @ fmt_int v @ [LF]) c2))
       else if t = CHR ''$'' then do { (st, c) \<leftarrow> render_bulk h c2; Some (st, Some RESPONSE_KIND_BULK, c) }
       else if t = CHR ''*'' then do { (st, c) \<leftarrow> render_array h c2; Some (st, Some RESPONSE_KIND_ARRAY, c) }
       else Some (RESPONSE_PROTOCOL_ERROR, None, c2))"
      unfolding render_response_def 1(1) 2(1) bind.bind_lunit prod.case by (simp add: 2(1))
    consider "st \<noteq> RESPONSE_OK" | "st = RESPONSE_OK" "t = CHR ''$''" | "st = RESPONSE_OK" "t = CHR ''*''"
      | "st = RESPONSE_OK" "t = CHR '':''" | "st = RESPONSE_OK" "t \<notin> {CHR ''$'', CHR ''*'', CHR '':''}" by blast
    then show ?thesis
    proof cases
      case 1
      with p2 show ?thesis unfolding run Cons response_spec.simps Some q by simp
    next
      case 2
      with b show ?thesis unfolding run Cons response_spec.simps Some q by simp
    next
      case 3
      with a show ?thesis unfolding run Cons response_spec.simps Some q by simp
    next
      case 4
      with out p2 show ?thesis unfolding run Cons response_spec.simps Some q by (cases "parse_integer h") simp_all
    next
      case 5
      with out p2 show ?thesis unfolding run Cons response_spec.simps Some q by simp
    qed
  qed
qed

end
