(* ===== verification/Kessel_Cli_Correct.thy ===== *)
theory Kessel_Cli_Correct
  imports Kessel_Cli_Decoder Kessel_Server_Pipeline
begin

text \<open>
  The client and the server together: what the client prints for the responses of the server, and
  the subscription mode.
\<close>

section \<open>Every response of the server is understood\<close>

lemma header_spec_line:
  assumes "LF \<notin> set h" "length out + length h + 1 < cap"
  shows "header_spec cap out (h @ CR # LF # s) = Some (RESPONSE_OK, takeWhile (\<lambda>x. x \<noteq> NUL) (out @ h), s)"
  using assms by (induction h arbitrary: out) auto

lemma parse_fmt_int: "LLONG_MIN \<le> i \<Longrightarrow> i \<le> LLONG_MAX \<Longrightarrow> parse_integer (fmt_int i) = Some i"
  using fmt_nat_ne by (simp add: parse_integer_def strtoll_fmt_int) (auto simp: fmt_int_def)

lemma fmt_int_plain: "LF \<notin> set (fmt_int i)" "takeWhile (\<lambda>x. x \<noteq> NUL) (fmt_int i) = fmt_int i"
proof -
  have d: "c \<noteq> LF \<and> c \<noteq> NUL" if "c \<in> set (fmt_int i)" for c
  proof -
    from that consider "c = CHR ''-''" | n where "c \<in> set (fmt_nat n)" by (auto simp: fmt_int_def split: if_splits)
    then show ?thesis
    proof cases
      case 2
      then obtain k where "k < 10" "c = digit_char k" using fmt_nat_digits by blast
      then have "byte c = 48 + k" by (simp add: digit_char_def byte_char_of)
      then show ?thesis by (auto simp: byte_def)
    qed simp
  qed
  then show "LF \<notin> set (fmt_int i)" "takeWhile (\<lambda>x. x \<noteq> NUL) (fmt_int i) = fmt_int i"
    by (auto simp: takeWhile_eq_all_conv)
qed

lemma fmt_int_nat: "fmt_int (int n) = fmt_nat n"
  by (simp add: fmt_int_def)

lemma header_int:
  assumes "length (fmt_int i) + 1 < cap"
  shows "header_spec cap [] (fmt_int i @ CR # LF # s) = Some (RESPONSE_OK, fmt_int i, s)"
  using header_spec_line [OF fmt_int_plain(1), of "[]" i cap s] assms fmt_int_plain(2) by simp

lemma bulk_length_nat: "n \<le> KESSEL_CLI_MAX_LINE \<Longrightarrow> bulk_length (fmt_nat n) = Some (int n)"
  using parse_fmt_int [of "int n"]
  by (simp add: bulk_length_def fmt_int_nat KESSEL_CLI_MAX_LINE_def LLONG_MIN_def LLONG_MAX_def)

lemma bulk_spec_text: "bulk_spec (length d) (d @ CR # LF # s) = Some (RESPONSE_OK, d, s)"
  by (simp add: bulk_spec_def)

lemma response_simple:
  assumes "LF \<notin> set t" "NUL \<notin> set t" "length t < 1000"
  shows "response_spec (simple_text t @ s) = Some (RESPONSE_OK, Some RESPONSE_KIND_SIMPLE, t @ [LF], s)"
    "response_spec (error_text t @ s) = Some (RESPONSE_OK, Some RESPONSE_KIND_ERROR, ''(error) ERR '' @ t @ [LF], s)"
proof -
  have z: "takeWhile (\<lambda>x. x \<noteq> NUL) t = t" using assms(2) by (auto simp: takeWhile_eq_all_conv)
  have "header_spec (KESSEL_CLI_MAX_LINE + 1) [] (t @ CR # LF # s) = Some (RESPONSE_OK, t, s)"
    using header_spec_line [of t "[]"] assms z by (simp add: KESSEL_CLI_MAX_LINE_def)
  then show "response_spec (simple_text t @ s) = Some (RESPONSE_OK, Some RESPONSE_KIND_SIMPLE, t @ [LF], s)"
    by (simp add: simple_text_def)
  have "header_spec (KESSEL_CLI_MAX_LINE + 1) [] ((''ERR '' @ t) @ CR # LF # s) = Some (RESPONSE_OK, ''ERR '' @ t, s)"
    using header_spec_line [of "''ERR '' @ t" "[]"] assms z by (simp add: KESSEL_CLI_MAX_LINE_def)
  then show "response_spec (error_text t @ s) = Some (RESPONSE_OK, Some RESPONSE_KIND_ERROR, ''(error) ERR '' @ t @ [LF], s)"
    by (simp add: error_text_def del: header_spec.simps)
qed

lemma response_int:
  assumes "- (2 ^ 63) \<le> i" "i < 2 ^ 63"
  shows "response_spec (int_text i @ s) = Some (RESPONSE_OK, Some RESPONSE_KIND_INTEGER, ''(integer) '' @ fmt_int i @ [LF], s)"
  using header_int [of i "KESSEL_CLI_MAX_LINE + 1" s] fmt_int_word [OF assms] parse_fmt_int [of i] assms
  by (simp add: int_text_def KESSEL_CLI_MAX_LINE_def LLONG_MIN_def LLONG_MAX_def)

lemma response_bulk:
  assumes "length d \<le> KESSEL_CLI_MAX_LINE"
  shows "response_spec (bulk_text d @ s) = Some (RESPONSE_OK, Some RESPONSE_KIND_BULK, d @ [LF], s)"
proof -
  have "length (fmt_nat (length d)) \<le> 5" using assms by (intro fmt_nat_short) (simp add: KESSEL_CLI_MAX_LINE_def)
  then have "header_spec (KESSEL_CLI_MAX_LINE + 1) [] (fmt_nat (length d) @ CR # LF # d @ CR # LF # s) =
      Some (RESPONSE_OK, fmt_nat (length d), d @ CR # LF # s)"
    using header_int [of "int (length d)"] by (simp add: fmt_int_nat KESSEL_CLI_MAX_LINE_def)
  with bulk_length_nat [OF assms] bulk_spec_text [of d s] show ?thesis
    by (simp add: bulk_text_def bulk_response_def)
qed

lemma response_nil:
  "response_spec (nil_text @ s) = Some (RESPONSE_OK, Some RESPONSE_KIND_BULK, ''(nil)'' @ [LF], s)"
proof -
  have f: "fmt_int (- 1) = ''-1''" by code_simp
  have "header_spec (KESSEL_CLI_MAX_LINE + 1) [] (''-1'' @ CR # LF # s) = Some (RESPONSE_OK, ''-1'', s)"
    using header_int [of "- 1" "KESSEL_CLI_MAX_LINE + 1" s] by (simp add: f KESSEL_CLI_MAX_LINE_def)
  moreover have "bulk_length ''-1'' = Some (- 1)"
    using parse_fmt_int [of "- 1"] by (simp add: bulk_length_def f LLONG_MIN_def LLONG_MAX_def KESSEL_CLI_MAX_LINE_def)
  ultimately show ?thesis by (simp add: nil_text_def bulk_response_def)
qed

lemma element_bulk:
  assumes "length d \<le> KESSEL_CLI_MAX_LINE"
  shows "element_spec i (bulk_text d @ s) = Some (RESPONSE_OK, (if i > 0 then '' '' else []) @ d, s)"
proof -
  have "length (fmt_nat (length d)) \<le> 5" using assms by (intro fmt_nat_short) (simp add: KESSEL_CLI_MAX_LINE_def)
  then have "header_spec 32 [] (fmt_nat (length d) @ CR # LF # d @ CR # LF # s) =
      Some (RESPONSE_OK, fmt_nat (length d), d @ CR # LF # s)"
    using header_int [of "int (length d)"] by (simp add: fmt_int_nat)
  with bulk_length_nat [OF assms] bulk_spec_text [of d s] show ?thesis by (simp add: bulk_text_def)
qed

text \<open>A published message, as a subscriber receives it.\<close>

lemma response_message:
  assumes "length ch \<le> KESSEL_CLI_MAX_LINE" "length m \<le> KESSEL_CLI_MAX_LINE"
  shows "response_spec (message_text ch m @ s) =
    Some (RESPONSE_OK, Some RESPONSE_KIND_ARRAY, ''message '' @ ch @ '' '' @ m @ [LF], s)"
proof -
  have f: "fmt_int 3 = ''3''" by code_simp
  have "header_spec (KESSEL_CLI_MAX_LINE + 1) [] (''3'' @ CR # LF # x) = Some (RESPONSE_OK, ''3'', x)" for x
    using header_int [of 3 "KESSEL_CLI_MAX_LINE + 1" x] by (simp add: f KESSEL_CLI_MAX_LINE_def)
  moreover have "parse_integer ''3'' = Some 3"
    using parse_fmt_int [of 3] by (simp add: f LLONG_MIN_def LLONG_MAX_def)
  moreover have "length ''message'' \<le> KESSEL_CLI_MAX_LINE" by (simp add: KESSEL_CLI_MAX_LINE_def)
  note e = element_bulk [OF this, of 0] element_bulk [OF assms(1), of 1] element_bulk [OF assms(2), of 2]
  have "elements_spec 0 3 (bulk_text ''message'' @ bulk_text ch @ bulk_text m @ s) =
      Some (RESPONSE_OK, ''message'' @ '' '' @ ch @ '' '' @ m, s)"
    using e by (simp add: numeral_3_eq_3 numeral_2_eq_2)
  ultimately show ?thesis by (simp add: message_text_def array_response_def)
qed

section \<open>The answers of the store\<close>

fun answer_ok :: "kv_answer \<Rightarrow> bool" where
  "answer_ok (Ans_Get d n) \<longleftrightarrow> (case d of None \<Rightarrow> True | Some d \<Rightarrow> unat n \<le> length d \<and> unat n \<le> KS_MAX_REQUEST)"
| "answer_ok (Ans_Ttl i) \<longleftrightarrow> - (2 ^ 63) \<le> i \<and> i < 2 ^ 63"
| "answer_ok (Ans_Count n) \<longleftrightarrow> int (unat n) < 2 ^ 63"
| "answer_ok _ \<longleftrightarrow> True"

text \<open>What the client prints for an answer.\<close>

fun answer_view :: "kv_answer \<Rightarrow> string" where
  "answer_view (Ans_Set r) =
     (if r = KS_KV_SET_ERROR then ''(error) ERR unable to store value'' else ''OK'') @ [LF]"
| "answer_view (Ans_Get d n) = (case d of None \<Rightarrow> ''(nil)'' | Some d \<Rightarrow> take (unat n) d) @ [LF]"
| "answer_view (Ans_Bool b) = ''(integer) '' @ (if b then ''1'' else ''0'') @ [LF]"
| "answer_view (Ans_Expire r) =
     (if r = KS_KV_EXPIRE_ERROR then ''(error) ERR invalid expire time''
      else if r = KS_KV_EXPIRE_UPDATED then ''(integer) 1'' else ''(integer) 0'') @ [LF]"
| "answer_view (Ans_Ttl i) = ''(integer) '' @ fmt_int i @ [LF]"
| "answer_view (Ans_Count n) = ''(integer) '' @ fmt_int (int (unat n)) @ [LF]"

lemma answer_rendered:
  assumes "answer_ok a"
  shows "\<exists>k. response_spec (answer_text a @ s) = Some (RESPONSE_OK, Some k, answer_view a, s)"
proof -
  have f: "fmt_int 1 = ''1''" "fmt_int 0 = ''0''" by code_simp+
  have max: "KS_MAX_REQUEST = KESSEL_CLI_MAX_LINE" by (simp add: KS_MAX_REQUEST_def KESSEL_CLI_MAX_LINE_def)
  show ?thesis
  proof (cases a)
    case (Ans_Set r)
    then show ?thesis using response_simple [of "''OK''" s] response_simple [of "''unable to store value''" s] by simp
  next
    case (Ans_Get d n)
    with assms show ?thesis using response_nil [of s] response_bulk [of "take (unat n) d'" s for d']
      by (cases d) (simp_all add: max min_absorb2)
  next
    case (Ans_Bool b)
    then show ?thesis using response_int [of 1 s] response_int [of 0 s] f by simp
  next
    case (Ans_Expire r)
    then show ?thesis using response_int [of 1 s] response_int [of 0 s] f response_simple [of "''invalid expire time''" s]
      by simp
  next
    case (Ans_Ttl i)
    with assms show ?thesis using response_int [of i s] by simp
  next
    case (Ans_Count n)
    have "- (2 ^ 63) \<le> int (unat n)" by (rule order_trans [of _ 0]) simp_all
    with Ans_Count assms response_int [of "int (unat n)" s] show ?thesis by simp
  qed
qed

lemma kv_step_answer:
  assumes st: "store_inv st" "small_values st" and r: "kv_step op st = Some (a, st')"
    and op: "\<And>b. op \<noteq> Op_Reap b" "op \<noteq> Op_Size"
  shows "answer_ok a"
proof -
  have inv: "kv_inv st" using st(1) by (simp add: store_inv_def)
  show ?thesis
  proof (cases op)
    case (Op_Get k)
    from kv_get [OF inv, of k] r Op_Get have
      "a = Ans_Get (map_option v_data (kv_live (kv_now st) st k)) (case kv_live (kv_now st) st k of None \<Rightarrow> 0 | Some v \<Rightarrow> v_size v)"
      by (auto split: option.splits)
    moreover have "unat (v_size v) \<le> KS_MAX_REQUEST \<and> unat (v_size v) < length (v_data v)"
      if "kv_live (kv_now st) st k = Some v" for v
      using st(2) kv_live_ok [OF inv that] that by (auto simp: small_values_def)
    ultimately show ?thesis by (cases "kv_live (kv_now st) st k") (auto intro: less_imp_le)
  next
    case (Op_Ttl k)
    with r obtain i where i: "ks_kv_ttl st (Some k) = Some (i, st')" "a = Ans_Ttl i" by auto
    have "\<exists>now v. i = ttl_answer now v" by (rule kv_ttl [OF inv, of k]) (use i(1) in auto)
    then have "- 2 \<le> i" "i < 2 ^ 63" using ttl_answer_range by auto
    with i(2) show ?thesis by simp
  qed (use r op in auto)
qed

lemma kv_run_answers:
  assumes "store_inv st" "small_values st" "kv_run ops st = Some (as, st')"
    and "\<forall>op \<in> set ops. (\<forall>b. op \<noteq> Op_Reap b) \<and> op \<noteq> Op_Size \<and>
      (\<forall>al k v ttl. op = Op_Set al k v ttl \<longrightarrow> length v \<le> KS_MAX_REQUEST)"
  shows "\<forall>a \<in> set as. answer_ok a"
  using assms
proof (induction ops arbitrary: st as)
  case (Cons op ops)
  from Cons.prems(3) obtain a st1 bs where r: "kv_step op st = Some (a, st1)" "kv_run ops st1 = Some (bs, st')" "as = a # bs"
    by (auto split: bind_splits)
  have "small_values st1" by (rule small_step [OF Cons.prems(1,2) r(1)]) (use Cons.prems(4) in auto)
  with Cons.IH [OF kv.step_invar [OF Cons.prems(1) r(1)] _ r(2)] kv_step_answer [OF Cons.prems(1,2) r(1)] Cons.prems(4) r(3)
  show ?case by auto
qed simp

lemma operations_plain:
  assumes "operations env n ls = Some ops" "op \<in> set ops"
  shows "op \<noteq> Op_Reap b" "op \<noteq> Op_Size" "op = Op_Set al k v ttl \<Longrightarrow> length v \<le> KS_MAX_REQUEST"
proof -
  from assms have "\<exists>l cmd args al'. parse_spec l = Some (cmd, args) \<and> kv_command al' cmd args = Some op"
  proof (induction ls arbitrary: n ops)
    case (Cons l ls)
    then obtain cmd args op' ops' where o: "parse_spec (l @ [LF]) = Some (cmd, args)"
      "kv_command (ce_alloc env n) cmd args = Some op'" "operations env (n + 1) ls = Some ops'" "ops = op' # ops'"
      by (auto split: bind_splits)
    show ?case
    proof (cases "op = op'")
      case True
      with o show ?thesis by blast
    next
      case False
      with Cons.prems o(4) have "op \<in> set ops'" by simp
      with Cons.IH o(3) show ?thesis by blast
    qed
  qed simp
  then obtain l cmd args al' where p: "parse_spec l = Some (cmd, args)" "kv_command al' cmd args = Some op" by blast
  from p(2) show "op \<noteq> Op_Reap b" "op \<noteq> Op_Size"
    by (auto simp: kv_command_def split: list.splits if_splits option.splits)
  show "length v \<le> KS_MAX_REQUEST" if "op = Op_Set al k v ttl"
    using kv_command_value [of al' cmd args] p(2) parse_spec_length [OF p(1)] in_args_length [of v args] that by force
qed

lemma operations_length: "operations env n ls = Some ops \<Longrightarrow> length ops = length ls"
  by (induction ls arbitrary: n ops) (auto split: bind_splits)

section \<open>Rendering a sequence\<close>

fun render_all :: "nat \<Rightarrow> cli \<Rightarrow> (response_status \<times> cli) option" where
  "render_all 0 c = Some (RESPONSE_OK, c)"
| "render_all (Suc n) c = do {
     (status, kind, c) \<leftarrow> render_response c;
     if status \<noteq> RESPONSE_OK then Some (status, c) else render_all n c }"

lemma render_answers:
  assumes "flows c" "unread c = answers as @ rest" "\<forall>a \<in> set as. answer_ok a"
  shows "\<exists>c'. render_all (length as) c = Some (RESPONSE_OK, c') \<and> printed c (concat (map answer_view as)) rest c'"
  using assms
proof (induction as arbitrary: c)
  case Nil
  with printed_refl [OF Nil(1)] show ?case by simp
next
  case (Cons a as)
  then have u: "unread c = answer_text a @ answers as @ rest" by simp
  from answer_rendered [of a "answers as @ rest"] Cons.prems(3) obtain k where
    "response_spec (unread c) = Some (RESPONSE_OK, Some k, answer_view a, answers as @ rest)" unfolding u by auto
  with response_flows [OF Cons.prems(1)] obtain c1 where
    1: "render_response c = Some (RESPONSE_OK, Some k, c1)" "printed c (answer_view a) (answers as @ rest) c1" by auto
  from Cons.IH [of c1] printedD [OF 1(2)] Cons.prems(3) obtain c2 where
    2: "render_all (length as) c1 = Some (RESPONSE_OK, c2)" "printed c1 (concat (map answer_view as)) rest c2" by auto
  from printed_trans [OF 1(2) 2(2)] 1(1) 2(1) show ?case by simp
qed

text \<open>The requests on keys of a buffer, with what the client can say of their answers.\<close>

lemma requests_answers:
  assumes "server_inv s" "get_client s ci = Some c" "cl_used c" "env_ok env" "outbox c = []"
    and "inbox c = wire ls" "\<forall>l \<in> set ls. line_ok l"
    and "operations env (mt_total_commands (sv_metrics s)) ls = Some ops"
    and "kv_run ops (sv_store s) = Some (as, st)" "length (answers as) < KS_OUTPUT_HIGH_WATER"
  obtains s' c' where "process_requests env cfg s ci = Some (0, s')" "get_client s' ci = Some c'" "outbox c' = answers as"
    "sv_store s' = st" "\<forall>a \<in> set as. answer_ok a" "length as = length ls"
proof -
  note d = server_invD [OF assms(1)]
  have fits: "length (outbox c @ answers as) < KS_OUTPUT_HIGH_WATER" using assms(5,10) by simp
  from data_requests [OF assms(1-4,7,6,8,9) fits, of cfg] obtain s' c' where
    1: "process_requests env cfg s ci = Some (0, s')" "outbox c' = answers as"
      "s' = (put_client s ci c')\<lparr>sv_store := st, sv_metrics := (sv_metrics s)\<lparr>mt_total_commands :=
        mt_total_commands (sv_metrics s) + of_nat (length ls)\<rparr>\<rparr>" using assms(5) by auto
  have g: "get_client s' ci = Some c'" using assms(2) 1(3) by simp
  have ok: "\<forall>a \<in> set as. answer_ok a"
    using kv_run_answers [OF d(4,5) assms(9)] operations_plain [OF assms(8)] by blast
  have len: "length as = length ls"
    using kv.run_returns [OF d(4), of ops] assms(9) operations_length [OF assms(8)] by (auto simp: kv_run_eq)
  have "sv_store s' = st" using 1(3) by simp
  from that [OF 1(1) g 1(2) this ok len] show thesis .
qed

section \<open>The subscription mode\<close>

lemma wait_stalls:
  assumes "rr_begin (c_reader c) = rr_end (c_reader c)" "\<not> subscription_interrupted c" "os_interrupt c = (\<lambda>n. False)"
    "\<forall>a \<in> set (os_poll c). harmless a"
  shows "wait_for_subscription_data c = None"
  using assms
proof (induction "os_poll c" arbitrary: c)
  case Nil
  then show ?case by (subst wait_for_subscription_data.simps) (simp add: look_def)
next
  case (Cons a os)
  let ?c = "c\<lparr>subscription_interrupted := False, os_looks := Suc (os_looks c), os_poll := os\<rparr>"
  from Cons.hyps(2) have os: "os_poll c = a # os" by simp
  have "wait_for_subscription_data ?c = None" using Cons.prems os by (intro Cons.hyps(1)) simp_all
  moreover have "harmless a" using Cons.prems(4) os by simp
  ultimately show ?case using Cons.prems(1-3) os
    by (subst wait_for_subscription_data.simps) (cases a; simp add: look_def harmless_def)
qed

section \<open>Examples\<close>

definition ex_cli :: "recv_answer list \<Rightarrow> poll_answer list \<Rightarrow> cli" where
  "ex_cli recvs polls = \<lparr>c_reader = \<lparr>rr_buffer = replicate READER_SIZE NUL, rr_begin = 0, rr_end = 0\<rparr>,
     subscription_interrupted = False, subscription_active = False, unsubscribe_sent = False,
     unsubscribe_command = None, unsubscribe_deadline = (0, 0), sigint_handler = SIG_DFL, sigpipe_handler = SIG_DFL,
     cli_heap = [], cli_fault = False, cli_stdout = [], cli_stderr = [], cli_sent = [],
     os_recv = recvs, os_send = [], os_poll = polls, os_clock = [], os_interrupt = \<lambda>n. False, os_looks = 0,
     os_stdout = \<lambda>n. True, os_writes = 0\<rparr>"

lemma ex_cli_flows:
  assumes "\<forall>a \<in> set os. a = Inl EINTR \<or> (\<exists>d. a = Inr d \<and> d \<noteq> [])"
  shows "flows (ex_cli os polls)" "unread (ex_cli os polls) = concat (map piece os)"
  using assms by (simp_all add: flows_def attended_def ex_cli_def unread_def)

lemma fmt_two: "fmt_nat (Suc (Suc 0)) = ''2''"
  by code_simp

section \<open>Properties\<close>

text \<open>
  C24. The buffered response reader is equivalent to a decoder on the byte stream. However the
  stream is cut into pieces and interrupted, \<open>render_response\<close> returns the status and the kind,
  prints the text and leaves unread the bytes that the reference decoder gives, on every stream,
  malformed ones included; it waits for more exactly when the reference finds the stream too
  short, and it never leaves its buffer.
\<close>

theorem reader_equivalent:
  assumes "flows c"
  shows "case response_spec (unread c) of None \<Rightarrow> render_response c = None
    | Some (status, kind, tx, rest) \<Rightarrow> \<exists>c'. render_response c = Some (status, kind, c') \<and>
        cli_stdout c' = cli_stdout c @ tx \<and> unread c' = rest \<and> flows c' \<and> cli_sent c' = cli_sent c"
proof (cases "response_spec (unread c)")
  case None
  with response_flows [OF assms] show ?thesis by simp
next
  case (Some q)
  obtain st k tx rest where q: "q = (st, k, tx, rest)" by (rule prod_cases4)
  with Some response_flows [OF assms] obtain c' where c': "render_response c = Some (st, k, c')" "printed c tx rest c'" by auto
  with Some q printedD [OF c'(2)] printed_stdout [OF c'(2)] show ?thesis by simp
qed

theorem reader_equivalent_witness:
  "\<exists>c'. render_response (ex_cli [Inr ''$2'', Inl EINTR, Inr ([CR, LF] @ ''h''), Inr (''i'' @ [CR, LF] @ ''+'')] []) =
     Some (RESPONSE_OK, Some RESPONSE_KIND_BULK, c') \<and> cli_stdout c' = ''hi'' @ [LF] \<and> unread c' = ''+''"
proof -
  let ?os = "[Inr ''$2'', Inl EINTR, Inr ([CR, LF] @ ''h''), Inr (''i'' @ [CR, LF] @ ''+'')]"
  have f: "flows (ex_cli ?os [])" and u: "unread (ex_cli ?os []) = bulk_text ''hi'' @ ''+''"
    using ex_cli_flows [of ?os "[]"] fmt_two by (simp_all add: piece_def bulk_text_def)
  from reader_equivalent [OF f] response_bulk [of "''hi''" "''+''"] show ?thesis
    unfolding u by (auto simp: KESSEL_CLI_MAX_LINE_def ex_cli_def)
qed

text \<open>
  C23. End to end. The requests on keys in the input buffer of a client are carried out, and when
  the command-line client receives what the server queued, cut into pieces in any way, it prints
  the answer of each request in order, in its form for people, and has then read exactly the
  bytes of these answers.
\<close>

theorem requests_rendered:
  assumes "server_inv s" "get_client s ci = Some c" "cl_used c" "env_ok env" "outbox c = []"
    and "inbox c = wire ls" "\<forall>l \<in> set ls. line_ok l"
    and "operations env (mt_total_commands (sv_metrics s)) ls = Some ops"
    and "kv_run ops (sv_store s) = Some (as, st)" "length (answers as) < KS_OUTPUT_HIGH_WATER"
  shows "\<exists>s' c'. process_requests env cfg s ci = Some (0, s') \<and> get_client s' ci = Some c' \<and>
    (\<forall>cli rest. flows cli \<and> unread cli = outbox c' @ rest \<longrightarrow>
      (\<exists>cli'. render_all (length ls) cli = Some (RESPONSE_OK, cli') \<and> unread cli' = rest \<and>
        cli_stdout cli' = cli_stdout cli @ concat (map answer_view as)))"
proof -
  obtain s' c' where
    1: "process_requests env cfg s ci = Some (0, s')" "get_client s' ci = Some c'" "outbox c' = answers as"
    and as: "\<forall>a \<in> set as. answer_ok a" "length as = length ls" by (rule requests_answers [OF assms, of cfg])
  have "\<exists>cli'. render_all (length ls) cli = Some (RESPONSE_OK, cli') \<and> unread cli' = rest \<and>
      cli_stdout cli' = cli_stdout cli @ concat (map answer_view as)"
    if cli: "flows cli" "unread cli = outbox c' @ rest" for cli rest
  proof -
    from render_answers [OF cli(1) cli(2) [unfolded 1(3)] as(1)] obtain cli' where
      "render_all (length as) cli = Some (RESPONSE_OK, cli')" "printed cli (concat (map answer_view as)) rest cli'" by blast
    with as(2) printedD printed_stdout(1) show ?thesis by metis
  qed
  with 1(1,2) show ?thesis by blast
qed

theorem requests_rendered_witness:
  "\<exists>s' c' cli'. process_requests ex_env ks_config_init (ex_server (''GET k'' @ [LF])) 0 = Some (0, s') \<and>
     get_client s' 0 = Some c' \<and> render_all 1 (ex_cli [Inr (outbox c' @ [NUL])] []) = Some (RESPONSE_OK, cli') \<and>
     cli_stdout cli' = ''v'' @ [LF]"
proof -
  let ?req = "''GET k'' @ [LF]" and ?as = "[Ans_Get (Some (''v'' @ [NUL])) 1]"
  obtain st where st: "kv_run [Op_Get ''k''] (sv_store (ex_server ?req)) = Some (?as, st)" by (rule ex_get) simp
  have t: "answers ?as = ''$1'' @ [CR, LF] @ ''v'' @ [CR, LF]" by code_simp
  have inv: "server_inv (ex_server ?req)" by (rule ex_server_inv) (simp add: KS_INPUT_CAP_def KS_MAX_REQUEST_def)
  have l: "inbox (ex_client ?req) = wire [''GET k'']" "\<forall>l \<in> set [''GET k'']. line_ok l"
    by (simp_all add: line_ok_def KS_MAX_REQUEST_def)
  have fits: "length (answers ?as) < KS_OUTPUT_HIGH_WATER"
    unfolding t by (simp add: KS_OUTPUT_HIGH_WATER_def KS_OUTPUT_CAP_def)
  have ops: "operations ex_env (mt_total_commands (sv_metrics (ex_server ?req))) [''GET k''] = Some [Op_Get ''k'']"
    using ex_operations by simp
  from requests_rendered [OF inv ex_server_simps(1) ex_client_simps(3) ex_env_ok ex_client_simps(2) l ops st fits,
      of ks_config_init] obtain s' c' where
    1: "process_requests ex_env ks_config_init (ex_server ?req) 0 = Some (0, s')" "get_client s' 0 = Some c'"
    and r: "\<And>cli rest. flows cli \<Longrightarrow> unread cli = outbox c' @ rest \<Longrightarrow>
      \<exists>cli'. render_all (length [''GET k'']) cli = Some (RESPONSE_OK, cli') \<and> unread cli' = rest \<and>
        cli_stdout cli' = cli_stdout cli @ concat (map answer_view ?as)" by metis
  have f: "flows (ex_cli [Inr (outbox c' @ [NUL])] [])" "unread (ex_cli [Inr (outbox c' @ [NUL])] []) = outbox c' @ [NUL]"
    using ex_cli_flows [of "[Inr (outbox c' @ [NUL])]"] by (simp_all add: piece_def)
  from r [OF f] 1 show ?thesis by (auto simp: ex_cli_def)
qed

text \<open>
  C25. The subscription mode shows nothing until it is interrupted. As long as no interrupt comes
  and \<open>poll\<close> does not fail, \<open>wait_for_subscription_data\<close> does not return when the reader
  is empty, however often \<open>poll\<close> reports that a message has arrived, and so the loop over the
  messages renders none of them.
\<close>

theorem subscription_stalls:
  assumes "rr_begin (c_reader c) = rr_end (c_reader c)" "\<not> subscription_interrupted c" "os_interrupt c = (\<lambda>n. False)"
    "\<forall>a \<in> set (os_poll c). harmless a"
  shows "wait_for_subscription_data c = None \<and> run_subscription False c = None"
proof -
  let ?c = "c\<lparr>subscription_interrupted := False, os_looks := Suc (os_looks c)\<rparr>"
  have "wait_for_subscription_data ?c = None" by (rule wait_stalls) (use assms in simp_all)
  then have "message_loop False c = None" using assms(2,3) by (subst message_loop.simps) (simp add: look_def)
  with wait_stalls [OF assms] show ?thesis by (simp add: run_subscription_def)
qed

theorem subscription_stalls_witness:
  "run_subscription False (ex_cli [Inr (message_text ''room'' ''hello'')] [Poll_Timeout, Poll_Event True, Poll_Event True]) = None"
  using subscription_stalls [of "ex_cli [Inr (message_text ''room'' ''hello'')] [Poll_Timeout, Poll_Event True, Poll_Event True]"]
  by (simp add: ex_cli_def harmless_def)

end
