(* ===== verification/Kessel_Cli_Program.thy ===== *)
theory Kessel_Cli_Program
  imports Kessel_Cli_Correct
begin

text \<open>
  The client as a whole. First what it holds: memory, the handler of the interrupt, descriptors
  and the objects of the input, all of which it gives back however it ends. Then what it does: the
  commands typed are sent, the responses are shown; and with the server, each command is carried
  out and its answer printed.
\<close>

section \<open>What is held\<close>

text \<open>What reading, rendering and waiting do not touch.\<close>

text \<open>A fault happened, or the command that leaves the mode points to memory that is not alive.\<close>

definition faulty :: "cli \<Rightarrow> bool" where
  "faulty c \<longleftrightarrow> cli_fault c \<or> unsubscribe_command c \<noteq> None \<and> Site_cli_unsubscribe \<notin> set (cli_heap c)"

definition held :: "cli \<Rightarrow> alloc_site list \<times> sighandler \<times> bytes option \<times> bool \<times> bool" where
  "held c = (cli_heap c, sigint_handler c, unsubscribe_command c, subscription_active c, faulty c)"

named_theorems held_step \<open>operations that keep what is held\<close>

lemma held_update [simp]:
  "held (c\<lparr>c_reader := r\<rparr>) = held c" "held (c\<lparr>subscription_interrupted := b\<rparr>) = held c"
  "held (c\<lparr>unsubscribe_sent := b\<rparr>) = held c" "held (c\<lparr>unsubscribe_deadline := t\<rparr>) = held c"
  "held (c\<lparr>cli_stdout := tx\<rparr>) = held c" "held (c\<lparr>cli_stderr := tx\<rparr>) = held c" "held (c\<lparr>cli_sent := tx\<rparr>) = held c"
  "held (c\<lparr>os_recv := rs\<rparr>) = held c" "held (c\<lparr>os_send := ss\<rparr>) = held c" "held (c\<lparr>os_poll := ps\<rparr>) = held c"
  "held (c\<lparr>os_clock := ts\<rparr>) = held c" "held (c\<lparr>os_looks := n\<rparr>) = held c" "held (c\<lparr>os_writes := n\<rparr>) = held c"
  by (simp_all add: held_def faulty_def)

lemma held_access [simp]: "unsubscribe_command c = Some u \<Longrightarrow> held (cli_access Site_cli_unsubscribe c) = held c"
  by (simp add: held_def faulty_def cli_access_def)

lemma held_put [simp]: "held (put tx c) = held c" "held (complain tx c) = held c" "held (advance n c) = held c"
  by (simp_all add: put_def complain_def advance_def)

lemma held_look [held_step]: "look c = (b, c') \<Longrightarrow> held c' = held c"
  by (auto simp: look_def Let_def)

lemma held_put_checked [held_step]: "put_checked tx c = (ok, c') \<Longrightarrow> held c' = held c"
  by (auto simp: put_checked_def Let_def split: if_splits)

lemma held_send [held_step]: "send_all tx c = Some (ok, c') \<Longrightarrow> held c' = held c"
  by (auto simp: send_all_def split: Option.bind_splits)

lemma held_clock [held_step]: "clock_gettime c = Some (t, c') \<Longrightarrow> held c' = held c"
  by (auto simp: clock_gettime_def split: list.splits)

lemma held_deadline [held_step]: "deadline_reached c = Some (b, c') \<Longrightarrow> held c' = held c"
  by (auto simp: deadline_reached_def dest!: held_step split: Option.bind_splits option.splits)

lemma held_unsubscribe [held_step]: "send_pending_unsubscribe c = Some (st, c') \<Longrightarrow> held c' = held c"
  by (auto simp: send_pending_unsubscribe_def Let_def dest!: held_step
      split: Option.bind_splits option.splits prod.splits if_splits)

lemma held_fill_wait [held_step]: "fill_wait c = Some (st, c') \<Longrightarrow> held c' = held c"
  by (auto simp: fill_wait_def Let_def dest!: held_step
      split: Option.bind_splits list.splits poll_answer.splits if_splits)

lemma held_fill_receive [held_step]: "fill_receive c = Some (st, c') \<Longrightarrow> held c' = held c"
  by (auto simp: fill_receive_def Let_def split: Option.bind_splits list.splits sum.splits if_splits)

lemma held_fill_reader [held_step]: "fill_reader c = Some (st, c') \<Longrightarrow> held c' = held c"
proof -
  have "held (snd r) = held c" if "fill_reader c = Some r" for r
    using that
  proof (induction rule: fill_reader.raw_induct [rotated, consumes 1, case_names round])
    case (round rec c r)
    from round(2) obtain w c1 where
      w: "(if subscription_active c then fill_wait c else Some (Fill_Receive, c)) = Some (w, c1)"
      and rest: "(case w of Fill_Return status \<Rightarrow> Some (status, c1) | Fill_Again \<Rightarrow> rec c1
        | Fill_Receive \<Rightarrow> do { (status, c) \<leftarrow> fill_receive c1;
            case status of Some status \<Rightarrow> Some (status, c) | None \<Rightarrow> rec c }) = Some r"
      by (auto split: Option.bind_splits)
    from w have h: "held c1 = held c" by (auto dest!: held_step split: if_splits)
    show ?case
    proof (cases w)
      case Fill_Receive
      with rest obtain st c2 where f: "fill_receive c1 = Some (st, c2)"
        "(case st of Some status \<Rightarrow> Some (status, c2) | None \<Rightarrow> rec c2) = Some r" by (auto split: Option.bind_splits)
      with round(1) [of c2 r] held_fill_receive [OF f(1)] h show ?thesis by (auto split: option.splits)
    qed (use rest h round(1) [of c1 r] in auto)
  qed
  then show "fill_reader c = Some (st, c') \<Longrightarrow> held c' = held c" by fastforce
qed

lemma held_refill [held_step]: "refill c = Some (st, c') \<Longrightarrow> held c' = held c"
  by (auto simp: refill_def dest!: held_step split: if_splits)

lemma held_read_byte [held_step]: "read_byte c = Some (st, b, c') \<Longrightarrow> held c' = held c"
  by (auto simp: read_byte_def dest!: held_step split: Option.bind_splits if_splits)

lemma held_read_exact [held_step]: "read_exact c out n = Some (st, tx, c') \<Longrightarrow> held c' = held c"
proof -
  have "held (snd (snd r)) = held c" if "read_exact c out n = Some r" for r
    using that
  proof (induction rule: read_exact.raw_induct [rotated, consumes 1, case_names round])
    case (round rec c out n r)
    show ?case
    proof (cases "n = 0")
      case False
      with round(2) obtain st c1 where f: "refill c = Some (st, c1)" by (auto split: Option.bind_splits)
      from held_refill [OF f] have h: "held (advance m c1) = held c" for m by simp
      show ?thesis
      proof (cases "st = RESPONSE_OK")
        case True
        let ?k = "if rr_end (c_reader c1) - rr_begin (c_reader c1) < n then rr_end (c_reader c1) - rr_begin (c_reader c1) else n"
        from round(2) False f True have "\<exists>out m. rec (advance ?k c1) out m = Some r"
          by (auto simp: Let_def split: if_splits)
        then obtain out' m where "rec (advance ?k c1) out' m = Some r" by blast
        from round(1) [OF this] show ?thesis using h by simp
      qed (use round(2) False f held_refill [OF f] in auto)
    qed (use round(2) in auto)
  qed
  then show "read_exact c out n = Some (st, tx, c') \<Longrightarrow> held c' = held c" by fastforce
qed

lemma held_read_header [held_step]: "read_header c out n = Some (st, tx, c') \<Longrightarrow> held c' = held c"
proof -
  have "held (snd (snd r)) = held c" if "read_header c out n = Some r" for r
    using that
  proof (induction rule: read_header.raw_induct [rotated, consumes 1, case_names round])
    case (round rec c out n r)
    from round(2) obtain st b c1 where f: "read_byte c = Some (st, b, c1)" by (auto split: Option.bind_splits)
    from held_read_byte [OF f] round(1) [of c1 "out @ [b]" n r] round(2) f show ?case by (auto split: if_splits)
  qed
  then show "read_header c out n = Some (st, tx, c') \<Longrightarrow> held c' = held c" by fastforce
qed

lemma held_copy_bulk [held_step]: "copy_bulk n c = Some (st, c') \<Longrightarrow> held c' = held c"
proof (induction n c arbitrary: st c' rule: copy_bulk.induct)
  case (1 n c)
  show ?case
  proof (cases "n = 0")
    case False
    let ?k = "if n < 4096 then n else 4096"
    from 1(2) False obtain s1 tx c1 where r: "read_exact c [] ?k = Some (s1, tx, c1)"
      by (subst (asm) copy_bulk.simps) (auto simp: Let_def split: Option.bind_splits)
    obtain ok c2 where p: "put_checked tx c1 = (ok, c2)" by (rule prod.exhaust)
    have h: "held c2 = held c" "held c1 = held c" using held_read_exact [OF r] held_put_checked [OF p] by simp_all
    show ?thesis
    proof (cases "s1 = RESPONSE_OK \<and> ok")
      case True
      with 1(2) False r p have go: "copy_bulk (n - ?k) c2 = Some (st, c')"
        by (subst (asm) copy_bulk.simps) (simp add: Let_def)
      have "held c' = held c2" by (rule 1(1) [OF False refl r]) (use True p go in auto)
      with h show ?thesis by simp
    next
      case no: False
      with 1(2) False r p h show ?thesis by (subst (asm) copy_bulk.simps) (auto simp: Let_def split: if_splits)
    qed
  qed (use 1(2) in \<open>simp add: copy_bulk.simps\<close>)
qed

lemma held_terminator [held_step]: "read_terminator c = Some (st, c') \<Longrightarrow> held c' = held c"
  by (auto simp: read_terminator_def dest!: held_step split: Option.bind_splits if_splits)

lemma held_bulk [held_step]: "render_bulk h c = Some (st, c') \<Longrightarrow> held c' = held c"
  by (auto simp: render_bulk_def dest!: held_step split: Option.bind_splits option.splits if_splits prod.splits)

lemma held_element [held_step]:
  assumes "render_element i c = Some (st, c')"
  shows "held c' = held c"
proof -
  from assms obtain s1 ty c1 where 1: "read_byte c = Some (s1, ty, c1)"
    by (auto simp: render_element_def split: Option.bind_splits)
  note a = assms [unfolded render_element_def 1 bind.bind_lunit prod.case]
  show ?thesis
  proof (cases "s1 = RESPONSE_OK \<and> ty = CHR ''$''")
    case True
    with a obtain s2 h c2 where 2: "read_header c1 [] 32 = Some (s2, h, c2)" by (auto split: Option.bind_splits)
    have h2: "held c2 = held c" using held_read_byte [OF 1] held_read_header [OF 2] by simp
    obtain ok c3 where 3: "(if i > 0 then put_checked '' '' c2 else (True, c2)) = (ok, c3)" by (rule prod.exhaust)
    have h3: "held c3 = held c" using 3 h2 held_put_checked [of "'' ''" c2 ok c3] by (simp split: if_splits)
    obtain ok' c4 where 4: "put_checked ''(nil)'' c3 = (ok', c4)" by (rule prod.exhaust)
    have h4: "held c4 = held c" using held_put_checked [OF 4] h3 by simp
    have 5: "held c5 = held c" if "copy_bulk m c3 = Some (s5, c5)" for m s5 c5 using held_copy_bulk [OF that] h3 by simp
    have 6: "held c6 = held c" if "copy_bulk m c3 = Some (s5, c5)" "read_terminator c5 = Some (s6, c6)" for m s5 c5 s6 c6
      using 5 [OF that(1)] held_terminator [OF that(2)] by simp
    show ?thesis
    proof (cases "s2 = RESPONSE_OK \<and> bulk_length h \<noteq> None \<and> ok")
      case True
      then obtain n where "s2 = RESPONSE_OK" "bulk_length h = Some n" ok by auto
      with \<open>s1 = RESPONSE_OK \<and> ty = CHR ''$''\<close> a 2 3 4 h4 5 6 show ?thesis
        by (simp add: Let_def split: Option.bind_splits if_splits prod.splits)
    next
      case False
      with \<open>s1 = RESPONSE_OK \<and> ty = CHR ''$''\<close> a 2 3 h2 h3 show ?thesis
        by (simp add: Let_def split: option.splits if_splits prod.splits)
    qed
  next
    case False
    with a held_read_byte [OF 1] show ?thesis by (auto split: if_splits)
  qed
qed

lemma held_elements [held_step]: "render_elements i n c = Some (st, c') \<Longrightarrow> held c' = held c"
  by (induction i n c arbitrary: st c' rule: render_elements.induct)
    (auto dest!: held_step split: Option.bind_splits if_splits)

lemma held_array [held_step]: "render_array h c = Some (st, c') \<Longrightarrow> held c' = held c"
  by (auto simp: render_array_def dest!: held_step split: Option.bind_splits option.splits if_splits prod.splits)

lemma held_response [held_step]:
  assumes "render_response c = Some (st, k, c')"
  shows "held c' = held c"
proof -
  from assms obtain s1 ty c1 where 1: "read_byte c = Some (s1, ty, c1)"
    by (auto simp: render_response_def split: Option.bind_splits)
  note a = assms [unfolded render_response_def 1 bind.bind_lunit prod.case]
  show ?thesis
  proof (cases "s1 = RESPONSE_OK")
    case True
    with a obtain s2 h c2 where 2: "read_header c1 [] (KESSEL_CLI_MAX_LINE + 1) = Some (s2, h, c2)"
      by (auto split: Option.bind_splits)
    have h2: "held c2 = held c" using held_read_byte [OF 1] held_read_header [OF 2] by simp
    note a = a [unfolded 2 bind.bind_lunit prod.case]
    show ?thesis
    proof (cases "s2 = RESPONSE_OK")
      case ok: True
      have b: "held c3 = held c" if "render_bulk h c2 = Some (s3, c3)" for s3 c3 using held_bulk [OF that] h2 by simp
      have r: "held c3 = held c" if "render_array h c2 = Some (s3, c3)" for s3 c3 using held_array [OF that] h2 by simp
      from a True ok h2 b r show ?thesis
        by (auto split: Option.bind_splits option.splits if_splits)
    qed (use a True h2 in simp)
  qed (use a held_read_byte [OF 1] in simp)
qed

lemma held_wait [held_step]: "wait_for_subscription_data c = Some (st, c') \<Longrightarrow> held c' = held c"
proof -
  have "held (snd r) = held c" if "wait_for_subscription_data c = Some r" for r
    using that
  proof (induction rule: wait_for_subscription_data.raw_induct [rotated, consumes 1, case_names round])
    case (round rec c r)
    obtain i c1 where l: "look c = (i, c1)" by (rule prod.exhaust)
    show ?case
    proof (cases "rr_begin (c_reader c) \<noteq> rr_end (c_reader c) \<or> i \<or> os_poll c1 = []")
      case False
      then obtain a os where os: "os_poll c1 = a # os" by (cases "os_poll c1") auto
      with round(2) False l have "r = (RESPONSE_IO_ERROR, c1\<lparr>os_poll := os\<rparr>) \<or> rec (c1\<lparr>os_poll := os\<rparr>) = Some r"
        by (auto split: if_splits)
      with round(1) [of "c1\<lparr>os_poll := os\<rparr>" r] held_look [OF l] show ?thesis by auto
    qed (use round(2) l held_look [OF l] in \<open>auto split: if_splits\<close>)
  qed
  then show "wait_for_subscription_data c = Some (st, c') \<Longrightarrow> held c' = held c" by fastforce
qed

lemma held_messages [held_step]: "message_loop i c = Some (st, c') \<Longrightarrow> held c' = held c"
proof -
  have "held (snd r) = held c" if "message_loop i c = Some r" for r
    using that
  proof (induction rule: message_loop.raw_induct [rotated, consumes 1, case_names round])
    case (round rec i c r)
    from round(2) consider c1 where "held c1 = held c" "r = (fst r, c1)"
      | c1 where "held c1 = held c" "rec i c1 = Some r"
      by (auto simp: Let_def dest!: held_step split: Option.bind_splits if_splits prod.splits)
    then show ?case
    proof cases
      case 1
      then show ?thesis by (metis snd_conv)
    next
      case 2
      with round(1) [OF 2(2)] show ?thesis by simp
    qed
  qed
  then show "message_loop i c = Some (st, c') \<Longrightarrow> held c' = held c" by fastforce
qed

lemma held_drain [held_step]: "drain_loop c = Some (st, c') \<Longrightarrow> held c' = held c"
proof -
  have "held (snd r) = held c" if "drain_loop c = Some r" for r
    using that
  proof (induction rule: drain_loop.raw_induct [rotated, consumes 1, case_names round])
    case (round rec c r)
    from round(2) obtain s k c1 where f: "render_response c = Some (s, k, c1)" by (auto split: Option.bind_splits)
    with round(2) have "r = (s, c1) \<or> rec c1 = Some r" by (auto split: if_splits)
    with round(1) [of c1 r] held_response [OF f] show ?case by auto
  qed
  then show "drain_loop c = Some (st, c') \<Longrightarrow> held c' = held c" by fastforce
qed

lemma held_subscription [held_step]:
  assumes "run_subscription i c = Some (st, c')"
  shows "held c' = held c"
proof -
  from assms obtain s1 c1 where 1: "message_loop i c = Some (s1, c1)"
    by (auto simp: run_subscription_def split: Option.bind_splits)
  obtain b c2 where 2: "(if s1 = RESPONSE_OK then look c1 else (False, c1)) = (b, c2)" by (rule prod.exhaust)
  have h: "held c2 = held c"
    using 2 held_messages [OF 1] held_look [of c1 b c2] by (simp split: if_splits)
  from assms 1 2 h show ?thesis
    by (auto simp: run_subscription_def dest!: held_step split: Option.bind_splits if_splits)
qed

section \<open>What is given back\<close>

















section \<open>What is done\<close>

text \<open>The line of a command as it is sent, and the request with its terminator.\<close>

definition sent_line :: "bytes \<Rightarrow> bytes" where
  "sent_line l = take (command_length l) l @ [CR]"

definition spoken :: "bytes list \<Rightarrow> bytes list" where
  "spoken ls = filter (\<lambda>l. command_length l \<noteq> 0) ls"

text \<open>A line that is no exit, not too long and, unless it is empty, not a SUBSCRIBE.\<close>

definition ordinary :: "bytes \<Rightarrow> bool" where
  "ordinary l \<longleftrightarrow> \<not> is_exit_command l \<and> command_length l \<le> KESSEL_CLI_MAX_LINE \<and>
     (command_length l = 0 \<or> (\<forall>al c. copy_subscribe_argument al l c = (SUBSCRIBE_NOT_COMMAND, None, c)))"

text \<open>A socket that takes at least a number of bytes, in any pieces.\<close>

definition delivers :: "send_answer list \<Rightarrow> nat \<Rightarrow> bool" where
  "delivers os n \<longleftrightarrow> (\<forall>a \<in> set os. a = Inl EINTR \<or> (\<exists>m > 0. a = Inr m)) \<and>
     n \<le> length (filter (\<lambda>a. a \<noteq> Inl EINTR) os)"

lemma write_all_delivers:
  "delivers os (length d + m) \<Longrightarrow> \<exists>os'. write_all os d = Some (True, d, os') \<and> delivers os' m"
proof (induction os d rule: write_all.induct)
  case (3 n os x xs)
  from 3(2) have n: "n > 0" by (auto simp: delivers_def)
  have "delivers os (length (drop n (x # xs)) + m)" using 3(2) n by (auto simp: delivers_def)
  from 3(1) [OF n this] obtain os' where "write_all os (drop n (x # xs)) = Some (True, drop n (x # xs), os')" "delivers os' m"
    by blast
  with n show ?case by (auto simp del: drop_Suc_Cons take_Suc_Cons)
next
  case (4 e os x xs)
  from 4(2) have e: "e = EINTR" "delivers os (length (x # xs) + m)" by (auto simp: delivers_def)
  from 4(1) [OF e] e(1) show ?case by auto
qed (auto simp: delivers_def)

lemma drop_end_le: "drop_end p l n \<le> n"
  by (induction n) auto

lemma command_length_le: "command_length l \<le> length l"
  by (simp add: command_length_def drop_end_le)

lemma sent_line_length: "length (sent_line l) = command_length l + 1"
  using command_length_le [of l] by (simp add: sent_line_def)

lemma send_delivers:
  assumes "delivers (os_send c) (length (sent_line l @ [LF]) + m)"
  obtains os where "send_command l c = Some (True, c\<lparr>os_send := os, cli_sent := cli_sent c @ sent_line l @ [LF]\<rparr>)" "delivers os m"
proof -
  let ?d = "take (command_length l) l"
  have "delivers (os_send c) (length ?d + (2 + m))" using assms by (simp add: sent_line_def add.assoc)
  from write_all_delivers [OF this] obtain os where
    1: "write_all (os_send c) ?d = Some (True, ?d, os)" "delivers os (length [CR, LF] + m)" by auto
  from write_all_delivers [OF 1(2)] obtain os' where
    2: "write_all os [CR, LF] = Some (True, [CR, LF], os')" "delivers os' m" by blast
  from 1(1) 2 show thesis by (intro that [of os']) (simp_all add: send_command_def send_all_def sent_line_def)
qed

text \<open>A response, by what is printed of it, whatever follows it.\<close>

definition response :: "bytes \<times> bytes \<Rightarrow> bool" where
  "response r \<longleftrightarrow> (\<forall>s. \<exists>k. response_spec (fst r @ s) = Some (RESPONSE_OK, Some k, snd r, s))"

lemma turn_ordinary:
  assumes l: "ordinary l" "command_length l \<noteq> 0" and c: "flows c" "unread c = fst r @ s" "response r"
    and d: "delivers (os_send c) (length (sent_line l @ [LF]) + m)"
  obtains c' where "turn os l c = Some (None, c')" "flows c'" "unread c' = s" "cli_stdout c' = cli_stdout c @ snd r"
    "cli_sent c' = cli_sent c @ sent_line l @ [LF]" "cli_stderr c' = cli_stderr c" "delivers (os_send c') m"
proof -
  from d obtain ss where
    1: "send_command l c = Some (True, c\<lparr>os_send := ss, cli_sent := cli_sent c @ sent_line l @ [LF]\<rparr>)" "delivers ss m"
    by (rule send_delivers)
  let ?c = "c\<lparr>os_send := ss, cli_sent := cli_sent c @ sent_line l @ [LF]\<rparr>"
  have f: "flows ?c" "unread ?c = fst r @ s" using c(1,2) by (simp_all add: flows_def attended_def unread_def)
  from c(3) obtain k where "response_spec (unread ?c) = Some (RESPONSE_OK, Some k, snd r, s)"
    unfolding f(2) response_def by blast
  with response_flows [OF f(1)] obtain c' where
    2: "render_response ?c = Some (RESPONSE_OK, Some k, c')" "printed ?c (snd r) s c'" by auto
  from 2(2) obtain rd rs w i k ts ps where c': "flows c'" "unread c' = s"
    "c' = ?c\<lparr>c_reader := rd, os_recv := rs, cli_stdout := cli_stdout ?c @ snd r, os_writes := w,
      subscription_interrupted := i, os_looks := k, os_clock := ts, os_poll := ps\<rparr>" by (rule printedE)
  have "turn os l c = Some (None, c')"
    using l 1(1) 2(1)
    by (simp add: turn_def ordinary_def exchange_def answer_turn_def release_unsubscribe_def release_argument_def cli_free_def)
  with c' 1(2) show thesis by (intro that [of c']) simp_all
qed

text \<open>What a session shows: the prompts, and the response to each command that is not empty.\<close>

fun transcript :: "bytes \<Rightarrow> bytes list \<Rightarrow> bytes list \<Rightarrow> bytes" where
  "transcript p [] views = p"
| "transcript p (l # ls) views =
     p @ (if command_length l = 0 then transcript p ls views else hd views @ transcript p ls (tl views))"

definition shown_prompt :: "session_env \<Rightarrow> bytes" where
  "shown_prompt se = (if se_interactive se \<and> \<not> se_libedit se then ''kessel> '' else [])"

definition session_ends :: "session_env \<Rightarrow> bytes list \<Rightarrow> bool" where
  "session_ends se lines \<longleftrightarrow> (case lines of [] \<Rightarrow> \<not> se_input_error se | l # ls \<Rightarrow> is_exit_command l)"

lemma input_read_put:
  "\<exists>input'. input_read (se_libedit se) (se_interactive se) a input c = (a, input', put (shown_prompt se) c)"
  by (cases a) (auto simp: input_read_def shown_prompt_def put_def Let_def)

lemma put_fields [simp]:
  "flows (put tx c) = flows c" "unread (put tx c) = unread c" "cli_stdout (put tx c) = cli_stdout c @ tx"
  "cli_sent (put tx c) = cli_sent c" "cli_stderr (put tx c) = cli_stderr c" "os_send (put tx c) = os_send c"
  by (simp_all add: put_def)

lemma session_commands:
  assumes "flows c" "\<forall>l \<in> set ls. ordinary l" "session_ends se es"
    and "unread c = concat (map fst rs) @ s" "\<forall>r \<in> set rs. response r" "length rs = length (spoken ls)"
    and "delivers (os_send c) (length (wire (map sent_line (spoken ls))))"
  shows "\<exists>input' c'. session_loop se n (ls @ es) input c = Some (EXIT_SUCCESS, input', c') \<and>
    cli_stdout c' = cli_stdout c @ transcript (shown_prompt se) ls (map snd rs) \<and>
    cli_sent c' = cli_sent c @ wire (map sent_line (spoken ls)) \<and> cli_stderr c' = cli_stderr c"
  using assms
proof (induction ls arbitrary: n input c rs)
  case Nil
  show ?case
  proof (cases es)
    case Nil
    obtain i where "input_read (se_libedit se) (se_interactive se) None input c = (None, i, put (shown_prompt se) c)"
      using input_read_put by blast
    with Nil \<open>session_ends se es\<close> show ?thesis by (simp add: session_ends_def spoken_def)
  next
    case (Cons l es')
    obtain i where "input_read (se_libedit se) (se_interactive se) (Some l) input c = (Some l, i, put (shown_prompt se) c)"
      using input_read_put by blast
    with Cons \<open>session_ends se es\<close> show ?thesis by (simp add: session_ends_def turn_def spoken_def)
  qed
next
  case (Cons l ls)
  obtain i where r: "input_read (se_libedit se) (se_interactive se) (Some l) input c = (Some l, i, put (shown_prompt se) c)"
    using input_read_put by blast
  let ?c = "put (shown_prompt se) c"
  have l: "ordinary l" "\<forall>l \<in> set ls. ordinary l" using Cons.prems(2) by simp_all
  show ?case
  proof (cases "command_length l = 0")
    case True
    with l(1) have t: "turn (se_turn se n) l ?c = Some (None, ?c)" by (simp add: turn_def ordinary_def)
    from True Cons.prems have "\<exists>input' c'. session_loop se (Suc n) (ls @ es) i ?c = Some (EXIT_SUCCESS, input', c') \<and>
        cli_stdout c' = cli_stdout ?c @ transcript (shown_prompt se) ls (map snd rs) \<and>
        cli_sent c' = cli_sent ?c @ wire (map sent_line (spoken ls)) \<and> cli_stderr c' = cli_stderr ?c"
      by (intro Cons.IH) (simp_all add: spoken_def)
    with r t True show ?thesis by (simp add: spoken_def)
  next
    case False
    with Cons.prems(6) obtain q qs where rs: "rs = q # qs" "length qs = length (spoken ls)"
      by (cases rs) (simp_all add: spoken_def)
    let ?m = "length (wire (map sent_line (spoken ls)))"
    have d: "delivers (os_send ?c) (length (sent_line l @ [LF]) + ?m)"
      using Cons.prems(7) False by (simp add: spoken_def)
    have u: "flows ?c" "unread ?c = fst q @ (concat (map fst qs) @ s)" "response q" using Cons.prems(1,4,5) rs(1) by simp_all
    from turn_ordinary [OF l(1) False u d, of "se_turn se n"] obtain c1 where
      t: "turn (se_turn se n) l ?c = Some (None, c1)" and c1: "flows c1" "unread c1 = concat (map fst qs) @ s"
        "cli_stdout c1 = cli_stdout ?c @ snd q" "cli_sent c1 = cli_sent ?c @ sent_line l @ [LF]" "cli_stderr c1 = cli_stderr ?c"
        "delivers (os_send c1) ?m" .
    have "\<exists>input' c'. session_loop se (Suc n) (ls @ es) i c1 = Some (EXIT_SUCCESS, input', c') \<and>
        cli_stdout c' = cli_stdout c1 @ transcript (shown_prompt se) ls (map snd qs) \<and>
        cli_sent c' = cli_sent c1 @ wire (map sent_line (spoken ls)) \<and> cli_stderr c' = cli_stderr c1"
      using c1(1,2,6) Cons.prems(3,5) rs l(2) by (intro Cons.IH) simp_all
    with r t False rs(1) c1(3-5) show ?thesis by (simp add: spoken_def)
  qed
qed

text \<open>A session that starts: good arguments, a connection, an input, and lines that end it.\<close>

definition session_ready :: "session_env \<Rightarrow> bytes list \<Rightarrow> bool" where
  "session_ready se ls \<longleftrightarrow>
     (case parse_args_cli (se_program se) (se_args se) of (status, config, ps) \<Rightarrow>
        status = 0 \<and> 0 \<le> fst (connect_to_server (se_strerror se) config (se_resolver se))) \<and>
     (se_libedit se \<and> se_interactive se \<longrightarrow> se_editor se = (True, True)) \<and>
     flows (start_cli (se_cli se)) \<and> (\<exists>es. se_lines se = ls @ es \<and> session_ends se es) \<and>
     (\<forall>l \<in> set ls. ordinary l) \<and> delivers (os_send (se_cli se)) (length (wire (map sent_line (spoken ls))))"

lemma args_loop_result: "cli_args_loop p as config = (Some n, config', ps) \<Longrightarrow> n \<noteq> 0"
  by (induction p as config rule: cli_args_loop.induct) (auto split: if_splits list.splits)

lemma parse_args_quiet: "parse_args_cli p as = (0, config, ps) \<Longrightarrow> ps = []"
  using args_loop_result by (fastforce simp: parse_args_cli_def Let_def split: prod.splits option.splits if_splits)

lemma input_init_ok: "(libedit \<and> interactive \<longrightarrow> e = (True, True)) \<Longrightarrow> \<exists>input. input_init libedit e interactive = (0, input, [])"
  by (cases "libedit \<and> interactive") (auto simp: input_init_def Let_def)

lemma main_commands:
  assumes "session_ready se ls" "unread (start_cli (se_cli se)) = concat (map fst rs) @ s" "\<forall>r \<in> set rs. response r"
    and "length rs = length (spoken ls)"
  shows "\<exists>r. cli_main se = Some r \<and> mr_code r = EXIT_SUCCESS \<and>
    cli_sent (mr_cli r) = wire (map sent_line (spoken ls)) \<and>
    cli_stdout (mr_cli r) = transcript (shown_prompt se) ls (map snd rs) \<and> cli_stderr (mr_cli r) = []"
proof -
  obtain st config ps where p: "parse_args_cli (se_program se) (se_args se) = (st, config, ps)" by (rule prod_cases3)
  with assms(1) have st: "st = 0" by (simp add: session_ready_def)
  with p parse_args_quiet have ps: "ps = []" by blast
  obtain fd closed message where n: "connect_to_server (se_strerror se) config (se_resolver se) = (fd, closed, message)"
    by (rule prod_cases3)
  have fd: "\<not> fd < 0" "message = []"
    using assms(1) p n by (auto simp: session_ready_def connect_to_server_def split: if_splits prod.splits)
  obtain input where i: "input_init (se_libedit se) (se_editor se) (se_interactive se) = (0, input, [])"
    using input_init_ok [of "se_libedit se" "se_interactive se" "se_editor se"] assms(1) unfolding session_ready_def by blast
  let ?c = "complain message ((print_all ps (start_cli (se_cli se)))\<lparr>sigpipe_handler := SIG_IGN\<rparr>)"
  have c: "flows ?c" "unread ?c = concat (map fst rs) @ s" "cli_stdout ?c = []" "cli_sent ?c = []" "cli_stderr ?c = []"
    "os_send ?c = os_send (se_cli se)"
    using assms(1,2) ps fd(2)
    by (simp_all add: session_ready_def print_all_def complain_def flows_def attended_def unread_def) (simp_all add: start_cli_def)
  from assms(1) obtain es where es: "se_lines se = ls @ es" "session_ends se es" by (auto simp: session_ready_def)
  have "\<exists>input' c'. session_loop se 0 (ls @ es) input ?c = Some (EXIT_SUCCESS, input', c') \<and>
    cli_stdout c' = cli_stdout ?c @ transcript (shown_prompt se) ls (map snd rs) \<and>
    cli_sent c' = cli_sent ?c @ wire (map sent_line (spoken ls)) \<and> cli_stderr c' = cli_stderr ?c"
    using assms(1,3,4) es(2) c by (intro session_commands) (simp_all add: session_ready_def)
  then obtain input' c' where l: "session_loop se 0 (se_lines se) input ?c = Some (EXIT_SUCCESS, input', c')"
    "cli_stdout c' = transcript (shown_prompt se) ls (map snd rs)" "cli_sent c' = wire (map sent_line (spoken ls))"
    "cli_stderr c' = []" using es(1) c(3-5) by auto
  with p st n fd i show ?thesis by (simp add: cli_main_def)
qed

lemma valid_port_text: "1 \<le> n \<Longrightarrow> n \<le> 65535 \<Longrightarrow> valid_port (Some (fmt_nat n))"
  using fmt_nat_ne [of n] by (simp add: valid_port_def c_strtoul_def strto_fmt_nat ULONG_MAX_def)

section \<open>An example\<close>

definition ex_session :: "bytes \<Rightarrow> session_env" where
  "ex_session answer =
     \<lparr>se_libedit = False, se_program = ''kessel-cli'', se_args = [''-p'', ''81''],
      se_resolver = \<lparr>ro_result = 0, ro_gai_text = [],
        ro_addresses = [(Inl (Errno 97), None), (Inr 7, Some (Errno 111)), (Inr 8, None)]\<rparr>,
      se_strerror = (\<lambda>e. ''refused''), se_interactive = True, se_editor = (False, False),
      se_lines = [''GET k'' @ [LF], [LF], ''exit'' @ [LF]], se_input_error = False,
      se_turn = (\<lambda>n. \<lparr>to_alloc = mem_ok, to_signal_ok = True, to_error_text = []\<rparr>),
      se_cli = (ex_cli [Inr answer] [])\<lparr>os_send := [Inr 4, Inl EINTR, Inr 1, Inr 1, Inr 1, Inr 1, Inr 1, Inr 1]\<rparr>\<rparr>"

abbreviation ex_lines :: "bytes list" where
  "ex_lines \<equiv> [''GET k'' @ [LF], [LF]]"

lemma ex_args: "parse_args_cli ''kessel-cli'' [''-p'', ''81''] = (0, \<lparr>cc_host = ''127.0.0.1'', cc_port = ''81''\<rparr>, [])"
proof -
  have "fmt_nat 81 = ''81''" by code_simp
  then have "valid_port (Some ''81'')" using valid_port_text [of 81] by simp
  moreover have "cli_args_loop ''kessel-cli'' [''-p'', ''81''] \<lparr>cc_host = ''127.0.0.1'', cc_port = ''7070''\<rparr> =
      (None, \<lparr>cc_host = ''127.0.0.1'', cc_port = ''81''\<rparr>, [])" by code_simp
  ultimately show ?thesis
    by (simp add: parse_args_cli_def KESSEL_CLI_DEFAULT_HOST_def KESSEL_CLI_DEFAULT_PORT_def)
qed

lemma ex_spoken: "spoken ex_lines = [''GET k'' @ [LF]]" "map sent_line (spoken ex_lines) = [''GET k'' @ [CR]]"
  by code_simp+

lemma ex_ordinary: "ordinary (''GET k'' @ [LF])" "ordinary [LF]"
proof -
  have e: "is_exit_command (''GET k'' @ [LF]) = False" "is_exit_command [LF] = False"
    "command_length (''GET k'' @ [LF]) = 5" "command_length [LF] = 0"
    "length (dropWhile is_blank (take (command_length (''GET k'' @ [LF])) (''GET k'' @ [LF]))) \<le> 9" by code_simp+
  have "copy_subscribe_argument al (''GET k'' @ [LF]) c = (SUBSCRIBE_NOT_COMMAND, None, c)" for al c
    unfolding copy_subscribe_argument_def Let_def by (simp only: e(5) simp_thms if_True)
  moreover have "command_length (''GET k'' @ [LF]) \<le> KESSEL_CLI_MAX_LINE" unfolding e(3) by (simp add: KESSEL_CLI_MAX_LINE_def)
  ultimately show "ordinary (''GET k'' @ [LF])" unfolding ordinary_def using e(1) by (simp only: simp_thms)
  show "ordinary [LF]" unfolding ordinary_def by (simp only: e(2,4) simp_thms le0)
qed

lemma ex_session_ready: "answer \<noteq> [] \<Longrightarrow> session_ready (ex_session answer) ex_lines"
  "unread (start_cli (se_cli (ex_session answer))) = answer"
proof -
  have x: "is_exit_command (''exit'' @ [LF])" by code_simp
  have c: "flows (start_cli (se_cli (ex_session answer)))" if "answer \<noteq> []"
    using that by (simp add: flows_def attended_def start_cli_def ex_session_def ex_cli_def)
  have "delivers (os_send (se_cli (ex_session answer))) (length (wire (map sent_line (spoken ex_lines))))"
    unfolding ex_spoken(2) by (auto simp: delivers_def ex_session_def)
  moreover have "0 \<le> fst (connect_to_server (se_strerror (ex_session answer)) config (se_resolver (ex_session answer)))" for config
    by (simp add: connect_to_server_def ex_session_def)
  moreover have "\<exists>es. se_lines (ex_session answer) = ex_lines @ es \<and> session_ends (ex_session answer) es"
    using x by (intro exI [of _ "[''exit'' @ [LF]]"]) (simp add: ex_session_def session_ends_def)
  moreover have "parse_args_cli (se_program (ex_session answer)) (se_args (ex_session answer)) =
      (0, \<lparr>cc_host = ''127.0.0.1'', cc_port = ''81''\<rparr>, [])"
    using ex_args by (simp add: ex_session_def)
  moreover have "\<not> se_libedit (ex_session answer)" by (simp add: ex_session_def)
  ultimately show "session_ready (ex_session answer) ex_lines" if "answer \<noteq> []"
    using c [OF that] ex_ordinary unfolding session_ready_def by simp
  show "unread (start_cli (se_cli (ex_session answer))) = answer"
    by (simp add: unread_def start_cli_def ex_session_def ex_cli_def piece_def)
qed


section \<open>Properties\<close>

text \<open>
  C3. From the keyboard to the store and back. A user types commands on keys, with empty lines in
  between, and ends with an exit or the end of the input. The bytes that the client sends are the
  commands; when a server has received them it carries out exactly the operations they stand for;
  and the client, receiving what the server queued in any pieces, with a socket that takes the
  commands in any pieces, returns success, having shown the prompts and, for each command in order,
  the form for people of the answer, and nothing on the standard error.
\<close>

theorem session_served:
  assumes "server_inv s" "get_client s ci = Some c" "cl_used c" "env_ok env" "outbox c = []"
    and "inbox c = wire (map sent_line (spoken ls))" "\<forall>l \<in> set (map sent_line (spoken ls)). line_ok l"
    and "operations env (mt_total_commands (sv_metrics s)) (map sent_line (spoken ls)) = Some ops"
    and "kv_run ops (sv_store s) = Some (as, st)" "length (answers as) < KS_OUTPUT_HIGH_WATER"
  shows "\<exists>s' c'. process_requests env cfg s ci = Some (0, s') \<and> get_client s' ci = Some c' \<and> sv_store s' = st \<and>
    outbox c' = answers as \<and> (\<forall>se. session_ready se ls \<and> unread (start_cli (se_cli se)) = outbox c' \<longrightarrow>
      (\<exists>r. cli_main se = Some r \<and> mr_code r = EXIT_SUCCESS \<and> cli_sent (mr_cli r) = inbox c \<and>
        cli_stdout (mr_cli r) = transcript (shown_prompt se) ls (map answer_view as) \<and> cli_stderr (mr_cli r) = []))"
proof -
  obtain s' c' where
    1: "process_requests env cfg s ci = Some (0, s')" "get_client s' ci = Some c'" "outbox c' = answers as" "sv_store s' = st"
    and as: "\<forall>a \<in> set as. answer_ok a" "length as = length (map sent_line (spoken ls))"
    by (rule requests_answers [OF assms, of cfg])
  let ?rs = "map (\<lambda>a. (answer_text a, answer_view a)) as"
  have "\<exists>r. cli_main se = Some r \<and> mr_code r = EXIT_SUCCESS \<and> cli_sent (mr_cli r) = inbox c \<and>
      cli_stdout (mr_cli r) = transcript (shown_prompt se) ls (map answer_view as) \<and> cli_stderr (mr_cli r) = []"
    if se: "session_ready se ls" "unread (start_cli (se_cli se)) = outbox c'" for se
  proof -
    have "unread (start_cli (se_cli se)) = concat (map fst ?rs) @ []"
      using se(2) 1(3) by (simp add: answers_def comp_def)
    from main_commands [OF se(1) this] as answer_rendered assms(6) show ?thesis
      by (simp add: response_def comp_def)
  qed
  with 1 show ?thesis by blast
qed

theorem session_served_witness:
  "\<exists>s' c' r. process_requests ex_env ks_config_init (ex_server (''GET k'' @ [CR, LF])) 0 = Some (0, s') \<and>
     get_client s' 0 = Some c' \<and> cli_main (ex_session (outbox c')) = Some r \<and>
     cli_sent (mr_cli r) = ''GET k'' @ [CR, LF] \<and>
     cli_stdout (mr_cli r) = ''kessel> v'' @ [LF] @ ''kessel> kessel> ''"
proof -
  let ?req = "''GET k'' @ [CR, LF]" and ?as = "[Ans_Get (Some (''v'' @ [NUL])) 1]"
  obtain st where st: "kv_run [Op_Get ''k''] (sv_store (ex_server ?req)) = Some (?as, st)" by (rule ex_get) simp
  have t: "answers ?as = bulk_text ''v''" "answer_view (hd ?as) = ''v'' @ [LF]" "length (answers ?as) = 7" by code_simp+
  have inv: "server_inv (ex_server ?req)" by (rule ex_server_inv) (simp add: KS_INPUT_CAP_def KS_MAX_REQUEST_def)
  have l: "inbox (ex_client ?req) = wire (map sent_line (spoken ex_lines))"
    "\<forall>l \<in> set (map sent_line (spoken ex_lines)). line_ok l"
    unfolding ex_spoken(2) by (simp_all add: line_ok_def KS_MAX_REQUEST_def)
  have fits: "length (answers ?as) < KS_OUTPUT_HIGH_WATER"
    unfolding t(3) by (simp add: KS_OUTPUT_HIGH_WATER_def KS_OUTPUT_CAP_def)
  have "trimmed (''GET k'' @ [CR] @ [LF]) = ''GET k''" "words ''GET k'' = Some [''GET'', ''k'']" "map c_toupper ''GET'' = ''GET''"
    by code_simp+
  then have ops: "operations ex_env (mt_total_commands (sv_metrics (ex_server ?req))) (map sent_line (spoken ex_lines)) =
      Some [Op_Get ''k'']"
    unfolding ex_spoken(2) by (simp add: parse_spec_def KS_MAX_REQUEST_def KS_MAX_ARGS_def kv_command_def)
  from session_served [OF inv ex_server_simps(1) ex_client_simps(3) ex_env_ok ex_client_simps(2) l ops st fits,
      of ks_config_init] obtain s' c' where
    1: "process_requests ex_env ks_config_init (ex_server ?req) 0 = Some (0, s')" "get_client s' 0 = Some c'"
      "outbox c' = answers ?as"
    and r: "\<And>se. session_ready se ex_lines \<Longrightarrow> unread (start_cli (se_cli se)) = outbox c' \<Longrightarrow>
      \<exists>r. cli_main se = Some r \<and> cli_sent (mr_cli r) = inbox (ex_client ?req) \<and>
        cli_stdout (mr_cli r) = transcript (shown_prompt se) ex_lines (map answer_view ?as)" by metis
  have n: "outbox c' \<noteq> []" unfolding 1(3) t(1) by (simp add: bulk_text_def)
  have "transcript (shown_prompt (ex_session (outbox c'))) ex_lines (map answer_view ?as) =
      ''kessel> v'' @ [LF] @ ''kessel> kessel> ''"
    using t(2) by (simp add: shown_prompt_def ex_session_def command_length_def is_newline_def)
  with r [OF ex_session_ready(1) [OF n] ex_session_ready(2)] 1(1,2) show ?thesis by auto
qed



end
