(* ===== verification/Kessel_Cli_Subscribe.thy ===== *)
theory Kessel_Cli_Subscribe
  imports Kessel_Cli_Program
begin

text \<open>
  The end of a subscription: what the client does from the interrupt on. It sends the command that
  ends the subscription, then reads on, within a second, and prints what is still to come up to the
  response of that command.
\<close>

section \<open>Messages\<close>

definition messages :: "(string \<times> bytes) list \<Rightarrow> bytes" where
  "messages ms = concat (map (\<lambda>(channel, message). message_text channel message) ms)"

definition messages_view :: "(string \<times> bytes) list \<Rightarrow> bytes" where
  "messages_view ms = concat (map (\<lambda>(channel, message). ''message '' @ channel @ '' '' @ message @ [LF]) ms)"

lemma messages_simps [simp]:
  "messages [] = []" "messages ((ch, m) # ms) = message_text ch m @ messages ms"
  "messages_view [] = []" "messages_view ((ch, m) # ms) = ''message '' @ ch @ '' '' @ m @ [LF] @ messages_view ms"
  by (simp_all add: messages_def messages_view_def)

definition messages_ok :: "(string \<times> bytes) list \<Rightarrow> bool" where
  "messages_ok ms \<longleftrightarrow> (\<forall>(ch, m) \<in> set ms. length ch \<le> KS_MAX_REQUEST \<and> length m \<le> KS_MAX_REQUEST)"

lemma drain_flows:
  assumes "flows c" "unread c = messages ms @ int_text i @ s" "messages_ok ms" "- (2 ^ 63) \<le> i" "i < 2 ^ 63"
  shows "\<exists>c'. drain_loop c = Some (RESPONSE_OK, c') \<and> printed c (messages_view ms @ ''(integer) '' @ fmt_int i @ [LF]) s c'"
  using assms(1-3)
proof (induction ms arbitrary: c)
  case Nil
  from response_int [OF assms(4,5)] Nil(2) have "response_spec (unread c) =
      Some (RESPONSE_OK, Some RESPONSE_KIND_INTEGER, ''(integer) '' @ fmt_int i @ [LF], s)" by simp
  with response_flows [OF Nil(1)] obtain c' where
    1: "render_response c = Some (RESPONSE_OK, Some RESPONSE_KIND_INTEGER, c')"
      "printed c (''(integer) '' @ fmt_int i @ [LF]) s c'" by auto
  from 1(1) have "drain_loop c = Some (RESPONSE_OK, c')" by (subst drain_loop.simps) simp
  with 1(2) show ?case by simp
next
  case (Cons x ms)
  obtain ch m where x: "x = (ch, m)" by (rule prod.exhaust)
  let ?v = "''message '' @ ch @ '' '' @ m @ [LF]" and ?rest = "messages ms @ int_text i @ s"
  have l: "length ch \<le> KESSEL_CLI_MAX_LINE" "length m \<le> KESSEL_CLI_MAX_LINE" "messages_ok ms"
    using Cons.prems(3) x by (simp_all add: messages_ok_def KS_MAX_REQUEST_def KESSEL_CLI_MAX_LINE_def)
  have u: "unread c = message_text ch m @ ?rest" using Cons.prems(2) x by simp
  from response_message [OF l(1,2)] have
    "response_spec (unread c) = Some (RESPONSE_OK, Some RESPONSE_KIND_ARRAY, ?v, ?rest)" unfolding u .
  with response_flows [OF Cons.prems(1)] obtain c1 where
    1: "render_response c = Some (RESPONSE_OK, Some RESPONSE_KIND_ARRAY, c1)" "printed c ?v ?rest c1" by auto
  from printedD [OF 1(2)] Cons.IH [of c1] l(3) obtain c2 where
    2: "drain_loop c1 = Some (RESPONSE_OK, c2)" "printed c1 (messages_view ms @ ''(integer) '' @ fmt_int i @ [LF]) s c2" by blast
  have "drain_loop c = Some (RESPONSE_OK, c2)" using 1(1) 2(1) by (subst drain_loop.simps) simp
  with printed_trans [OF 1(2) 2(2)] x show ?case by auto
qed

section \<open>Waiting and leaving\<close>

text \<open>The interrupt comes while \<open>poll\<close> is called for the last of the answers \<open>ps\<close>, or before the first.\<close>

definition interrupted_after :: "nat \<Rightarrow> cli \<Rightarrow> bool" where
  "interrupted_after n c \<longleftrightarrow> \<not> subscription_interrupted c \<and> (\<forall>j < n. \<not> os_interrupt c (os_looks c + j)) \<and>
     os_interrupt c (os_looks c + n)"

lemma wait_interrupted:
  assumes "rr_begin (c_reader c) = rr_end (c_reader c)" "interrupted_after (length ps) c" "os_poll c = ps @ qs"
    "\<forall>a \<in> set ps. harmless a"
  shows "wait_for_subscription_data c = Some (RESPONSE_OK,
    c\<lparr>subscription_interrupted := True, os_looks := os_looks c + length ps + 1, os_poll := qs\<rparr>)"
  using assms
proof (induction ps arbitrary: c)
  case Nil
  then show ?case by (subst wait_for_subscription_data.simps) (simp add: look_def interrupted_after_def)
next
  case (Cons a ps)
  let ?c = "c\<lparr>subscription_interrupted := False, os_looks := Suc (os_looks c), os_poll := ps @ qs\<rparr>"
  have i: "\<not> subscription_interrupted c" "\<not> os_interrupt c (os_looks c)"
    using Cons.prems(2) by (auto simp: interrupted_after_def dest: spec [of _ 0])
  have "interrupted_after (length ps) ?c" unfolding interrupted_after_def
  proof (intro conjI allI impI)
    fix j assume "j < length ps"
    then have "Suc j < length (a # ps)" by simp
    with Cons.prems(2) have "\<not> os_interrupt c (os_looks c + Suc j)" unfolding interrupted_after_def by blast
    then show "\<not> os_interrupt ?c (os_looks ?c + j)" by simp
  qed (use Cons.prems(2) in \<open>simp_all add: interrupted_after_def\<close>)
  moreover have "wait_for_subscription_data c = wait_for_subscription_data ?c"
    using Cons.prems(1,3,4) i
    by (subst wait_for_subscription_data.simps) (cases a; simp add: look_def harmless_def)
  ultimately show ?case using Cons.IH [of ?c] Cons.prems by simp
qed

lemma messages_interrupted:
  assumes "rr_begin (c_reader c) = rr_end (c_reader c)" "interrupted_after (Suc (length ps)) c" "os_poll c = ps @ qs"
    "\<forall>a \<in> set ps. harmless a"
  shows "\<exists>k. message_loop False c = Some (RESPONSE_OK, c\<lparr>os_poll := qs, subscription_interrupted := True, os_looks := k\<rparr>)"
proof -
  let ?c = "c\<lparr>subscription_interrupted := False, os_looks := Suc (os_looks c)\<rparr>"
  have i: "\<not> subscription_interrupted c" "\<not> os_interrupt c (os_looks c)"
    using assms(2) by (auto simp: interrupted_after_def dest: spec [of _ 0])
  have "interrupted_after (length ps) ?c" unfolding interrupted_after_def
  proof (intro conjI allI impI)
    fix j assume "j < length ps"
    then have "Suc j < Suc (length ps)" by simp
    with assms(2) have "\<not> os_interrupt c (os_looks c + Suc j)" unfolding interrupted_after_def by blast
    then show "\<not> os_interrupt ?c (os_looks ?c + j)" by simp
  qed (use assms(2) in \<open>simp_all add: interrupted_after_def\<close>)
  with assms wait_interrupted [of ?c ps qs] i show ?thesis
    by (intro exI [of _ "Suc (Suc (Suc (os_looks c + length ps)))"]) (subst message_loop.simps, simp add: look_def)
qed

text \<open>A client in the subscription mode that has nothing in its reader, and what ends the mode.\<close>

definition subscribed :: "bytes \<Rightarrow> cli \<Rightarrow> bool" where
  "subscribed u c \<longleftrightarrow> subscription_active c \<and> \<not> unsubscribe_sent c \<and> unsubscribe_command c = Some u \<and>
     Site_cli_unsubscribe \<in> set (cli_heap c) \<and> length (rr_buffer (c_reader c)) = READER_SIZE \<and>
     rr_begin (c_reader c) = rr_end (c_reader c) \<and> rr_end (c_reader c) \<le> READER_SIZE \<and>
     (\<forall>a \<in> set (os_recv c). a = Inl EINTR \<or> (\<exists>d. a = Inr d \<and> d \<noteq> [])) \<and> os_stdout c = (\<lambda>n. True)"

definition within_deadline :: "timespec option list \<Rightarrow> bool" where
  "within_deadline clock = (case clock of Some now # ts \<Rightarrow> \<forall>t \<in> set ts. early (fst now + 1, snd now) t | _ \<Rightarrow> False)"

lemma pending_sent:
  assumes "subscribed u c" "subscription_interrupted c" "delivers (os_send c) (length u)" "os_clock c = Some now # ts"
  shows "\<exists>k ss. send_pending_unsubscribe c = Some (RESPONSE_OK, c\<lparr>subscription_interrupted := True, os_looks := k,
    os_send := ss, cli_sent := cli_sent c @ u, unsubscribe_sent := True, os_clock := ts,
    unsubscribe_deadline := (fst now + 1, snd now)\<rparr>)"
proof -
  from write_all_delivers [of "os_send c" u 0] assms(3) obtain ss where "write_all (os_send c) u = Some (True, u, ss)" by auto
  with assms(1,2,4) show ?thesis
    by (intro exI [of _ "Suc (os_looks c)"] exI [of _ ss])
      (simp add: send_pending_unsubscribe_def subscribed_def look_def send_all_def clock_gettime_def cli_access_def)
qed

lemma subscription_run:
  assumes c: "subscribed u c" "interrupted_after (Suc (length ps)) c"
    and polls: "os_poll c = ps @ qs" "\<forall>a \<in> set (ps @ qs). harmless a" "recv_work (os_recv c) \<le> events qs"
    and clock: "os_clock c = Some now # ts" "\<forall>t \<in> set ts. early (fst now + 1, snd now) t" "length qs \<le> length ts"
    and send: "delivers (os_send c) (length u)"
    and stream: "unread c = messages ms @ int_text i @ s" "messages_ok ms" "- (2 ^ 63) \<le> i" "i < 2 ^ 63"
  obtains c' where "run_subscription False c = Some (RESPONSE_OK, c')" "cli_sent c' = cli_sent c @ u"
    "cli_stdout c' = cli_stdout c @ messages_view ms @ ''(integer) '' @ fmt_int i @ [LF]" "unread c' = s"
proof -
  have empty: "rr_begin (c_reader c) = rr_end (c_reader c)" using c(1) by (simp add: subscribed_def)
  from messages_interrupted [OF empty c(2) polls(1)] polls(2) obtain k where
    1: "message_loop False c = Some (RESPONSE_OK, c\<lparr>os_poll := qs, subscription_interrupted := True, os_looks := k\<rparr>)" by auto
  let ?c1 = "c\<lparr>os_poll := qs, subscription_interrupted := True, os_looks := Suc k\<rparr>"
  have "subscribed u ?c1" using c(1) by (simp add: subscribed_def)
  from pending_sent [OF this _ _ , of now ts] send clock(1) obtain k' ss where
    2: "send_pending_unsubscribe ?c1 = Some (RESPONSE_OK, ?c1\<lparr>subscription_interrupted := True, os_looks := k',
      os_send := ss, cli_sent := cli_sent ?c1 @ u, unsubscribe_sent := True, os_clock := ts,
      unsubscribe_deadline := (fst now + 1, snd now)\<rparr>)" by auto
  let ?c2 = "c\<lparr>os_poll := qs, subscription_interrupted := True, os_looks := k', os_send := ss,
      cli_sent := cli_sent c @ u, unsubscribe_sent := True, os_clock := ts, unsubscribe_deadline := (fst now + 1, snd now)\<rparr>"
  have f: "flows ?c2" "unread ?c2 = messages ms @ int_text i @ s"
    using c(1) polls(2,3) clock(2,3) stream(1) by (simp_all add: flows_def attended_def subscribed_def unread_def)
  from drain_flows [OF f stream(2-4)] obtain c' where
    3: "drain_loop ?c2 = Some (RESPONSE_OK, c')" "printed ?c2 (messages_view ms @ ''(integer) '' @ fmt_int i @ [LF]) s c'" by blast
  have "run_subscription False c = Some (RESPONSE_OK, c')"
    using 1 2 3(1) by (simp add: run_subscription_def look_def)
  with printed_stdout [OF 3(2)] printedD [OF 3(2)] show thesis by (intro that [of c']) simp_all
qed

section \<open>An example\<close>

abbreviation ex_unsubscribe :: bytes where
  "ex_unsubscribe \<equiv> ''UNSUBSCRIBE r'' @ [CR, LF]"

definition ex_subscribed :: cli where
  "ex_subscribed = (ex_cli [Inr (message_text ''r'' ''hi'' @ int_text 1)] (Poll_Timeout # replicate 80 (Poll_Event True)))
     \<lparr>subscription_active := True, unsubscribe_command := Some ex_unsubscribe,
      cli_heap := [Site_cli_unsubscribe, Site_cli_argument], os_interrupt := (\<lambda>n. n = 2),
      os_clock := Some (5, 0) # replicate 80 (Some (5, 1)), os_send := replicate 20 (Inr 1)\<rparr>"

lemma ex_subscribed: "subscribed ex_unsubscribe ex_subscribed" "interrupted_after (Suc (length [Poll_Timeout])) ex_subscribed"
  "recv_work (os_recv ex_subscribed) \<le> events (replicate 80 (Poll_Event True))"
  "unread ex_subscribed = messages [(''r'', ''hi'')] @ int_text 1 @ []"
proof -
  have t: "length (int_text 1) = 4" by code_simp
  have ne: "message_text ''r'' ''hi'' @ int_text 1 \<noteq> []" using t by (cases "int_text 1") auto
  show "subscribed ex_unsubscribe ex_subscribed"
    using ne by (simp add: subscribed_def ex_subscribed_def ex_cli_def)
  show "interrupted_after (Suc (length [Poll_Timeout])) ex_subscribed"
    by (simp add: interrupted_after_def ex_subscribed_def ex_cli_def)
  have "length (message_text ''r'' ''hi'') \<le> 44"
    using length_message_text [of "''r''" "''hi''"] by (simp add: KS_MAX_REQUEST_def)
  then show "recv_work (os_recv ex_subscribed) \<le> events (replicate 80 (Poll_Event True))"
    using t by (simp add: ex_subscribed_def ex_cli_def events_def filter_replicate) (simp add: recv_work_def)
  show "unread ex_subscribed = messages [(''r'', ''hi'')] @ int_text 1 @ []"
    by (simp add: unread_def ex_subscribed_def ex_cli_def piece_def)
qed

section \<open>Properties\<close>

text \<open>
  C26. An interrupt ends the subscription mode. When it comes after any number of answers of
  \<open>poll\<close>, the client leaves the loop over the messages, sends the command that ends the
  subscription, whole and once, prints every message that was sent before, in order, then the
  response of the command, and reads nothing behind it, provided that the rest arrives within the
  second that it allows, in any pieces.
\<close>

theorem subscription_ends:
  assumes "subscribed u c" "interrupted_after (Suc (length ps)) c"
    and "os_poll c = ps @ qs" "\<forall>a \<in> set (ps @ qs). harmless a" "recv_work (os_recv c) \<le> events qs"
    and "os_clock c = Some now # ts" "\<forall>t \<in> set ts. early (fst now + 1, snd now) t" "length qs \<le> length ts"
    and "delivers (os_send c) (length u)"
    and "unread c = messages ms @ int_text i @ s" "messages_ok ms" "- (2 ^ 63) \<le> i" "i < 2 ^ 63"
  shows "\<exists>c'. run_subscription False c = Some (RESPONSE_OK, c') \<and> cli_sent c' = cli_sent c @ u \<and>
    cli_stdout c' = cli_stdout c @ messages_view ms @ ''(integer) '' @ fmt_int i @ [LF] \<and> unread c' = s"
  by (rule subscription_run [OF assms]) blast

theorem subscription_ends_witness:
  "\<exists>c'. run_subscription False ex_subscribed = Some (RESPONSE_OK, c') \<and> cli_sent c' = ex_unsubscribe \<and>
     cli_stdout c' = ''message r hi'' @ [LF] @ ''(integer) 1'' @ [LF]"
proof -
  have f: "fmt_int 1 = ''1''" by code_simp
  have p: "os_poll ex_subscribed = [Poll_Timeout] @ replicate 80 (Poll_Event True)"
    "os_clock ex_subscribed = Some (5, 0) # replicate 80 (Some (5, 1))"
    "delivers (os_send ex_subscribed) (length ex_unsubscribe)" "cli_sent ex_subscribed = []" "cli_stdout ex_subscribed = []"
    by (simp_all add: ex_subscribed_def ex_cli_def delivers_def filter_replicate)
  have "\<forall>a \<in> set ([Poll_Timeout] @ replicate 80 (Poll_Event True)). harmless a" by (simp add: harmless_def)
  moreover have "\<forall>t \<in> set (replicate 80 (Some (5, 1))). early (fst (5, 0) + 1, snd (5, 0)) t" by (simp add: early_def)
  moreover have "messages_ok [(''r'', ''hi'')]" by (simp add: messages_ok_def KS_MAX_REQUEST_def)
  ultimately show ?thesis
    using subscription_ends [OF ex_subscribed(1,2) p(1) _ ex_subscribed(3) p(2) _ _ p(3) ex_subscribed(4)]
    by (simp add: p(4,5) f) blast
qed

end
