(* ===== verification/Kessel_Broker.thy ===== *)
theory Kessel_Broker
  imports Kessel_Event_Loop Kessel_Server_Requests
begin

text \<open>
  The abstract specification of the server: a broker of messages. It knows the connected peers,
  each with the bytes it sent that were not carried out yet and the bytes it is owed, the store,
  and the subscriptions as a set of pairs. There are no buffers with offsets, no lines rewritten
  in place, no linked lists and no counters to keep in step: a line of input is taken from the
  front of the inbox and means a \<open>request\<close>, which is one transition of the broker.
\<close>

section \<open>State\<close>

record peer =
  pr_fd :: int
  pr_id :: ks_pubsub_client_id
  pr_closing :: bool
  pr_dropped :: bool
  pr_inbox :: bytes
  pr_outbox :: bytes

record broker =
  bk_peers :: "peer option list"
  bk_store :: ks_kv
  bk_subs :: "(string \<times> ks_pubsub_client_id) set"
  bk_commands :: u64
  bk_accepted :: u64
  bk_rejected :: u64
  bk_started_at :: int
  bk_next_id :: ks_pubsub_client_id

definition peer_at :: "broker \<Rightarrow> nat \<Rightarrow> peer option" where
  "peer_at b i = (if i < length (bk_peers b) then bk_peers b ! i else None)"

definition on_peer :: "nat \<Rightarrow> (peer \<Rightarrow> peer) \<Rightarrow> broker \<Rightarrow> broker" where
  "on_peer i f b = b\<lparr>bk_peers := (bk_peers b)[i := map_option f (bk_peers b ! i)]\<rparr>"

definition set_inbox :: "nat \<Rightarrow> bytes \<Rightarrow> broker \<Rightarrow> broker" where
  "set_inbox i x = on_peer i (\<lambda>p. p\<lparr>pr_inbox := x\<rparr>)"

definition say :: "nat \<Rightarrow> bytes \<Rightarrow> broker \<Rightarrow> broker" where
  "say i tx = on_peer i (\<lambda>p. p\<lparr>pr_outbox := pr_outbox p @ tx\<rparr>)"

definition present :: "broker \<Rightarrow> peer list" where
  "present b = List.map_filter id (bk_peers b)"

section \<open>Requests\<close>

datatype request =
    Req_Data kv_op
  | Req_Static string
  | Req_Subscribe string
  | Req_Unsubscribe string
  | Req_Publish string bytes
  | Req_Info

text \<open>What a line stands for.\<close>

definition request_of :: "allocator \<Rightarrow> bytes \<Rightarrow> request" where
  "request_of al line =
     (case parse_spec line of
        None \<Rightarrow> Req_Static (error_text ''invalid command'')
      | Some (cmd, args) \<Rightarrow>
          (case static_reply cmd args of
             Some tx \<Rightarrow> Req_Static tx
           | None \<Rightarrow>
               (case kv_command al cmd args of
                  Some op \<Rightarrow> Req_Data op
                | None \<Rightarrow>
                    if cmd = ''SUBSCRIBE'' then Req_Subscribe (args ! 0)
                    else if cmd = ''UNSUBSCRIBE'' then Req_Unsubscribe (args ! 0)
                    else if cmd = ''PUBLISH'' then Req_Publish (args ! 0) (args ! 1)
                    else Req_Info)))"

text \<open>
  A frame for the peers \<open>I\<close>: a peer that has room takes it whole, one that has not is dropped.
\<close>

definition has_room :: "ks_pubsub_client_id set \<Rightarrow> bytes \<Rightarrow> peer \<Rightarrow> bool" where
  "has_room I frame p \<longleftrightarrow> pr_id p \<in> I \<and> \<not> pr_dropped p \<and> length (pr_outbox p) + length frame \<le> KS_OUTPUT_CAP"

definition hand :: "ks_pubsub_client_id set \<Rightarrow> bytes \<Rightarrow> peer \<Rightarrow> peer" where
  "hand I frame p =
     (if has_room I frame p then p\<lparr>pr_outbox := pr_outbox p @ frame\<rparr>
      else if pr_id p \<in> I then p\<lparr>pr_dropped := True\<rparr> else p)"

definition broadcast :: "ks_pubsub_client_id set \<Rightarrow> bytes \<Rightarrow> broker \<Rightarrow> broker" where
  "broadcast I frame b = b\<lparr>bk_peers := map (map_option (hand I frame)) (bk_peers b)\<rparr>"

definition audience :: "ks_pubsub_client_id set \<Rightarrow> bytes \<Rightarrow> broker \<Rightarrow> nat" where
  "audience I frame b = length (filter (has_room I frame) (present b))"

definition can_subscribe :: "allocator \<Rightarrow> string \<Rightarrow> broker \<Rightarrow> bool" where
  "can_subscribe al ch b \<longleftrightarrow>
     c_malloc al Site_subscriber sizeof_subscriber \<and>
     (ch \<in> fst ` bk_subs b \<or> c_malloc al Site_channel_name (length ch + 1) \<and> c_malloc al Site_new_channel sizeof_channel)"

definition broker_info :: "int \<Rightarrow> ks_config \<Rightarrow> u64 \<Rightarrow> broker \<Rightarrow> string" where
  "broker_info now cfg keys b =
     info_text (uptime now (bk_started_at b)) (length (present b)) (unat (cfg_max_clients cfg))
       (unat (bk_accepted b)) (unat (bk_rejected b)) (unat (bk_commands b)) (unat keys)
       (unat (of_nat (card (fst ` bk_subs b)) :: u64)) (unat (of_nat (card (bk_subs b)) :: u64))"

definition serve_request ::
    "ks_config \<Rightarrow> allocator \<Rightarrow> int \<Rightarrow> nat \<Rightarrow> request \<Rightarrow> broker \<Rightarrow> broker option" where
  "serve_request cfg al now i r b = do {
     p \<leftarrow> peer_at b i;
     case r of
       Req_Data op \<Rightarrow> do {
         (a, st) \<leftarrow> kv_step op (bk_store b);
         Some (say i (answer_text a) (b\<lparr>bk_store := st\<rparr>)) }
     | Req_Static tx \<Rightarrow> Some (say i tx b)
     | Req_Subscribe ch \<Rightarrow>
         if ch = [] then Some (say i (error_text ''invalid channel'') b)
         else if (ch, pr_id p) \<in> bk_subs b \<or> can_subscribe al ch b
         then Some (say i (simple_text ''OK'') (b\<lparr>bk_subs := insert (ch, pr_id p) (bk_subs b)\<rparr>))
         else Some (say i (error_text ''unable to subscribe'') b)
     | Req_Unsubscribe ch \<Rightarrow>
         Some (say i (int_text (if (ch, pr_id p) \<in> bk_subs b then 1 else 0))
                (b\<lparr>bk_subs := bk_subs b - {(ch, pr_id p)}\<rparr>))
     | Req_Publish ch m \<Rightarrow>
         let I = bk_subs b `` {ch}; frame = message_text ch m
         in Some (say i (int_text (int (audience I frame b))) (broadcast I frame b))
     | Req_Info \<Rightarrow> do {
         (keys, st) \<leftarrow> ks_kv_size (bk_store b);
         Some (say i (bulk_text (broker_info now cfg keys b)) (b\<lparr>bk_store := st\<rparr>)) } }"

section \<open>Lines\<close>

definition split_line :: "bytes \<Rightarrow> (bytes \<times> bytes) option" where
  "split_line bs = (if LF \<in> set bs
     then Some (takeWhile (\<lambda>x. x \<noteq> LF) bs, tl (dropWhile (\<lambda>x. x \<noteq> LF) bs)) else None)"

text \<open>An error after which the connection ends; the rest of the input is given up.\<close>

definition give_up :: "nat \<Rightarrow> bytes \<Rightarrow> broker \<Rightarrow> broker" where
  "give_up i tx b = on_peer i (\<lambda>p. p\<lparr>pr_closing := True, pr_inbox := []\<rparr>) (say i tx b)"

text \<open>One line without its LF, taken from the inbox of peer \<open>i\<close>.\<close>

definition serve_line :: "command_env \<Rightarrow> ks_config \<Rightarrow> nat \<Rightarrow> bytes \<Rightarrow> broker \<Rightarrow> broker option" where
  "serve_line env cfg i l b =
     (if oversized l then
        Some (give_up i (error_text ''request too large'') b)
      else if NUL \<in> set l then Some (say i (error_text ''invalid command'') b)
      else let n = bk_commands b in
        serve_request cfg (ce_alloc env n) (ce_time env n) i (request_of (ce_alloc env n) (l @ [LF]))
          (b\<lparr>bk_commands := n + 1\<rparr>))"

lemma peer_at_simps [simp]:
  "peer_at (b\<lparr>bk_store := st\<rparr>) i = peer_at b i" "peer_at (b\<lparr>bk_subs := u\<rparr>) i = peer_at b i"
  "peer_at (b\<lparr>bk_commands := n\<rparr>) i = peer_at b i"
  by (simp_all add: peer_at_def)

lemma on_peer_simps [simp]:
  "bk_store (on_peer i f b) = bk_store b" "bk_subs (on_peer i f b) = bk_subs b"
  "bk_commands (on_peer i f b) = bk_commands b" "bk_accepted (on_peer i f b) = bk_accepted b"
  "bk_rejected (on_peer i f b) = bk_rejected b" "bk_started_at (on_peer i f b) = bk_started_at b"
  "bk_next_id (on_peer i f b) = bk_next_id b" "length (bk_peers (on_peer i f b)) = length (bk_peers b)"
  "peer_at (on_peer i f b) i = map_option f (peer_at b i)"
  by (simp_all add: on_peer_def peer_at_def)

lemma peer_at_other: "j \<noteq> i \<Longrightarrow> peer_at (on_peer i f b) j = peer_at b j"
  by (simp add: on_peer_def peer_at_def)


text \<open>What a request leaves alone: it takes nothing from an inbox.\<close>

definition same_inboxes :: "broker \<Rightarrow> broker \<Rightarrow> bool" where
  "same_inboxes b b' \<longleftrightarrow> map (map_option pr_inbox) (bk_peers b') = map (map_option pr_inbox) (bk_peers b)"

lemma same_inboxes_refl [simp]: "same_inboxes b b"
  by (simp add: same_inboxes_def)

lemma same_inboxes_peer:
  assumes "same_inboxes b b'"
  shows "map_option pr_inbox (peer_at b' i) = map_option pr_inbox (peer_at b i)"
proof -
  have l: "length (bk_peers b') = length (bk_peers b)"
    using arg_cong [OF assms [unfolded same_inboxes_def], of length] by simp
  show ?thesis
  proof (cases "i < length (bk_peers b)")
    case True
    have "map (map_option pr_inbox) (bk_peers b') ! i = map (map_option pr_inbox) (bk_peers b) ! i"
      using assms by (simp add: same_inboxes_def)
    with True l show ?thesis by (simp add: peer_at_def)
  next
    case False
    with l show ?thesis by (simp add: peer_at_def)
  qed
qed

lemma same_inboxes_simps [simp]:
  "same_inboxes b (b'\<lparr>bk_store := st\<rparr>) = same_inboxes b b'" "same_inboxes b (b'\<lparr>bk_subs := u\<rparr>) = same_inboxes b b'"
  "same_inboxes b (b'\<lparr>bk_commands := n\<rparr>) = same_inboxes b b'"
  "same_inboxes (b\<lparr>bk_commands := n\<rparr>) b' = same_inboxes b b'"
  by (simp_all add: same_inboxes_def)

text \<open>What does not depend on what is changed of a peer.\<close>

lemma map_on_peer:
  assumes "\<And>q. f (map_option g q) = f q"
  shows "map f (bk_peers (on_peer i g b)) = map f (bk_peers b)"
proof -
  have "map f (bk_peers (on_peer i g b)) = (map f (bk_peers b))[i := f (bk_peers b ! i)]"
    by (simp add: on_peer_def map_update assms)
  also have "\<dots> = map f (bk_peers b)"
    by (cases "i < length (bk_peers b)") (simp_all add: list_update_same_conv list_update_beyond not_less)
  finally show ?thesis .
qed

lemma same_inboxes_say [simp]: "same_inboxes b (say i tx b') = same_inboxes b b'"
proof -
  have "map_option pr_inbox (map_option (\<lambda>p. p\<lparr>pr_outbox := pr_outbox p @ tx\<rparr>) q) = map_option pr_inbox q" for q
    by (cases q) simp_all
  from map_on_peer [of "map_option pr_inbox", OF this] show ?thesis by (simp add: same_inboxes_def say_def)
qed

lemma hand_inbox [simp]: "pr_inbox (hand I frame p) = pr_inbox p"
  by (simp add: hand_def)

lemma same_inboxes_broadcast [simp]: "same_inboxes b (broadcast I frame b') = same_inboxes b b'"
proof -
  have "map_option pr_inbox (map_option (hand I frame) q) = map_option pr_inbox q" for q
    by (cases q) simp_all
  then show ?thesis by (simp add: same_inboxes_def broadcast_def comp_def)
qed

lemma serve_request_inboxes: "serve_request cfg al now i r b = Some b' \<Longrightarrow> same_inboxes b b'"
  by (auto simp: serve_request_def Let_def split: bind_splits request.splits if_splits)

lemma serve_line_inbox:
  assumes "serve_line env cfg i l b = Some b'" "peer_at b i = Some p" "peer_at b' i = Some p'"
  shows "length (pr_inbox p') \<le> length (pr_inbox p)"
proof (cases "oversized l")
  case True
  with assms show ?thesis by (auto simp: serve_line_def give_up_def say_def)
next
  case False
  with assms(1) have "same_inboxes b b'"
    by (auto simp: serve_line_def Let_def dest: serve_request_inboxes split: if_splits)
  from same_inboxes_peer [OF this, of i] assms(2,3) show ?thesis by simp
qed

lemma split_line_Some: "split_line bs = Some (l, rest) \<longleftrightarrow> bs = l @ LF # rest \<and> LF \<notin> set l"
proof
  assume a: "split_line bs = Some (l, rest)"
  then have lf: "LF \<in> set bs" "l = takeWhile (\<lambda>x. x \<noteq> LF) bs" "rest = tl (dropWhile (\<lambda>x. x \<noteq> LF) bs)"
    by (auto simp: split_line_def split: if_splits)
  then have ne: "dropWhile (\<lambda>x. x \<noteq> LF) bs \<noteq> []" by (auto simp: dropWhile_eq_Nil_conv)
  then have "dropWhile (\<lambda>x. x \<noteq> LF) bs = LF # rest"
    using hd_dropWhile [OF ne] lf(3) by (metis list.collapse)
  with lf(2) show "bs = l @ LF # rest \<and> LF \<notin> set l"
    by (metis (lifting) set_takeWhileD takeWhile_dropWhile_id)
next
  assume a: "bs = l @ LF # rest \<and> LF \<notin> set l"
  then have "takeWhile (\<lambda>x. x \<noteq> LF) bs = l" "dropWhile (\<lambda>x. x \<noteq> LF) bs = LF # rest"
    by (simp_all, (subst takeWhile_append2 dropWhile_append2, auto)+)
  with a show "split_line bs = Some (l, rest)" by (simp add: split_line_def)
qed

lemma split_line_None: "split_line bs = None \<longleftrightarrow> LF \<notin> set bs"
  by (simp add: split_line_def)

text \<open>The lines in the inbox of peer \<open>i\<close>, one after the other, as long as the peer takes its answers.\<close>

function broker_requests :: "command_env \<Rightarrow> ks_config \<Rightarrow> nat \<Rightarrow> broker \<Rightarrow> broker option" where
  "broker_requests env cfg i b =
     (case peer_at b i of
        None \<Rightarrow> Some b
      | Some p \<Rightarrow>
          if KS_OUTPUT_HIGH_WATER \<le> length (pr_outbox p) then Some b
          else case split_line (pr_inbox p) of
            None \<Rightarrow> Some b
          | Some (l, rest) \<Rightarrow>
              (case serve_line env cfg i l (set_inbox i rest b) of
                 None \<Rightarrow> None
               | Some b' \<Rightarrow> broker_requests env cfg i b'))"
  by pat_completeness auto
termination
proof (relation "measure (\<lambda>(env, cfg, i, b). case peer_at b i of None \<Rightarrow> 0 | Some p \<Rightarrow> length (pr_inbox p))")
  fix env cfg i b p q l rest b'
  assume a: "peer_at b i = Some p" "split_line (pr_inbox p) = Some q" "(l, rest) = q"
    "serve_line env cfg i l (set_inbox i rest b) = Some b'"
  have "peer_at (set_inbox i rest b) i = Some (p\<lparr>pr_inbox := rest\<rparr>)" using a(1) by (simp add: set_inbox_def)
  from serve_line_inbox [OF a(4) this] have "length (pr_inbox p') \<le> length rest" if "peer_at b' i = Some p'" for p'
    using that by simp
  moreover have "pr_inbox p = l @ LF # rest" using a(2,3) split_line_Some by metis
  ultimately show "((env, cfg, i, b'), env, cfg, i, b) \<in>
      measure (\<lambda>(env, cfg, i, b). case peer_at b i of None \<Rightarrow> 0 | Some p \<Rightarrow> length (pr_inbox p))"
    using a(1) by (auto split: option.split)
qed simp

declare broker_requests.simps [simp del]

section \<open>What a request depends on\<close>

lemma on_peer_twice: "on_peer i f (on_peer i g b) = on_peer i (f \<circ> g) b"
  by (cases "i < length (bk_peers b)") (simp_all add: on_peer_def option.map_comp list_update_beyond not_less)

lemma on_peer_comm:
  assumes "i = j \<Longrightarrow> f \<circ> g = g \<circ> f"
  shows "on_peer i f (on_peer j g b) = on_peer j g (on_peer i f b)"
proof (cases "i = j")
  case True
  with assms show ?thesis by (simp add: on_peer_twice)
next
  case False
  then show ?thesis by (simp add: on_peer_def list_update_swap)
qed

lemma set_inbox_set [simp]: "set_inbox i x (set_inbox i y b) = set_inbox i x b"
  by (simp add: set_inbox_def on_peer_twice comp_def)

lemma set_inbox_say: "set_inbox j x (say i tx b) = say i tx (set_inbox j x b)"
  unfolding set_inbox_def say_def by (rule on_peer_comm) (simp add: fun_eq_iff)

lemma set_inbox_peer: "peer_at (set_inbox i x b) j =
    (if i = j then map_option (\<lambda>p. p\<lparr>pr_inbox := x\<rparr>) (peer_at b j) else peer_at b j)"
  by (simp add: set_inbox_def peer_at_other)

lemma hand_inbox_upd: "hand I frame (p\<lparr>pr_inbox := x\<rparr>) = (hand I frame p)\<lparr>pr_inbox := x\<rparr>"
  by (simp add: hand_def has_room_def)

lemma set_inbox_broadcast: "set_inbox i x (broadcast I frame b) = broadcast I frame (set_inbox i x b)"
  by (cases "i < length (bk_peers b)")
    (simp_all add: set_inbox_def on_peer_def broadcast_def map_update option.map_comp comp_def hand_inbox_upd
      list_update_beyond not_less)

lemma present_count: "length (filter P (present b)) = length (filter (\<lambda>y. y) (map (\<lambda>q. case q of None \<Rightarrow> False | Some p \<Rightarrow> P p) (bk_peers b)))"
proof -
  have "length (filter P (List.map_filter id qs)) =
      length (filter (\<lambda>y. y) (map (\<lambda>q. case q of None \<Rightarrow> False | Some p \<Rightarrow> P p) qs))" for qs
    by (induction qs) (auto simp: map_filter_simps split: option.splits)
  then show ?thesis by (simp add: present_def)
qed

lemma set_inbox_count:
  assumes "\<And>p. P (p\<lparr>pr_inbox := x\<rparr>) = P p"
  shows "length (filter P (present (set_inbox i x b))) = length (filter P (present b))"
proof -
  have "(case map_option (\<lambda>p. p\<lparr>pr_inbox := x\<rparr>) q of None \<Rightarrow> False | Some p \<Rightarrow> P p) =
      (case q of None \<Rightarrow> False | Some p \<Rightarrow> P p)" for q by (cases q) (simp_all add: assms)
  from map_on_peer [of "\<lambda>q. case q of None \<Rightarrow> False | Some p \<Rightarrow> P p", OF this] show ?thesis
    unfolding present_count set_inbox_def by simp
qed

lemma set_inbox_audience [simp]:
  "audience I frame (set_inbox i x b) = audience I frame b" "length (present (set_inbox i x b)) = length (present b)"
  using set_inbox_count [of "has_room I frame" x i b] set_inbox_count [of "\<lambda>p. True" x i b]
  by (simp_all add: audience_def has_room_def)

lemma set_inbox_simps [simp]:
  "bk_store (set_inbox i x b) = bk_store b" "bk_subs (set_inbox i x b) = bk_subs b"
  "bk_commands (set_inbox i x b) = bk_commands b" "bk_accepted (set_inbox i x b) = bk_accepted b"
  "bk_rejected (set_inbox i x b) = bk_rejected b" "bk_started_at (set_inbox i x b) = bk_started_at b"
  "(set_inbox i x b)\<lparr>bk_store := st\<rparr> = set_inbox i x (b\<lparr>bk_store := st\<rparr>)"
  "(set_inbox i x b)\<lparr>bk_subs := u\<rparr> = set_inbox i x (b\<lparr>bk_subs := u\<rparr>)"
  "(set_inbox i x b)\<lparr>bk_commands := n\<rparr> = set_inbox i x (b\<lparr>bk_commands := n\<rparr>)"
  by (simp_all add: set_inbox_def on_peer_def)

text \<open>A request does not look at inboxes.\<close>

lemma serve_request_set_inbox:
  "serve_request cfg al now i r (set_inbox j x b) = map_option (set_inbox j x) (serve_request cfg al now i r b)"
proof (cases "peer_at b i")
  case None
  then show ?thesis by (simp add: serve_request_def set_inbox_peer)
next
  case (Some p)
  then obtain p' where p': "peer_at (set_inbox j x b) i = Some p'" "pr_id p' = pr_id p" by (cases "j = i") (auto simp: set_inbox_peer)
  have "broker_info now cfg keys (set_inbox j x b) = broker_info now cfg keys b" for keys
    by (simp add: broker_info_def)
  moreover have "can_subscribe al ch (set_inbox j x b) = can_subscribe al ch b" for ch by (simp add: can_subscribe_def)
  ultimately show ?thesis
    unfolding serve_request_def p' Some
    by (cases r) (simp_all add: p'(2) set_inbox_say set_inbox_broadcast Let_def split: bind_split)
qed

lemma broker_requests_line:
  assumes "peer_at b i = Some p" "length (pr_outbox p) < KS_OUTPUT_HIGH_WATER" "pr_inbox p = l @ LF # rest" "LF \<notin> set l"
  shows "broker_requests env cfg i b = serve_line env cfg i l (set_inbox i rest b) \<bind> broker_requests env cfg i"
proof -
  have "split_line (pr_inbox p) = Some (l, rest)" using assms(3,4) by (simp add: split_line_Some)
  with assms(1,2) show ?thesis
    by (subst broker_requests.simps) (simp split: option.split)
qed

lemma broker_requests_stop:
  assumes "peer_at b i = Some p" "KS_OUTPUT_HIGH_WATER \<le> length (pr_outbox p) \<or> LF \<notin> set (pr_inbox p)"
  shows "broker_requests env cfg i b = Some b"
proof -
  have "LF \<notin> set (pr_inbox p) \<Longrightarrow> split_line (pr_inbox p) = None" by (simp add: split_line_None)
  with assms show ?thesis by (subst broker_requests.simps) auto
qed

section \<open>Reading and writing\<close>

text \<open>
  What the socket of a peer gives, until it has nothing more; \<open>True\<close> if it failed.
\<close>

partial_function (option) broker_read ::
    "command_env \<Rightarrow> ks_config \<Rightarrow> nat \<Rightarrow> broker \<Rightarrow> recv_answer list \<Rightarrow> (bool \<times> broker) option" where
  "broker_read env cfg i b os = do {
     p \<leftarrow> peer_at b i;
     if KS_OUTPUT_HIGH_WATER \<le> length (pr_outbox p) then Some (False, b)
     else if length (pr_inbox p) = KS_INPUT_CAP then Some (False, give_up i (error_text ''request too large'') b)
     else do {
       (status, data, os) \<leftarrow> ks_recv os (KS_INPUT_CAP - length (pr_inbox p));
       if status = KS_IO_WOULD_BLOCK then Some (False, b)
       else if status = KS_IO_CLOSED
       then Some (False, give_up i (if pr_inbox p = [] then [] else error_text ''incomplete command'') b)
       else if status = KS_IO_ERROR then Some (True, b)
       else do {
         b \<leftarrow> broker_requests env cfg i (set_inbox i (pr_inbox p @ data) b);
         p \<leftarrow> peer_at b i;
         if pr_closing p then Some (False, b) else broker_read env cfg i b os } } }"

text \<open>Bytes handed to a socket: whether it failed, what is left and what was taken.\<close>

partial_function (option) push :: "bytes \<Rightarrow> send_answer list \<Rightarrow> (bool \<times> bytes \<times> bytes) option" where
  "push tx os =
     (if tx = [] then Some (False, [], [])
      else do {
        (status, n, os) \<leftarrow> ks_send os (length tx);
        if status = KS_IO_WOULD_BLOCK then Some (False, tx, [])
        else if status = KS_IO_CLOSED \<or> status = KS_IO_ERROR then Some (True, tx, [])
        else do {
          (failed, left, sent) \<leftarrow> push (drop n tx) os;
          Some (failed, left, take n tx @ sent) } })"

definition broker_write :: "nat \<Rightarrow> send_answer list \<Rightarrow> broker \<Rightarrow> (bool \<times> broker \<times> bytes) option" where
  "broker_write i os b = do {
     p \<leftarrow> peer_at b i;
     (failed, left, sent) \<leftarrow> push (pr_outbox p) os;
     Some (failed \<or> left = [] \<and> pr_closing p, on_peer i (\<lambda>p. p\<lparr>pr_outbox := left\<rparr>) b, sent) }"

section \<open>A round\<close>

definition depart :: "nat \<Rightarrow> broker \<Rightarrow> broker" where
  "depart i b = (case peer_at b i of None \<Rightarrow> b | Some p \<Rightarrow>
     b\<lparr>bk_peers := (bk_peers b)[i := None], bk_subs := {q \<in> bk_subs b. snd q \<noteq> pr_id p}\<rparr>)"

definition broker_serve ::
    "tick_env \<Rightarrow> ks_config \<Rightarrow> int list \<Rightarrow> int list \<Rightarrow> nat \<Rightarrow> broker \<Rightarrow> (broker \<times> int list \<times> (int \<times> bytes) list) option" where
  "broker_serve te cfg rfds wfds i b =
     (case peer_at b i of None \<Rightarrow> if i < length (bk_peers b) then Some (b, [], []) else None
      | Some q \<Rightarrow> do {
          (gone, b) \<leftarrow> (if pr_fd q \<in> set rfds then broker_read (te_commands te) cfg i b (te_recv te i) else Some (False, b));
          let gone = (pr_dropped q \<or> gone);
          (gone, b, out) \<leftarrow> (if \<not> gone \<and> pr_fd q \<in> set wfds then broker_write i (te_send te i) b else Some (gone, b, []));
          b \<leftarrow> (if gone then Some b else broker_requests (te_commands te) cfg i b);
          p \<leftarrow> peer_at b i;
          let gone = (gone \<or> pr_closing p \<and> pr_outbox p = []);
          Some (if gone then depart i b else b, if gone then [pr_fd q] else [], if out = [] then [] else [(pr_fd q, out)]) })"

fun broker_serve_all ::
    "tick_env \<Rightarrow> ks_config \<Rightarrow> int list \<Rightarrow> int list \<Rightarrow> nat list \<Rightarrow> broker \<Rightarrow> (broker \<times> int list \<times> (int \<times> bytes) list) option" where
  "broker_serve_all te cfg rfds wfds [] b = Some (b, [], [])"
| "broker_serve_all te cfg rfds wfds (i # is) b = do {
     (b, closed, sent) \<leftarrow> broker_serve te cfg rfds wfds i b;
     (b, closed', sent') \<leftarrow> broker_serve_all te cfg rfds wfds is b;
     Some (b, closed @ closed', sent @ sent') }"

definition broker_admit :: "allocator \<Rightarrow> broker \<Rightarrow> int \<Rightarrow> broker \<times> int list" where
  "broker_admit al b fd =
     (let i = length (takeWhile (\<lambda>q. q \<noteq> None) (bk_peers b)); n = bk_next_id b in
      if i = length (bk_peers b) \<or> int FD_SETSIZE \<le> fd then (b\<lparr>bk_rejected := bk_rejected b + 1\<rparr>, [fd])
      else if c_malloc al Site_client_input (KS_INPUT_CAP + 1) \<and> c_malloc al Site_client_output KS_OUTPUT_CAP
      then (b\<lparr>bk_peers := (bk_peers b)[i := Some \<lparr>pr_fd = fd, pr_id = n, pr_closing = False, pr_dropped = False,
                 pr_inbox = [], pr_outbox = []\<rparr>],
              bk_accepted := bk_accepted b + 1, bk_next_id := next_id n\<rparr>, [])
      else (b\<lparr>bk_rejected := bk_rejected b + 1, bk_next_id := next_id n\<rparr>, [fd]))"

fun broker_accept ::
    "(nat \<Rightarrow> bool) \<Rightarrow> (nat \<Rightarrow> allocator) \<Rightarrow> nat \<Rightarrow> broker \<Rightarrow> accept_answer list \<Rightarrow> (bool \<times> broker \<times> int list) option" where
  "broker_accept stop al 0 b os = Some (False, b, [])"
| "broker_accept stop al (Suc n) b os =
     (if stop n then Some (False, b, [])
      else do {
        (fd, closed, os) \<leftarrow> ks_accept os;
        if fd = KS_NET_ACCEPT_WOULD_BLOCK then Some (False, b, closed)
        else if fd = KS_NET_ACCEPT_ERROR then Some (True, b, closed)
        else do {
          let (b, dropped) = broker_admit (al n) b fd;
          (r, b, later) \<leftarrow> broker_accept stop al n b os;
          Some (r, b, closed @ dropped @ later) } })"

definition awaits_input :: "peer \<Rightarrow> bool" where
  "awaits_input p \<longleftrightarrow> \<not> pr_dropped p \<and> \<not> pr_closing p \<and> length (pr_outbox p) < KS_OUTPUT_HIGH_WATER"

definition awaits_output :: "peer \<Rightarrow> bool" where
  "awaits_output p \<longleftrightarrow> \<not> pr_dropped p \<and> pr_outbox p \<noteq> []"

text \<open>What a round shows to the outside: whether the loop ends, what is closed and what is sent.\<close>

record round_output =
  ro_exit :: "int option"
  ro_closed :: "int list"
  ro_sent :: "(int \<times> bytes) list"

text \<open>The state is that of the broker and the number of rounds in which the listener is not polled.\<close>

definition broker_round ::
    "ks_config \<Rightarrow> int \<Rightarrow> tick_env \<Rightarrow> nat \<times> broker \<Rightarrow> (round_output \<times> nat \<times> broker) option" where
  "broker_round cfg listen_fd te kb = (case kb of (backoff, b) \<Rightarrow> do {
     (reaped, st) \<leftarrow> ks_kv_reap (bk_store b) KS_REAPER_BUDGET;
     let b = b\<lparr>bk_store := st\<rparr>;
     let polled = (if backoff = 0 then [listen_fd] else []) @ map pr_fd (filter awaits_input (present b));
     let owed = map pr_fd (filter awaits_output (present b));
     (case te_select te of
        Inl errno \<Rightarrow> Some (\<lparr>ro_exit = if errno = EINTR then None else Some 1, ro_closed = [], ro_sent = []\<rparr>, backoff - 1, b)
      | Inr fds \<Rightarrow> do {
          let (rfds, wfds) = c_select fds polled owed;
          (failed, b, closed) \<leftarrow>
            (if backoff \<le> 1 \<and> listen_fd \<in> set rfds
             then broker_accept (te_stop te) (te_accept_alloc te) KS_ACCEPT_BUDGET b (te_accept te) else Some (False, b, []));
          (b, closed', sent) \<leftarrow> broker_serve_all te cfg rfds wfds [0..<length (bk_peers b)] b;
          Some (\<lparr>ro_exit = None, ro_closed = closed @ closed', ro_sent = sent\<rparr>,
                if failed then 10 else backoff - 1, b) }) })"

end
