(* ===== verification/Kessel_Broker_Requests.thy ===== *)
theory Kessel_Broker_Requests
  imports Kessel_Broker
begin

text \<open>
  The requests of a client refine those of the broker: \<open>broker_of\<close> is the abstraction
  function, and every line the server carries out, malformed, too large or with an unknown
  command, is the transition of the broker for that line.
\<close>

section \<open>The abstraction function\<close>

definition peer_of :: "ks_client \<Rightarrow> peer option" where
  "peer_of c = (if cl_used c
     then Some \<lparr>pr_fd = cl_fd c, pr_id = cl_id c, pr_closing = cl_close_after_write c,
       pr_dropped = cl_drop_connection c, pr_inbox = inbox c, pr_outbox = outbox c\<rparr>
     else None)"

definition broker_of :: "ks_server \<Rightarrow> broker" where
  "broker_of s =
     \<lparr>bk_peers = map peer_of (sv_clients s), bk_store = sv_store s, bk_subs = ps_members (sv_pubsub s),
      bk_commands = mt_total_commands (sv_metrics s), bk_accepted = mt_total_connections (sv_metrics s),
      bk_rejected = mt_rejected_connections (sv_metrics s), bk_started_at = mt_started_at (sv_metrics s),
      bk_next_id = sv_next_client_id s\<rparr>"

lemma broker_of_simps [simp]:
  "bk_peers (broker_of s) = map peer_of (sv_clients s)" "bk_store (broker_of s) = sv_store s"
  "bk_subs (broker_of s) = ps_members (sv_pubsub s)" "bk_commands (broker_of s) = mt_total_commands (sv_metrics s)"
  "bk_accepted (broker_of s) = mt_total_connections (sv_metrics s)"
  "bk_rejected (broker_of s) = mt_rejected_connections (sv_metrics s)"
  "bk_started_at (broker_of s) = mt_started_at (sv_metrics s)" "bk_next_id (broker_of s) = sv_next_client_id s"
  by (simp_all add: broker_of_def)

lemma peer_of_used: "cl_used c \<Longrightarrow> peer_of c = Some \<lparr>pr_fd = cl_fd c, pr_id = cl_id c, pr_closing = cl_close_after_write c,
    pr_dropped = cl_drop_connection c, pr_inbox = inbox c, pr_outbox = outbox c\<rparr>"
  by (simp add: peer_of_def)

lemma peer_at_of: "peer_at (broker_of s) i = (case get_client s i of None \<Rightarrow> None | Some c \<Rightarrow> peer_of c)"
  by (simp add: peer_at_def get_client_def)

lemma present_of: "present (broker_of s) = map (\<lambda>c. the (peer_of c)) (filter cl_used (sv_clients s))"
proof -
  have "List.map_filter id (map peer_of cs) = map (\<lambda>c. the (peer_of c)) (filter cl_used cs)" for cs
    by (induction cs) (simp_all add: map_filter_simps peer_of_def)
  then show ?thesis by (simp add: present_def)
qed

lemma broker_put:
  assumes "get_client s i = Some c" "map_option f (peer_of c) = peer_of c'"
  shows "broker_of (put_client s i c') = on_peer i f (broker_of s)"
  using assms by (auto simp: broker_of_def on_peer_def put_client_def get_client_def map_update split: if_splits)

lemma queued_peer:
  assumes "queued c tx c'" "cl_used c"
  shows "peer_of c' = map_option (\<lambda>p. p\<lparr>pr_outbox := pr_outbox p @ tx\<rparr>) (peer_of c)"
  using queuedD [OF assms(1)] assms(2) by (simp add: peer_of_def inbox_def)

section \<open>Answers and frames\<close>

lemma handed_peer:
  assumes "handed I frame c c'" "client_ok c"
  shows "peer_of c' = map_option (hand I frame) (peer_of c)"
proof (cases "cl_used c")
  case False
  with assms show ?thesis by (simp add: handed_def takes_def peer_of_def)
next
  case True
  note len = pending_outbox [OF assms(2) True]
  consider "takes I frame c" "queued c frame c'"
    | c1 where "\<not> takes I frame c" "cl_id c \<in> I" "\<not> cl_drop_connection c" "queued c [] c1"
        "c' = c1\<lparr>cl_drop_connection := True\<rparr>"
    | "\<not> takes I frame c" "cl_id c \<notin> I \<or> cl_drop_connection c" "c' = c"
    using assms(1) True by (auto simp: handed_def split: if_splits)
  then show ?thesis
  proof cases
    case 1
    then have "has_room I frame (the (peer_of c))"
      using True len by (simp add: takes_def has_room_def peer_of_used)
    with queued_peer [OF 1(2) True] True show ?thesis by (simp add: peer_of_used hand_def)
  next
    case (2 c1)
    note d = queuedD [OF 2(4)]
    have "outbox c' = outbox c" "inbox c' = inbox c" using d 2(5) by (simp_all add: outbox_def pending_def inbox_def)
    moreover have "\<not> has_room I frame (the (peer_of c))"
      using 2(1-3) True len by (simp add: takes_def has_room_def peer_of_used)
    ultimately show ?thesis using 2 d True by (simp add: peer_of_def hand_def)
  next
    case 3
    then have "\<not> has_room I frame (the (peer_of c))"
      using True len by (auto simp: takes_def has_room_def peer_of_used)
    with 3 True show ?thesis by (auto simp: peer_of_def hand_def)
  qed
qed

lemma hand_none [simp]: "hand {} frame = id"
  by (auto simp: hand_def has_room_def)

lemma broadcast_none [simp]: "broadcast {} frame b = b"
  by (simp add: broadcast_def option.map_id0)

text \<open>A response is what the client is told, after the frames were handed out.\<close>

lemma responded_broker:
  assumes r: "responded s ci tx I frame st p s'" and ok: "\<forall>c \<in> set (sv_clients s). client_ok c"
    and c: "get_client s ci = Some c" "cl_used c"
  shows "broker_of s' = say ci tx (broadcast I frame (broker_of s\<lparr>bk_store := st, bk_subs := ps_members p\<rparr>))"
proof -
  from r obtain cs c' where h: "list_all2 (handed I frame) (sv_clients s) cs" "ci < length cs"
    "queued (cs ! ci) tx c'" "s' = s\<lparr>sv_clients := cs[ci := c'], sv_store := st, sv_pubsub := p\<rparr>"
    by (auto simp: responded_def)
  have n: "sv_clients s ! ci = c" "ci < length (sv_clients s)" using c(1) by (auto simp: get_client_def split: if_splits)
  have peers: "map peer_of cs = map (map_option (hand I frame)) (map peer_of (sv_clients s))"
    using h(1) ok by (induction rule: list_all2_induct) (auto simp: handed_peer simp del: option.map_comp)
  have "handed I frame c (cs ! ci)" using h(1,2) n by (auto simp: list_all2_conv_all_nth)
  with handedD(2) c(2) ok n have u: "cl_used (cs ! ci)" by (metis nth_mem)
  have "map peer_of (cs[ci := c']) = (map peer_of cs)[ci := map_option (\<lambda>p. p\<lparr>pr_outbox := pr_outbox p @ tx\<rparr>) (map peer_of cs ! ci)]"
    using queued_peer [OF h(3) u] h(2) by (simp add: map_update)
  then show ?thesis
    unfolding h(4) by (simp add: broker_of_def say_def on_peer_def broadcast_def peers del: map_map option.map_comp)
qed

lemma answered_broker:
  assumes a: "answered s ci tx st p r" and ok: "\<forall>c \<in> set (sv_clients s). client_ok c" and u: "ready s ci"
  obtains s' where "r = Some (0, s')" "broker_of s' = say ci tx (broker_of s\<lparr>bk_store := st, bk_subs := ps_members p\<rparr>)"
proof (rule answered_responded [OF a, of "[]"])
  fix s' assume s': "r = Some (0, s')" "responded s ci tx {} [] st p s'"
  from u obtain c where "get_client s ci = Some c" "cl_used c" by (auto simp: ready_def)
  from responded_broker [OF s'(2) ok this] s'(1) show thesis by (intro that) simp_all
qed

section \<open>Requests\<close>

lemma subscribe_exact:
  assumes inv: "ps_inv p" and ch: "ch \<noteq> []"
  shows "\<exists>st p'. ks_pubsub_subscribe al (Some p) (Some ch) i = (st, Some p') \<and>
    (if (ch, i) \<in> ps_members p \<or> c_malloc al Site_subscriber sizeof_subscriber \<and>
        (ch \<in> fst ` ps_members p \<or>
         c_malloc al Site_channel_name (length ch + 1) \<and> c_malloc al Site_new_channel sizeof_channel)
     then subscribe_text st = simple_text ''OK'' \<and> ps_members p' = insert (ch, i) (ps_members p)
     else subscribe_text st = error_text ''unable to subscribe'' \<and> ps_members p' = ps_members p)"
proof -
  note d = ps_invD [OF inv]
  have names: "fst ` ps_members p = ch_name ` set (ps_channels p)" using fst_members [OF d(1)] by (simp add: ps_members_def)
  from subscribe_spec [OF inv ch, of al i] obtain st p' where s: "ks_pubsub_subscribe al (Some p) (Some ch) i = (st, Some p')"
    "st = KS_PUBSUB_OK \<and> (ch, i) \<notin> ps_members p \<and> ps_members p' = insert (ch, i) (ps_members p) \<or>
     st = KS_PUBSUB_ALREADY_SUBSCRIBED \<and> (ch, i) \<in> ps_members p \<and> p' = p \<or>
     st = KS_PUBSUB_NO_MEMORY \<and> (ch, i) \<notin> ps_members p \<and> p' = p" by blast
  have "st = KS_PUBSUB_NO_MEMORY \<longleftrightarrow> (ch, i) \<notin> ps_members p \<and> \<not> (c_malloc al Site_subscriber sizeof_subscriber \<and>
        (ch \<in> fst ` ps_members p \<or>
         c_malloc al Site_channel_name (length ch + 1) \<and> c_malloc al Site_new_channel sizeof_channel))"
  proof (cases "find_channel (ps_channels p) ch")
    case None
    then have "ch \<notin> fst ` ps_members p" by (simp add: names find_channel_None)
    moreover from this have "(ch, i) \<notin> ps_members p" by force
    ultimately show ?thesis
      using s(1) None ch by (auto simp: ks_pubsub_subscribe_def copy_string_def split: if_splits)
  next
    case (Some c)
    then have "ch \<in> fst ` ps_members p" using find_channel_None [of "ps_channels p" ch] by (simp add: names)
    moreover have "i \<in> set (ch_subscribers c) \<longleftrightarrow> (ch, i) \<in> ps_members p"
      using find_channel_Some(3) [OF Some d(1)] by (simp add: ps_members_def)
    ultimately show ?thesis using s(1) Some ch by (auto simp: ks_pubsub_subscribe_def split: if_splits)
  qed
  with s show ?thesis by (intro exI [of _ st] exI [of _ p']) (auto simp: subscribe_text_def)
qed

lemma audience_of:
  assumes "\<forall>c \<in> set (sv_clients s). client_ok c"
  shows "audience I frame (broker_of s) = length (filter (takes I frame) (sv_clients s))"
proof -
  have "filter (has_room I frame) (map (\<lambda>c. the (peer_of c)) (filter cl_used cs)) =
      map (\<lambda>c. the (peer_of c)) (filter (takes I frame) cs)" if "\<forall>c \<in> set cs. client_ok c" for cs
    using that by (induction cs) (auto simp: takes_def has_room_def peer_of_used pending_outbox)
  from arg_cong [OF this [OF assms], of length] show ?thesis by (simp add: audience_def present_of)
qed

lemma info_of_broker:
  assumes "server_inv s" shows "broker_info now cfg keys (broker_of s) = info_of now cfg s keys"
proof -
  note d = server_invD [OF assms] and p = server_invD(6) [OF assms, unfolded ps_inv_def]
  have "length (used_ids (sv_clients s)) \<le> length (sv_clients s)" by (simp add: used_ids_def)
  with d(3) have "length (used_ids (sv_clients s)) < 2 ^ 64" by (simp add: FD_SETSIZE_def)
  then have "unat (mt_connected_clients (sv_metrics s)) = length (present (broker_of s))"
    using d(8) by (simp add: unsigned_of_nat take_bit_nat_eq_self present_of used_ids_def)
  with p show ?thesis by (simp add: broker_info_def info_of_def)
qed

lemma request_cases:
  assumes "parse_spec line = Some (cmd, args)" "static_reply cmd args = None"
  obtains op where "kv_command al cmd args = Some op" "request_of al line = Req_Data op"
  | ch where "cmd = ''SUBSCRIBE''" "args = [ch]" "request_of al line = Req_Subscribe ch"
  | ch where "cmd = ''UNSUBSCRIBE''" "args = [ch]" "request_of al line = Req_Unsubscribe ch"
  | ch m where "cmd = ''PUBLISH''" "args = [ch, m]" "request_of al line = Req_Publish ch m"
  | "cmd = ''INFO''" "args = []" "request_of al line = Req_Info"
proof (rule command_cases [OF assms(2), of al])
  fix op assume "kv_command al cmd args = Some op"
  with assms that(1) show thesis by (simp add: request_of_def)
qed (use assms that in \<open>simp_all add: request_of_def kv_command_def\<close>)

lemma exec_line_refines:
  assumes s: "server_inv s" and r: "ready s ci" and env: "env_ok env"
  obtains s' where "exec_line env cfg n s ci line = Some (0, s')"
    "serve_request cfg (ce_alloc env n) (ce_time env n) ci (request_of (ce_alloc env n) line) (broker_of s) =
       Some (broker_of s')"
proof -
  note d = server_invD [OF s]
  let ?al = "ce_alloc env n" and ?now = "ce_time env n"
  from r obtain c where c: "get_client s ci = Some c" "cl_used c" by (auto simp: ready_def)
  then have p: "peer_at (broker_of s) ci = peer_of c" by (simp add: peer_at_of)
  note peer = p [unfolded peer_of_used [OF c(2)]]
  have same: "broker_of s\<lparr>bk_store := sv_store s, bk_subs := ps_members (sv_pubsub s)\<rparr> = broker_of s"
    by (simp add: broker_of_def)
  show thesis
  proof (cases "parse_spec line")
    case None
    note a = answered_broker [OF reply_error_text [OF r, of "''invalid command''"] d(1) r, unfolded same]
    show thesis
      by (rule a) (use None that peer in \<open>simp_all add: exec_line_def request_of_def serve_request_def\<close>)
  next
    case (Some q)
    obtain cmd args where q: "q = (cmd, args)" by (cases q)
    note parse = Some [unfolded q]
    have x: "exec_line env cfg n s ci line = dispatch ?al ?now cfg s ci cmd args" by (simp add: exec_line_def parse)
    have len: "sum_list (map length args) \<le> KS_MAX_REQUEST" using parse_spec_length [OF parse] by simp
    have small: "\<forall>a \<in> set args. length a \<le> KS_MAX_REQUEST" using in_args_length len by fastforce
    have now: "time_ok ?now" using env by (simp add: env_ok_def)
    show thesis
    proof (cases "static_reply cmd args")
      case (Some tx)
      note a = answered_broker [OF dispatch_static [OF r Some small, of ?al ?now cfg] d(1) r, unfolded same]
      show thesis
        by (rule a) (use Some that peer parse x in \<open>simp_all add: request_of_def serve_request_def\<close>)
    next
      case None
      show thesis
      proof (rule request_cases [OF parse None, of ?al])
        fix op assume op: "kv_command ?al cmd args = Some op" "request_of ?al line = Req_Data op"
        have "length v \<le> KS_MAX_REQUEST" if "op = Op_Set al' k v ttl" for al' k v ttl
          using kv_command_value [of ?al cmd args] op(1) small that by blast
        from d(4,5) this obtain a st where st: "kv_step op (sv_store s) = Some (a, st)" by (rule store_step)
        note ans = answered_broker [OF dispatch_kv [OF r d(10,5) op(1) st, of ?now cfg] d(1) r]
        show thesis by (rule ans) (use that peer x op st in \<open>simp_all add: serve_request_def broker_of_def\<close>)
      next
        fix ch assume sub: "cmd = ''SUBSCRIBE''" "args = [ch]" "request_of ?al line = Req_Subscribe ch"
        show thesis
        proof (cases "ch = []")
          case True
          then have "ks_pubsub_subscribe ?al (Some (sv_pubsub s)) (Some ch) (cl_id c) =
            (KS_PUBSUB_INVALID_ARGUMENT, Some (sv_pubsub s))" by (simp add: ks_pubsub_subscribe_def)
          note ans = answered_broker [OF dispatch_subscribe [OF r c(1) this, of ?now cfg] d(1) r, unfolded same]
          show thesis
            by (rule ans) (use that peer x sub True in \<open>simp_all add: serve_request_def subscribe_text_def\<close>)
        next
          case False
          from subscribe_exact [OF d(6) False, of ?al "cl_id c"] obtain st p' where
            e: "ks_pubsub_subscribe ?al (Some (sv_pubsub s)) (Some ch) (cl_id c) = (st, Some p')"
              "if (ch, cl_id c) \<in> ps_members (sv_pubsub s) \<or> can_subscribe ?al ch (broker_of s)
               then subscribe_text st = simple_text ''OK'' \<and> ps_members p' = insert (ch, cl_id c) (ps_members (sv_pubsub s))
               else subscribe_text st = error_text ''unable to subscribe'' \<and> ps_members p' = ps_members (sv_pubsub s)"
            by (auto simp: can_subscribe_def)
          have b: "serve_request cfg ?al ?now ci (request_of ?al line) (broker_of s) =
              Some (say ci (subscribe_text st) (broker_of s\<lparr>bk_store := sv_store s, bk_subs := ps_members p'\<rparr>))"
            using e(2) False peer sub(3) by (simp add: serve_request_def broker_of_def split: if_splits)
          note ans = answered_broker [OF dispatch_subscribe [OF r c(1) e(1), of ?now cfg] d(1) r]
          show thesis by (rule ans) (use that x sub b in simp_all)
        qed
      next
        fix ch assume unsub: "cmd = ''UNSUBSCRIBE''" "args = [ch]" "request_of ?al line = Req_Unsubscribe ch"
        have "\<exists>st p' ev. ks_pubsub_unsubscribe (Some (sv_pubsub s)) (Some ch) (cl_id c) = (st, Some p', ev) \<and>
          ps_members p' = ps_members (sv_pubsub s) - {(ch, cl_id c)} \<and>
          (st = KS_PUBSUB_OK \<longleftrightarrow> (ch, cl_id c) \<in> ps_members (sv_pubsub s))"
        proof (cases "ch = []")
          case True
          then show ?thesis using no_empty_name [OF d(6)] by (auto simp: ks_pubsub_unsubscribe_def)
        next
          case False
          from unsubscribe_spec [OF d(6) False, of "cl_id c"] show ?thesis by (auto split: if_splits)
        qed
        then obtain st p' ev where e: "ks_pubsub_unsubscribe (Some (sv_pubsub s)) (Some ch) (cl_id c) = (st, Some p', ev)"
          "ps_members p' = ps_members (sv_pubsub s) - {(ch, cl_id c)}"
          "st = KS_PUBSUB_OK \<longleftrightarrow> (ch, cl_id c) \<in> ps_members (sv_pubsub s)" by blast
        note ans = answered_broker [OF dispatch_unsubscribe [OF r c(1) e(1), of ?al ?now cfg] d(1) r]
        show thesis by (rule ans) (use that x unsub peer e in \<open>simp_all add: serve_request_def broker_of_def\<close>)
      next
        fix ch m assume pub: "cmd = ''PUBLISH''" "args = [ch, m]" "request_of ?al line = Req_Publish ch m"
        let ?I = "set (targets (sv_pubsub s) ch)" and ?f = "message_text ch m"
        have I: "?I = ps_members (sv_pubsub s) `` {ch}" using targets_spec(2) [OF d(6), of ch] by auto
        have "length ch + length m \<le> KS_MAX_REQUEST" using len pub by simp
        from dispatch_publish [OF s r this, of ?al ?now cfg] obtain s' where
          s': "dispatch ?al ?now cfg s ci ''PUBLISH'' [ch, m] = Some (0, s')"
            "responded s ci (int_text (int (length (filter (takes ?I ?f) (sv_clients s))))) ?I ?f (sv_store s) (sv_pubsub s) s'"
          by blast
        from responded_broker [OF s'(2) d(1) c, unfolded same]
        have "serve_request cfg ?al ?now ci (request_of ?al line) (broker_of s) = Some (broker_of s')"
          using peer pub(3) audience_of [OF d(1), of ?I ?f] by (simp add: serve_request_def Let_def I)
        with s'(1) x pub show thesis by (intro that) simp_all
      next
        assume info: "cmd = ''INFO''" "args = []" "request_of ?al line = Req_Info"
        from d(4,5) obtain a st' where "kv_step Op_Size (sv_store s) = Some (a, st')"
          by (rule store_step [where op = Op_Size]) simp
        then obtain keys st where st: "ks_kv_size (sv_store s) = Some (keys, st)" by auto
        note ans = answered_broker [OF dispatch_info [OF r now d(9) st, of cfg ?al] d(1) r]
        show thesis
          by (rule ans) (use that x info peer st info_of_broker [OF s] in \<open>simp_all add: serve_request_def\<close>, simp add: broker_of_def)
      qed
    qed
  qed
qed

section \<open>A line\<close>

text \<open>The server seen with \<open>n\<close> bytes of the input of client \<open>ci\<close> used up.\<close>

definition broker_at :: "nat \<Rightarrow> nat \<Rightarrow> ks_server \<Rightarrow> broker" where
  "broker_at ci n s = (case get_client s ci of None \<Rightarrow> broker_of s
     | Some c \<Rightarrow> set_inbox ci (drop n (inbox c)) (broker_of s))"

lemma broker_at_client: "get_client s ci = Some c \<Longrightarrow> broker_at ci n s = set_inbox ci (drop n (inbox c)) (broker_of s)"
  by (simp add: broker_at_def)

lemma broker_at_peer:
  assumes "get_client s ci = Some c" "cl_used c"
  shows "peer_at (broker_at ci n s) ci = Some (the (peer_of c)\<lparr>pr_inbox := drop n (inbox c)\<rparr>)"
    "pr_outbox (the (peer_of c)\<lparr>pr_inbox := x\<rparr>) = outbox c"
  using assms by (simp_all add: broker_at_client set_inbox_peer peer_at_of peer_of_used)

lemma set_inbox_at: "get_client s ci = Some c \<Longrightarrow> set_inbox ci x (broker_at ci n s) = set_inbox ci x (broker_of s)"
  by (simp add: broker_at_client)

lemma put_inbox:
  assumes "get_client s ci = Some c"
  shows "set_inbox ci x (broker_of (put_client s ci (c\<lparr>cl_input := b, cl_input_len := n\<rparr>))) = set_inbox ci x (broker_of s)"
proof -
  let ?c = "c\<lparr>cl_input := b, cl_input_len := n\<rparr>"
  have "map_option (\<lambda>p. p\<lparr>pr_inbox := inbox ?c\<rparr>) (peer_of c) = peer_of ?c"
    by (simp add: peer_of_def outbox_def pending_def)
  from broker_put [OF assms this] show ?thesis by (simp add: set_inbox_def [symmetric])
qed

lemma put_input:
  assumes "get_client s ci = Some c"
  shows "set_inbox ci x (broker_of (put_client s ci (c\<lparr>cl_input := b\<rparr>))) = set_inbox ci x (broker_of s)"
proof -
  have "c\<lparr>cl_input := b\<rparr> = c\<lparr>cl_input := b, cl_input_len := cl_input_len c\<rparr>" by simp
  with put_inbox [OF assms] show ?thesis by metis
qed

lemma parsed_broker:
  assumes "get_client s ci = Some c"
  shows "set_inbox ci x (broker_of (parsed s ci input)) =
    set_inbox ci x (broker_of s\<lparr>bk_commands := mt_total_commands (sv_metrics s) + 1\<rparr>)"
proof -
  let ?s = "s\<lparr>sv_metrics := (sv_metrics s)\<lparr>mt_total_commands := mt_total_commands (sv_metrics s) + 1\<rparr>\<rparr>"
  have g: "get_client ?s ci = Some c" using assms by simp
  have "broker_of ?s = broker_of s\<lparr>bk_commands := mt_total_commands (sv_metrics s) + 1\<rparr>"
    by (simp add: broker_of_def)
  with put_input [OF g, of x input] assms show ?thesis by (simp add: parsed_def)
qed

lemma restore_broker:
  assumes "restore c stop ci s = Some s'"
  shows "set_inbox ci x (broker_of s') = set_inbox ci x (broker_of s)"
  using assms put_input [of s ci] by (auto simp: restore_def split: if_splits bind_splits)

lemma run_line_refines:
  assumes s: "server_inv s" and r: "ready s ci" and c: "get_client s ci = Some c"
    and i: "consumed < stop" "stop \<le> cl_input_len c" and env: "env_ok env"
    and line: "NUL \<notin> set (take (stop - consumed) (drop consumed (cl_input c)))"
  defines "n \<equiv> mt_total_commands (sv_metrics s)"
  obtains s' where "run_line env cfg s ci c consumed stop = Some (Continue stop, s')" "line_done s ci c stop s'"
    "serve_request cfg (ce_alloc env n) (ce_time env n) ci
       (request_of (ce_alloc env n) (take (stop - consumed) (drop consumed (cl_input c))))
       (broker_at ci stop s\<lparr>bk_commands := n + 1\<rparr>) = Some (broker_at ci stop s')"
proof -
  have ok: "client_ok c" "cl_used c" using r c by (auto simp: ready_def)
  let ?line = "take (stop - consumed) (drop consumed (cl_input c))" and ?x = "drop stop (inbox c)"
  from run_line_spec [OF s r c i env line, of cfg] obtain s' where
    s': "run_line env cfg s ci c consumed stop = Some (Continue stop, s')" "line_done s ci c stop s'" by blast
  then obtain c' where c': "get_client s' ci = Some c'" "drop stop (inbox c') = ?x" by (auto simp: line_done_def)
  obtain input where a: "length input = length (cl_input c)"
    and run: "run_line env cfg s ci c consumed stop = do {
       (r, s') \<leftarrow> exec_line env cfg n (parsed s ci input) ci ?line;
       s' \<leftarrow> restore c stop ci s';
       Some (if r \<noteq> 0 then Return (- 1) else Continue stop, s') }"
    unfolding n_def by (rule run_line_exec [OF c ok i line])
  obtain s2 where
    e: "exec_line env cfg n (parsed s ci input) ci ?line = Some (0, s2)"
      "serve_request cfg (ce_alloc env n) (ce_time env n) ci (request_of (ce_alloc env n) ?line)
        (broker_of (parsed s ci input)) = Some (broker_of s2)"
    by (rule exec_line_refines [OF parsed_inv(1) [OF s c a ok(2)] parsed_ready [OF r c a] env])
  from run e(1) s'(1) have t: "restore c stop ci s2 = Some s'" by (simp split: bind_splits)
  have b: "broker_at ci stop s\<lparr>bk_commands := n + 1\<rparr> = set_inbox ci ?x (broker_of (parsed s ci input))"
    unfolding parsed_broker [OF c] by (simp add: broker_at_client [OF c] n_def)
  have b': "broker_at ci stop s' = set_inbox ci ?x (broker_of s2)"
    using restore_broker [OF t] by (simp add: broker_at_client [OF c'(1)] c'(2))
  show thesis
    by (rule that [OF s'], unfold b b' serve_request_set_inbox e(2)) simp
qed

section \<open>The loop over the lines\<close>

text \<open>An error line queued by the server is what the broker says.\<close>

lemma queue_error_broker:
  assumes s: "server_inv s" and r: "ready s ci" and c: "get_client s ci = Some c" and m: "length m < 240"
  obtains c' where "queue_error c m = Some (0, c')" "queued c (error_text m) c'"
    "broker_of (put_client s ci c') = say ci (error_text m) (broker_of s)"
    "broker_of (put_client s ci (c'\<lparr>cl_close_after_write := True\<rparr>)) =
      on_peer ci (\<lambda>p. p\<lparr>pr_closing := True\<rparr>) (say ci (error_text m) (broker_of s))"
proof -
  have ok: "client_ok c" "cl_used c" "pending c < KS_OUTPUT_HIGH_WATER" using r c by (auto simp: ready_def)
  from queue_error_spec [OF ok m] obtain c' where q: "queue_error c m = Some (0, c')" "queued c (error_text m) c'"
    by (auto simp: error_text_def)
  note p = queued_peer [OF q(2) ok(2)]
  have b: "broker_of (put_client s ci c') = say ci (error_text m) (broker_of s)"
    unfolding say_def by (rule broker_put [OF c]) (rule p [symmetric])
  have close: "peer_of (c'\<lparr>cl_close_after_write := True\<rparr>) = map_option (\<lambda>p. p\<lparr>pr_closing := True\<rparr>) (peer_of c')"
    by (simp add: peer_of_def inbox_def outbox_def pending_def)
  have "broker_of (put_client (put_client s ci c') ci (c'\<lparr>cl_close_after_write := True\<rparr>)) =
      on_peer ci (\<lambda>p. p\<lparr>pr_closing := True\<rparr>) (broker_of (put_client s ci c'))"
    by (rule broker_put [OF get_put [OF c]]) (rule close [symmetric])
  with q b show thesis by (intro that) simp_all
qed

text \<open>What one round of the loop is for the broker.\<close>

definition step_refines ::
    "command_env \<Rightarrow> ks_config \<Rightarrow> nat \<Rightarrow> nat \<Rightarrow> ks_server \<Rightarrow> request_step \<Rightarrow> ks_server \<Rightarrow> bool" where
  "step_refines env cfg ci consumed s st s' \<longleftrightarrow>
     (case st of
        Return r \<Rightarrow> False
      | Break n \<Rightarrow> broker_requests env cfg ci (broker_at ci consumed s) = Some (broker_at ci n s')
      | Continue n \<Rightarrow>
          broker_requests env cfg ci (broker_at ci consumed s) = broker_requests env cfg ci (broker_at ci n s'))"

lemma process_step_refines:
  assumes s: "server_inv s" and c: "get_client s ci = Some c" "cl_used c" and env: "env_ok env"
    and i: "consumed < cl_input_len c"
  shows "\<exists>st s'. process_step env cfg ci consumed s = Some (st, s') \<and> step_done s ci c consumed st s' \<and>
    step_refines env cfg ci consumed s st s'"
proof (cases "KS_OUTPUT_HIGH_WATER \<le> pending c")
  case True
  note ok = get_client_ok [OF s c(1)]
  have "broker_requests env cfg ci (broker_at ci consumed s) = Some (broker_at ci consumed s)"
    by (rule broker_requests_stop [OF broker_at_peer(1) [OF c]]) (use True pending_outbox [OF ok c(2)] broker_at_peer(2) [OF c] in simp)
  with c True show ?thesis by (simp add: process_step_def step_done_def step_refines_def)
next
  case False
  note ok = get_client_ok [OF s c(1)]
  note d = client_okD [OF ok c(2)]
  have r: "ready s ci" using False c ok by (simp add: ready_def)
  have rest: "drop consumed (inbox c) = take (cl_input_len c - consumed) (drop consumed (cl_input c))"
    by (simp add: inbox_def drop_take)
  note peer = broker_at_peer(1) [OF c, of consumed]
  have "consumed + (cl_input_len c - consumed) \<le> length (cl_input c)" using d i by simp
  then show ?thesis
  proof (cases rule: memchr_spec [where x = LF, case_names none found])
    case none
    have "broker_requests env cfg ci (broker_at ci consumed s) = Some (broker_at ci consumed s)"
      by (rule broker_requests_stop [OF peer]) (use none(2) rest in simp)
    with none rest False c show ?thesis by (simp add: process_step_def step_done_def step_refines_def)
  next
    case (found nl)
    let ?stop = "nl + 1" and ?l = "take (nl - consumed) (drop consumed (cl_input c))"
    have stop: "consumed < ?stop" "?stop \<le> cl_input_len c" "?stop \<le> length (cl_input c)"
      using found i d by auto
    have nl: "nl \<le> length (cl_input c)" "nl < cl_input_len c" using stop by simp_all
    note step = process_step_found [OF c(1) False found(1,2) nl(1), of env cfg]
    have line: "take (?stop - consumed) (drop consumed (cl_input c)) = ?l @ [LF]"
      using found(2,4) stop by (simp add: Suc_diff_le take_Suc_conv_app_nth)
    note split = inbox_line [OF ok c(2) found(2) nl(2) found(4)] and size = oversized_content [OF nl(1) found(2)]
    have br: "broker_requests env cfg ci (broker_at ci consumed s) =
        serve_line env cfg ci ?l (broker_at ci ?stop s) \<bind> broker_requests env cfg ci"
      using broker_requests_line [OF peer, of ?l "drop ?stop (inbox c)" env cfg] False found(5) split
        pending_outbox [OF ok c(2)] broker_at_peer(2) [OF c]
      by (simp add: set_inbox_at [OF c(1)] broker_at_client [OF c(1), of "Suc nl"])
    show ?thesis
    proof (cases "line_content (cl_input c) consumed nl > KS_MAX_REQUEST")
      case True
      let ?m = "''request too large''"
      obtain c' where q: "queue_error c ?m = Some (0, c')" "queued c (error_text ?m) c'"
        "broker_of (put_client s ci (c'\<lparr>cl_close_after_write := True\<rparr>)) =
          on_peer ci (\<lambda>p. p\<lparr>pr_closing := True\<rparr>) (say ci (error_text ?m) (broker_of s))"
        by (rule queue_error_broker [OF s r c(1), of ?m]) simp_all
      obtain c'' where "queue_error c ?m = Some (0, c'')"
        "line_done s ci (c\<lparr>cl_close_after_write := True\<rparr>) (cl_input_len c) (put_client s ci (c''\<lparr>cl_close_after_write := True\<rparr>))"
        "cl_input_len c'' = cl_input_len c"
        by (rule queue_error_done [OF s r c(1), of ?m "cl_input_len c"]) simp
      with q(1) have ld: "line_done s ci (c\<lparr>cl_close_after_write := True\<rparr>) (cl_input_len c) (put_client s ci (c'\<lparr>cl_close_after_write := True\<rparr>))"
        "cl_input_len c' = cl_input_len c" by simp_all
      let ?s = "put_client s ci (c'\<lparr>cl_close_after_write := True\<rparr>)"
      have g: "get_client ?s ci = Some (c'\<lparr>cl_close_after_write := True\<rparr>)" by (rule get_put [OF c(1)])
      have u: "cl_used (c'\<lparr>cl_close_after_write := True\<rparr>)" using queuedD(3) [OF q(2)] c(2) by simp
      have none: "drop (cl_input_len c) (inbox (c'\<lparr>cl_close_after_write := True\<rparr>)) = []"
        using ld(2) by (simp add: inbox_def)
      have at: "broker_at ci (cl_input_len c) ?s = set_inbox ci [] (broker_of ?s)"
        unfolding broker_at_client [OF g] none by (rule refl)
      have "serve_line env cfg ci ?l (broker_at ci ?stop s) = Some (broker_at ci (cl_input_len c) ?s)"
        using True size unfolding at q(3) serve_line_def
        by (simp add: broker_at_client [OF c(1)] give_up_def set_inbox_def say_def on_peer_twice comp_def)
      moreover have "broker_requests env cfg ci (broker_at ci (cl_input_len c) ?s) = Some (broker_at ci (cl_input_len c) ?s)"
        by (rule broker_requests_stop [OF broker_at_peer(1) [OF g u]]) (simp add: none)
      moreover have "starts_oversized (drop consumed (inbox c))"
        using split found(5) size True unfolding starts_oversized_def by blast
      moreover have "outbox (c'\<lparr>cl_close_after_write := True\<rparr>) = outbox c @ refusal"
        using queuedD(2) [OF q(2)] by (simp add: outbox_def pending_def refusal_def)
      ultimately show ?thesis using step True q(1) ld br g
        by (simp add: request_too_large_def step_done_def step_refines_def)
    next
      case small: False
      have o: "\<not> oversized ?l" using small size by simp
      then have line_ok: "request_line ?l" using found(5) by (simp add: request_line_def)
      have "consumed + (?stop - consumed) \<le> length (cl_input c)" using stop by simp
      then show ?thesis
      proof (cases rule: memchr_spec [where x = NUL, case_names none found])
        case none
        let ?n = "mt_total_commands (sv_metrics s)"
        obtain s' where s': "run_line env cfg s ci c consumed ?stop = Some (Continue ?stop, s')" "line_done s ci c ?stop s'"
          "serve_request cfg (ce_alloc env ?n) (ce_time env ?n) ci
            (request_of (ce_alloc env ?n) (take (?stop - consumed) (drop consumed (cl_input c))))
            (broker_at ci ?stop s\<lparr>bk_commands := ?n + 1\<rparr>) = Some (broker_at ci ?stop s')"
          by (rule run_line_refines [OF s r c(1) stop(1,2) env none(2)])
        have "NUL \<notin> set ?l" using none(2) unfolding line by simp
        moreover have "bk_commands (broker_at ci ?stop s) = ?n" by (simp add: broker_at_client [OF c(1)])
        ultimately have "serve_line env cfg ci ?l (broker_at ci ?stop s) = Some (broker_at ci ?stop s')"
          using o s'(3) unfolding line serve_line_def Let_def by simp
        with s' none(1) step small stop line_ok split br show ?thesis by (auto simp: step_done_def step_refines_def)
      next
        case zero: (found z)
        let ?m = "''invalid command''"
        obtain c' where q: "queue_error c ?m = Some (0, c')" "queued c (error_text ?m) c'"
          "broker_of (put_client s ci c') = say ci (error_text ?m) (broker_of s)"
          by (rule queue_error_broker [OF s r c(1), of ?m]) simp_all
        obtain c'' where "queue_error c ?m = Some (0, c'')" "line_done s ci c ?stop (put_client s ci c'')"
          by (rule queue_error_done [OF s r c(1), of ?m ?stop]) simp
        with q(1) have ld: "line_done s ci c ?stop (put_client s ci c')" by simp
        have "inbox c' = inbox c" using queuedD(8,9) [OF q(2)] by (simp add: inbox_def)
        then have at: "broker_at ci ?stop (put_client s ci c') = say ci (error_text ?m) (broker_at ci ?stop s)"
          by (simp add: broker_at_client [OF c(1)] broker_at_client [OF get_put [OF c(1)]] q(3) set_inbox_say)
        have "NUL \<in> set (?l @ [LF])"
        proof -
          have "z - consumed < length (?l @ [LF])" "(?l @ [LF]) ! (z - consumed) = NUL"
            using zero(2-4) found(2) stop unfolding line [symmetric] by simp_all
          then show ?thesis by (metis nth_mem)
        qed
        then have "serve_line env cfg ci ?l (broker_at ci ?stop s) = Some (broker_at ci ?stop (put_client s ci c'))"
          using o at by (simp add: serve_line_def)
        with zero(1) step small stop line_ok split br q(1) ld show ?thesis by (auto simp: step_done_def step_refines_def)
      qed
    qed
  qed
qed

lemma process_loop_refines:
  assumes "server_inv s" "get_client s ci = Some c" "cl_used c" "env_ok env" "consumed \<le> cl_input_len c"
  shows "\<exists>n s'. process_loop env cfg ci consumed s = Some (0, n, s') \<and>
    broker_requests env cfg ci (broker_at ci consumed s) = Some (broker_at ci n s')"
  using assms
proof (induction "cl_input_len c - consumed" arbitrary: s c consumed rule: less_induct)
  case less
  note ok = get_client_ok [OF less.prems(1,2)]
  show ?case
  proof (cases "consumed < cl_input_len c")
    case False
    then have "drop consumed (inbox c) = []" using less.prems by (simp add: inbox_def)
    then have "broker_requests env cfg ci (broker_at ci consumed s) = Some (broker_at ci consumed s)"
      by (intro broker_requests_stop [OF broker_at_peer(1) [OF less.prems(2,3)]]) simp
    with False less.prems show ?thesis by (subst process_loop.simps) simp
  next
    case True
    from process_step_refines [OF less.prems(1-4) True, of cfg] obtain st s1 where
      st: "process_step env cfg ci consumed s = Some (st, s1)" "step_done s ci c consumed st s1"
        "step_refines env cfg ci consumed s st s1" by blast
    show ?thesis
    proof (cases st)
      case (Return r)
      with st(2) show ?thesis by (simp add: step_done_def)
    next
      case (Break n)
      with st True less.prems(2) show ?thesis
        by (subst process_loop.simps) (simp add: step_refines_def)
    next
      case (Continue n)
      with st(2) have n: "consumed < n" "n \<le> cl_input_len c" "line_done s ci c n s1" by (auto simp: step_done_def)
      from n(3) obtain c1 where c1: "server_inv s1" "get_client s1 ci = Some c1" "cl_used c1"
        "cl_input_len c1 = cl_input_len c" by (auto simp: line_done_def)
      have "cl_input_len c1 - n < cl_input_len c - consumed" using c1(4) n(1,2) by simp
      from less.hyps [OF this c1(1-3) less.prems(4)] c1(4) n(2) obtain m s2 where
        "process_loop env cfg ci n s1 = Some (0, m, s2)"
        "broker_requests env cfg ci (broker_at ci n s1) = Some (broker_at ci m s2)" by auto
      with st Continue True less.prems(2) show ?thesis
        by (subst process_loop.simps) (simp add: step_refines_def)
    qed
  qed
qed

lemma broker_at_0: "get_client s ci = Some c \<Longrightarrow> broker_at ci 0 s = broker_of s"
proof -
  assume c: "get_client s ci = Some c"
  have "map_option (\<lambda>p. p\<lparr>pr_inbox := inbox c\<rparr>) (peer_of c) = peer_of c" by (simp add: peer_of_def)
  from broker_put [OF c this] c have "set_inbox ci (inbox c) (broker_of s) = broker_of (put_client s ci c)"
    by (simp add: set_inbox_def)
  moreover have "put_client s ci c = s" using c by (auto simp: put_client_def get_client_def split: if_splits)
  ultimately show ?thesis by (simp add: broker_at_client [OF c])
qed

lemma process_requests_refines:
  assumes s: "server_inv s" and c: "get_client s ci = Some c" "cl_used c" and env: "env_ok env"
  obtains s' where "process_requests env cfg s ci = Some (0, s')"
    "broker_requests env cfg ci (broker_of s) = Some (broker_of s')" "requests_done s ci c s'"
proof -
  from process_requests_spec [OF s c env, of cfg] obtain s' where
    s': "process_requests env cfg s ci = Some (0, s')" "requests_done s ci c s'" by blast
  from process_loop_refines [OF s c env, of 0 cfg] obtain n s1 where
    l: "process_loop env cfg ci 0 s = Some (0, n, s1)"
      "broker_requests env cfg ci (broker_of s) = Some (broker_at ci n s1)" by (auto simp: broker_at_0 [OF c(1)])
  from process_loop_spec [OF s c env, of 0 cfg] l(1) have ld: "loop_done s ci c 0 n s1" by simp
  then obtain c1 where c1: "get_client s1 ci = Some c1" "cl_used c1" "server_inv s1" by (auto simp: loop_done_def)
  have "broker_at ci n s1 = broker_of s'"
  proof (cases "n = 0")
    case True
    with l(1) s'(1) show ?thesis using broker_at_0 [OF c1(1)] by (simp add: process_requests_def)
  next
    case False
    let ?m = "cl_input_len c1 - n"
    let ?b = "take ?m (drop n (cl_input c1)) @ drop ?m (cl_input c1)"
    let ?c = "c1\<lparr>cl_input := ?b, cl_input_len := ?m\<rparr>"
    note d = client_okD [OF get_client_ok [OF c1(3,1)] c1(2)]
    have "length (take ?m (drop n (cl_input c1))) = ?m" "?m \<le> length (cl_input c1)" using d by simp_all
    then have "memcpy (cl_input c1) 0 (take ?m (drop n (cl_input c1))) = Some ?b" by (simp only: memcpy_def) simp
    then have e: "s' = put_client s1 ci ?c"
      using s'(1) l(1) c1(1) False by (simp add: process_requests_def Let_def)
    have g: "get_client s' ci = Some ?c" unfolding e by (rule get_put [OF c1(1)])
    have "inbox ?c = take ?m (drop n (cl_input c1))" using d by (simp add: inbox_def)
    also have "\<dots> = drop n (inbox c1)" by (simp add: inbox_def drop_take)
    finally have inb: "inbox ?c = drop n (inbox c1)" .
    have "broker_of s' = set_inbox ci (inbox ?c) (broker_of s')"
      using broker_at_0 [OF g] by (simp add: broker_at_client [OF g])
    also have "\<dots> = set_inbox ci (inbox ?c) (broker_of s1)" unfolding e by (rule put_inbox [OF c1(1)])
    finally show ?thesis unfolding inb by (simp add: broker_at_client [OF c1(1)])
  qed
  with s' l(2) show thesis by (intro that) simp_all
qed

end
