(* ===== verification/Kessel_Broker_Loop.thy ===== *)
theory Kessel_Broker_Loop
  imports Kessel_Broker_Requests Kessel_Event_Loop_Correct
begin

text \<open>
  The rounds of the event loop refine those of the broker: reading, writing, closing, accepting
  and reaping. What a round shows to the outside, the descriptors closed and the bytes sent, in
  order, is the same.
\<close>

section \<open>Reading\<close>

lemma put_used_broker:
  assumes "get_client s ci = Some c" "cl_used c" "cl_used c'" "cl_fd c' = cl_fd c" "cl_id c' = cl_id c"
  shows "broker_of (put_client s ci c') = on_peer ci (\<lambda>p. p\<lparr>pr_closing := cl_close_after_write c',
    pr_dropped := cl_drop_connection c', pr_inbox := inbox c', pr_outbox := outbox c'\<rparr>) (broker_of s)"
  by (rule broker_put [OF assms(1)]) (use assms(2-) in \<open>simp add: peer_of_used\<close>)

lemma peer_at_used: "get_client s ci = Some c \<Longrightarrow> cl_used c \<Longrightarrow> peer_at (broker_of s) ci = peer_of c"
  by (simp add: peer_at_of)

text \<open>An error line, after which the connection ends.\<close>

lemma give_up_broker:
  assumes c: "get_client s ci = Some c" "cl_used c" and q: "queued c tx c'"
  shows "broker_of (put_client s ci (c'\<lparr>cl_input_len := 0, cl_close_after_write := True\<rparr>)) = give_up ci tx (broker_of s)"
proof -
  note d = queuedD [OF q]
  let ?c = "c'\<lparr>cl_input_len := 0, cl_close_after_write := True\<rparr>"
  have "outbox ?c = outbox c @ tx" "inbox ?c = []" using d by (simp_all add: outbox_def pending_def inbox_def)
  then have "map_option ((\<lambda>p. p\<lparr>pr_closing := True, pr_inbox := []\<rparr>) \<circ> (\<lambda>p. p\<lparr>pr_outbox := pr_outbox p @ tx\<rparr>)) (peer_of c) = peer_of ?c"
    using d c(2) by (simp add: peer_of_used)
  from broker_put [OF c(1) this] show ?thesis by (simp add: give_up_def say_def on_peer_twice)
qed

lemma read_client_refines:
  assumes "server_inv s" "get_client s ci = Some c" "cl_used c" "env_ok env" "settles os"
  shows "\<exists>r s' os'. read_client env cfg ci s os = Some (r, s', os') \<and>
    broker_read env cfg ci (broker_of s) os = Some (r \<noteq> 0, broker_of s') \<and> server_inv s' \<and> same_clients s s'"
  using assms
proof (induction "recv_size os" arbitrary: s c os rule: less_induct)
  case less
  note ok = get_client_ok [OF less.prems(1,2)]
  note d = client_okD [OF ok less.prems(3)]
  note g = less.prems(2)
  note peer = peer_at_used [OF g less.prems(3), unfolded peer_of_used [OF less.prems(3)]]
  note len = pending_outbox [OF ok less.prems(3)] inbox_length [OF ok less.prems(3)]
  have known: "server_inv s' \<and> same_clients s s'" if "read_client env cfg ci s os = Some (r, s', os')" for r s' os'
    using read_client_spec [OF less.prems, of cfg] that by auto
  have "\<exists>r s' os'. read_client env cfg ci s os = Some (r, s', os') \<and>
    broker_read env cfg ci (broker_of s) os = Some (r \<noteq> 0, broker_of s')"
  proof (cases "KS_OUTPUT_HIGH_WATER \<le> pending c")
    case True
    with g peer len show ?thesis
      by (subst read_client.simps, subst broker_read.simps) simp
  next
    case False
    then have low: "pending c < KS_OUTPUT_HIGH_WATER" by simp
    note qe = queue_error_spec [OF ok less.prems(3) low]
    show ?thesis
    proof (cases "cl_input_len c = KS_INPUT_CAP")
      case True
      from qe [of "''request too large''"] obtain c' where
        q: "queue_error c ''request too large'' = Some (0, c')" "queued c (error_text ''request too large'') c'"
        by (auto simp: error_text_def)
      from give_up_broker [OF g less.prems(3) q(2)] q(1) True low g peer len show ?thesis
        by (subst read_client.simps, subst broker_read.simps) simp
    next
      case room: False
      let ?n = "KS_INPUT_CAP - cl_input_len c"
      have n: "0 < ?n" using room d by simp
      from recv_settles [OF less.prems(5) n] obtain st data os' where
        rv: "recv_loop ?n os = Some (st, data, os')" "length data \<le> ?n" "data \<noteq> [] \<longleftrightarrow> st = KS_IO_OK"
          "st = KS_IO_OK \<Longrightarrow> settles os' \<and> recv_size os' < recv_size os" by blast
      have recv: "ks_recv os ?n = Some (st, data, os')" using rv(1) n by (simp add: ks_recv_def)
      let ?b = "take (cl_input_len c) (cl_input c) @ data @ drop (cl_input_len c + length data) (cl_input c)"
      have copy: "memcpy (cl_input c) (cl_input_len c) data = Some ?b" using rv(2) d by (simp add: memcpy_def)
      note unf = read_client.simps [of env cfg ci s os] broker_read.simps [of env cfg ci "broker_of s" os]
      show ?thesis
      proof (cases st)
        case KS_IO_ERROR
        with g low room recv copy peer len show ?thesis unfolding unf by simp
      next
        case KS_IO_WOULD_BLOCK
        with g low room recv copy peer len show ?thesis unfolding unf by simp
      next
        case KS_IO_CLOSED
        let ?tx = "if inbox c = [] then [] else error_text ''incomplete command''"
        obtain c' where q: "(if cl_input_len c \<noteq> 0 then queue_error c ''incomplete command'' else Some (0, c)) = Some (0, c')"
          "queued c ?tx c'"
        proof (cases "cl_input_len c = 0")
          case True
          with that [of c] ok len show thesis by (simp add: queued_def)
        next
          case False
          with len(2) have "inbox c \<noteq> []" by auto
          with that qe [of "''incomplete command''"] False show thesis by (auto simp: error_text_def)
        qed
        from give_up_broker [OF g less.prems(3) q(2)] q(1) KS_IO_CLOSED g low room recv copy peer len show ?thesis
          unfolding unf by simp
      next
        case KS_IO_OK
        let ?c = "c\<lparr>cl_input := ?b, cl_input_len := cl_input_len c + length data\<rparr>"
        let ?s = "put_client s ci ?c"
        have "client_ok ?c" using ok d rv(2) less.prems(3) by (auto simp: client_ok_def)
        then have s1: "server_inv ?s" by (intro server_inv_put [OF less.prems(1) g]) simp_all
        have inb: "inbox ?c = inbox c @ data" using d rv(2) by (simp add: inbox_def)
        have out: "outbox ?c = outbox c" by (simp add: outbox_def pending_def)
        have b1: "broker_of ?s = set_inbox ci (inbox c @ data) (broker_of s)"
          unfolding set_inbox_def by (rule broker_put [OF g]) (use less.prems(3) in \<open>simp add: peer_of_used inb out\<close>)
        obtain s2 where p: "process_requests env cfg ?s ci = Some (0, s2)"
          "broker_requests env cfg ci (broker_of ?s) = Some (broker_of s2)" "requests_done ?s ci ?c s2"
          by (rule process_requests_refines [OF s1 get_put [OF g] _ less.prems(4)]) (use less.prems(3) in simp)
        then obtain c2 where c2: "server_inv s2" "get_client s2 ci = Some c2" "cl_used c2"
          by (auto simp: requests_done_def)
        note peer2 = peer_at_used [OF c2(2,3), unfolded peer_of_used [OF c2(3)]]
        have "read_client env cfg ci s os = (if cl_close_after_write c2 then Some (0, s2, os') else read_client env cfg ci s2 os')"
          using KS_IO_OK g low room recv copy p(1) c2(2) unfolding unf(1) by simp
        moreover have "broker_read env cfg ci (broker_of s) os =
            (if cl_close_after_write c2 then Some (False, broker_of s2) else broker_read env cfg ci (broker_of s2) os')"
          using KS_IO_OK peer len low room recv p(2) [unfolded b1] peer2 unfolding unf(2) by simp
        moreover have "\<exists>r s' os''. read_client env cfg ci s2 os' = Some (r, s', os'') \<and>
            broker_read env cfg ci (broker_of s2) os' = Some (r \<noteq> 0, broker_of s')"
          using less.hyps [OF _ c2 less.prems(4)] rv(4) KS_IO_OK by blast
        ultimately show ?thesis by auto
      qed
    qed
  qed
  with known show ?case by blast
qed

section \<open>Writing\<close>

lemma write_loop_push:
  assumes "client_ok c" "cl_used c" "settles os"
  shows "\<exists>r c' sent os'. write_loop c os out = Some (r, c', out @ sent, os') \<and>
    push (outbox c) os = Some (r = Some (- 1), outbox c', sent)"
  using assms
proof (induction "length os" arbitrary: c os out rule: less_induct)
  case less
  note d = client_okD [OF less.prems(1,2)]
  show ?case
  proof (cases "cl_output_offset c < cl_output_len c")
    case False
    then have "outbox c = []" using d(4) by (simp add: outbox_def pending_def)
    with False show ?thesis by (subst write_loop.simps, subst push.simps) simp
  next
    case True
    then have p: "0 < pending c" by (simp add: pending_def)
    with d(7) have ne: "outbox c \<noteq> []" by auto
    from send_settles [OF less.prems(3), of "pending c"] obtain st n os' where
      s: "send_loop (pending c) os = Some (st, n, os')" "n \<le> pending c" "n \<noteq> 0 \<longleftrightarrow> st = KS_IO_OK"
        "st = KS_IO_OK \<Longrightarrow> settles os' \<and> length os' < length os" by blast
    have send: "ks_send os (pending c) = Some (st, n, os')" using s(1) p by (simp add: ks_send_def)
    show ?thesis
    proof (cases "st = KS_IO_OK")
      case ok: True
      let ?c = "c\<lparr>cl_output_offset := cl_output_offset c + n\<rparr>"
      let ?out = "take n (drop (cl_output_offset c) (cl_output c))"
      note adv = outbox_advance [OF less.prems(1,2) s(2)]
      have "length ?out = n" using d s(2) by (simp add: pending_def)
      with adv(1) have split: "take n (outbox c) = ?out" "drop n (outbox c) = outbox ?c" by simp_all
      have step: "write_loop c os out = write_loop ?c os' (out @ ?out)"
        using True send ok by (subst write_loop.simps) simp
      have "cl_used ?c" "length os' < length os" "settles os'" using less.prems(2) s(4) ok by auto
      from less.hyps [OF this(2) adv(2) this(1,3), of "out @ ?out"] obtain r c' sent os'' where
        w: "write_loop ?c os' (out @ ?out) = Some (r, c', (out @ ?out) @ sent, os'')"
          "push (outbox ?c) os' = Some (r = Some (- 1), outbox c', sent)" by blast
      have "push (outbox c) os = Some (r = Some (- 1), outbox c', ?out @ sent)"
        using ne send d(7) ok w(2) by (subst push.simps) (simp add: split)
      with step w(1) show ?thesis by auto
    next
      case False
      then have "st = KS_IO_WOULD_BLOCK \<or> st = KS_IO_CLOSED \<or> st = KS_IO_ERROR" by (cases st) auto
      then show ?thesis
        using True send ne d(7) by (subst write_loop.simps, subst push.simps) auto
    qed
  qed
qed

lemma write_client_refines:
  assumes s: "server_inv s" and c: "get_client s ci = Some c" "cl_used c" and os: "settles os"
  obtains r c' sent os' where "write_client c os = Some (r, c', sent, os')"
    "broker_write ci os (broker_of s) = Some (r \<noteq> 0, broker_of (put_client s ci c'), sent)"
    "server_inv (put_client s ci c')" "same_clients s (put_client s ci c')" "cl_used c'"
proof -
  note ok = get_client_ok [OF s c(1)]
  note peer = peer_at_used [OF c, unfolded peer_of_used [OF c(2)]]
  from write_loop_push [OF ok c(2) os, of "[]"] obtain r c1 sent os' where
    w: "write_loop c os [] = Some (r, c1, sent, os')" "push (outbox c) os = Some (r = Some (- 1), outbox c1, sent)" by auto
  from write_loop_spec [OF ok c(2) os, of "[]"] obtain r1 c2 out os1 x where
    l: "write_loop c os [] = Some (r1, c2, out, os1)" "r1 = None \<longrightarrow> outbox c2 = []"
      "\<forall>n. r1 = Some n \<longrightarrow> n \<in> {0, - 1} \<and> outbox c2 \<noteq> []" "c2 = c\<lparr>cl_output_offset := x\<rparr>"
    unfolding append_Nil by blast
  have same: "r1 = r" "c2 = c1" using w(1) l(1) by simp_all
  have x: "c1 = c\<lparr>cl_output_offset := x\<rparr>" using l(4) unfolding same .
  have k: "r = None \<Longrightarrow> outbox c1 = []" "\<And>n. r = Some n \<Longrightarrow> n \<in> {0, - 1} \<and> outbox c1 \<noteq> []"
    using l(2,3) unfolding same by simp_all
  obtain q c' where f: "write_client c os = Some (q, c', sent, os')" and q: "q \<noteq> 0 \<longleftrightarrow> r = Some (- 1) \<or> outbox c1 = [] \<and> cl_close_after_write c"
    and c': "outbox c' = outbox c1" "\<exists>y z. c' = c\<lparr>cl_output_offset := y, cl_output_len := z\<rparr>"
  proof (cases r)
    case None
    let ?c = "c1\<lparr>cl_output_offset := 0, cl_output_len := 0\<rparr>"
    show thesis
      by (rule that [of "if cl_close_after_write c then - 1 else 0" ?c])
        (use w(1) None k(1) in \<open>auto simp: write_client_def x outbox_def pending_def\<close>)
  next
    case (Some n)
    show thesis
    proof (rule that [of n c1])
      show "write_client c os = Some (n, c1, sent, os')" using w(1) Some by (simp add: write_client_def)
      show "n \<noteq> 0 \<longleftrightarrow> r = Some (- 1) \<or> outbox c1 = [] \<and> cl_close_after_write c" using k(2) Some by auto
      show "\<exists>y z. c1 = c\<lparr>cl_output_offset := y, cl_output_len := z\<rparr>" by (intro exI [of _ x] exI [of _ "cl_output_len c"]) (simp add: x)
    qed simp
  qed
  obtain r2 c2 out2 os2 where "write_client c os = Some (r2, c2, out2, os2)" "client_ok c2"
    by (rule write_client_spec [OF ok c(2) os]) (rule that)
  with f have ok': "client_ok c'" by simp
  from c'(2) obtain y z where yz: "c' = c\<lparr>cl_output_offset := y, cl_output_len := z\<rparr>" by blast
  have "map_option (\<lambda>p. p\<lparr>pr_outbox := outbox c'\<rparr>) (peer_of c) = peer_of c'"
    unfolding peer_of_def by (simp add: yz inbox_def)
  note b = broker_put [OF c(1) this]
  have "broker_write ci os (broker_of s) = Some (q \<noteq> 0, broker_of (put_client s ci c'), sent)"
    using peer w(2) q c'(1) b by (simp add: broker_write_def)
  moreover have "server_inv (put_client s ci c')" "same_clients s (put_client s ci c')" "cl_used c'"
    using ok' c(2) by (auto intro!: server_inv_put [OF s c(1)] same_clients_put [OF c(1)] simp: yz)
  ultimately show thesis using f by (intro that)
qed

section \<open>Serving the clients\<close>

lemma disconnect_refines:
  assumes s: "server_inv s" and c: "get_client s ci = Some c" "cl_used c"
  obtains s' where "disconnect s ci = Some (s', [cl_fd c])" "broker_of s' = depart ci (broker_of s)"
proof -
  note d = server_invD [OF s]
  from remove_client_spec [OF d(6), of "cl_id c"] obtain p ev m where
    p: "ks_pubsub_remove_client (Some (sv_pubsub s)) (cl_id c) = (m, Some p, ev)"
      "ps_members p = {q \<in> ps_members (sv_pubsub s). snd q \<noteq> cl_id c}" by blast
  let ?n = "mt_connected_clients (sv_metrics s)"
  let ?s = "(put_client s ci zero_client)\<lparr>sv_metrics := (sv_metrics s)\<lparr>mt_connected_clients := if ?n > 0 then ?n - 1 else ?n\<rparr>,
    sv_pubsub := p\<rparr>"
  have "disconnect s ci = Some (?s, [cl_fd c])"
    using c p(1) by (simp add: disconnect_def client_reset_def Let_def)
  moreover have "broker_of ?s = depart ci (broker_of s)"
    unfolding depart_def peer_at_used [OF c] peer_of_used [OF c(2)]
    by (simp add: broker_of_def p(2) map_update) (simp add: peer_of_def zero_client_def)
  ultimately show thesis by (rule that)
qed

lemma stage_read_refines:
  assumes te: "te_ok te" and s: "server_inv s" and c: "get_client s ci = Some c" "cl_used c"
  obtains b s' c' where "stage_read te cfg fds ci s = Some (cl_drop_connection c \<or> b, s')"
    "(if cl_fd c \<in> set fds then broker_read (te_commands te) cfg ci (broker_of s) (te_recv te ci)
      else Some (False, broker_of s)) = Some (b, broker_of s')"
    "server_inv s'" "get_client s' ci = Some c'" "cl_used c'" "cl_fd c' = cl_fd c"
proof -
  have t: "settles (te_recv te ci)" "env_ok (te_commands te)" using te by (simp_all add: te_ok_def)
  from read_client_refines [OF s c t(2,1), of cfg] obtain r s' os' where
    r: "read_client (te_commands te) cfg ci s (te_recv te ci) = Some (r, s', os')"
      "broker_read (te_commands te) cfg ci (broker_of s) (te_recv te ci) = Some (r \<noteq> 0, broker_of s')"
      "server_inv s'" "same_clients s s'" by blast
  obtain c' where c': "get_client s' ci = Some c'" "cl_used c' = cl_used c" "cl_fd c' = cl_fd c"
    by (rule same_clients_get [OF r(4) c(1)])
  show thesis
  proof (cases "cl_fd c \<in> set fds")
    case True
    with r c c' show thesis by (intro that [of "r \<noteq> 0" s' c']) (simp_all add: stage_read_def)
  next
    case False
    with s c show thesis by (intro that [of False s c]) (simp_all add: stage_read_def)
  qed
qed

lemma stage_write_refines:
  assumes te: "te_ok te" and s: "server_inv s" and c: "get_client s ci = Some c" "cl_used c"
  obtains b' s' c' out where "stage_write te fds ci b s = Some (b', s', out)"
    "(if \<not> b \<and> cl_fd c \<in> set fds then broker_write ci (te_send te ci) (broker_of s)
      else Some (b, broker_of s, [])) = Some (b', broker_of s', out)"
    "server_inv s'" "get_client s' ci = Some c'" "cl_used c'" "cl_fd c' = cl_fd c"
proof (rule write_client_refines [OF s c, of "te_send te ci"])
  show "settles (te_send te ci)" using te by (simp add: te_ok_def)
  fix r c' sent os'
  assume w: "write_client c (te_send te ci) = Some (r, c', sent, os')"
    "broker_write ci (te_send te ci) (broker_of s) = Some (r \<noteq> 0, broker_of (put_client s ci c'), sent)"
    "server_inv (put_client s ci c')" "same_clients s (put_client s ci c')" "cl_used c'"
  have "cl_fd c' = cl_fd c"
    by (rule same_clients_get [OF w(4) c(1)]) (simp add: get_put [OF c(1)])
  show thesis
  proof (cases "\<not> b \<and> cl_fd c \<in> set fds")
    case True
    with w c get_put [OF c(1)] \<open>cl_fd c' = cl_fd c\<close> show thesis
      by (intro that [of "r \<noteq> 0" "put_client s ci c'" sent c']) (simp_all add: stage_write_def)
  next
    case False
    with s c show thesis by (intro that [of b s "[]" c]) (auto simp: stage_write_def)
  qed
qed

lemma stage_requests_refines:
  assumes te: "te_ok te" and s: "server_inv s" and c: "get_client s ci = Some c" "cl_used c"
  obtains s' c' where "stage_requests te cfg ci b s = Some (b, s')"
    "(if b then Some (broker_of s) else broker_requests (te_commands te) cfg ci (broker_of s)) = Some (broker_of s')"
    "server_inv s'" "get_client s' ci = Some c'" "cl_used c'" "cl_fd c' = cl_fd c"
proof -
  have t: "env_ok (te_commands te)" using te by (simp add: te_ok_def)
  note len = pending_outbox [OF get_client_ok [OF s c(1)] c(2)] inbox_length [OF get_client_ok [OF s c(1)] c(2)]
  note peer = peer_at_used [OF c, unfolded peer_of_used [OF c(2)]]
  consider "b" | "\<not> b" "cl_input_len c > 0 \<and> pending c < KS_OUTPUT_HIGH_WATER"
    | "\<not> b" "\<not> (cl_input_len c > 0 \<and> pending c < KS_OUTPUT_HIGH_WATER)" by blast
  then show thesis
  proof cases
    case 1
    with s c show thesis by (intro that [of s c]) (simp_all add: stage_requests_def)
  next
    case 2
    obtain s' where "process_requests (te_commands te) cfg s ci = Some (0, s')"
      "broker_requests (te_commands te) cfg ci (broker_of s) = Some (broker_of s')" "requests_done s ci c s'"
      by (rule process_requests_refines [OF s c t])
    moreover from this(3) obtain c' where "server_inv s'" "get_client s' ci = Some c'" "cl_used c'" "same_clients s s'"
      by (auto simp: requests_done_def)
    moreover from this have "cl_fd c' = cl_fd c" by (auto elim: same_clients_get [OF _ c(1)])
    ultimately show thesis using 2 c by (intro that [of s' c']) (simp_all add: stage_requests_def)
  next
    case 3
    then have "KS_OUTPUT_HIGH_WATER \<le> length (outbox c) \<or> inbox c = []" using len by auto
    then have "broker_requests (te_commands te) cfg ci (broker_of s) = Some (broker_of s)"
      by (intro broker_requests_stop [OF peer]) auto
    with 3 s c show thesis by (intro that [of s c]) (auto simp: stage_requests_def)
  qed
qed

lemma stage_close_refines:
  fixes b
  assumes s: "server_inv s" and c: "get_client s ci = Some c" "cl_used c"
  defines "gone \<equiv> b \<or> cl_close_after_write c \<and> outbox c = []"
  obtains s' where "stage_close ci b s = Some (s', if gone then [cl_fd c] else [])"
    "broker_of s' = (if gone then depart ci (broker_of s) else broker_of s)"
proof -
  note d = client_okD [OF get_client_ok [OF s c(1)] c(2)]
  have "outbox c = [] \<longleftrightarrow> cl_output_len c = cl_output_offset c"
    using d(4,7) by (auto simp: pending_def dest: arg_cong [of _ _ length])
  then have g: "(b \<or> cl_close_after_write c \<and> cl_output_len c = cl_output_offset c) = gone" by (simp add: gone_def)
  show thesis
  proof (cases gone)
    case True
    obtain s' where "disconnect s ci = Some (s', [cl_fd c])" "broker_of s' = depart ci (broker_of s)"
      by (rule disconnect_refines [OF s c])
    with True c g show thesis by (intro that [of s']) (simp_all add: stage_close_def)
  next
    case False
    with c g show thesis by (intro that [of s]) (auto simp: stage_close_def)
  qed
qed

lemma serve_client_refines:
  assumes te: "te_ok te" and s: "server_inv s" and ci: "ci < length (sv_clients s)"
  shows "\<exists>s' closed sent. serve_client te cfg rfds wfds ci s = Some (s', closed, sent) \<and>
    broker_serve te cfg rfds wfds ci (broker_of s) = Some (broker_of s', closed, sent)"
proof -
  obtain c where c: "get_client s ci = Some c" using ci by (simp add: get_client_def)
  show ?thesis
  proof (cases "cl_used c")
    case False
    with c ci show ?thesis by (simp add: serve_client_def broker_serve_def peer_at_of peer_of_def)
  next
    case used: True
    note peer = peer_at_used [OF c used, unfolded peer_of_used [OF used]]
    obtain b1 s1 c1 where 1: "stage_read te cfg rfds ci s = Some (cl_drop_connection c \<or> b1, s1)"
      "(if cl_fd c \<in> set rfds then broker_read (te_commands te) cfg ci (broker_of s) (te_recv te ci)
        else Some (False, broker_of s)) = Some (b1, broker_of s1)"
      "server_inv s1" "get_client s1 ci = Some c1" "cl_used c1" "cl_fd c1 = cl_fd c"
      by (rule stage_read_refines [OF te s c used])
    obtain b2 s2 c2 out where 2: "stage_write te wfds ci (cl_drop_connection c \<or> b1) s1 = Some (b2, s2, out)"
      "(if \<not> (cl_drop_connection c \<or> b1) \<and> cl_fd c1 \<in> set wfds then broker_write ci (te_send te ci) (broker_of s1)
        else Some (cl_drop_connection c \<or> b1, broker_of s1, [])) = Some (b2, broker_of s2, out)"
      "server_inv s2" "get_client s2 ci = Some c2" "cl_used c2" "cl_fd c2 = cl_fd c1"
      by (rule stage_write_refines [OF te 1(3-5)])
    obtain s3 c3 where 3: "stage_requests te cfg ci b2 s2 = Some (b2, s3)"
      "(if b2 then Some (broker_of s2) else broker_requests (te_commands te) cfg ci (broker_of s2)) = Some (broker_of s3)"
      "server_inv s3" "get_client s3 ci = Some c3" "cl_used c3" "cl_fd c3 = cl_fd c2"
      by (rule stage_requests_refines [OF te 2(3-5)])
    note peer3 = peer_at_used [OF 3(4,5), unfolded peer_of_used [OF 3(5)]]
    let ?gone = "b2 \<or> cl_close_after_write c3 \<and> outbox c3 = []"
    obtain s4 where 4: "stage_close ci b2 s3 = Some (s4, if ?gone then [cl_fd c3] else [])"
      "broker_of s4 = (if ?gone then depart ci (broker_of s3) else broker_of s3)"
      by (rule stage_close_refines [OF 3(3-5)])
    have fd: "cl_fd c3 = cl_fd c" using 1(6) 2(6) 3(6) by simp
    have "serve_client te cfg rfds wfds ci s =
      Some (s4, if ?gone then [cl_fd c] else [], if out = [] then [] else [(cl_fd c, out)])"
      using c used 1(1) 2(1) 3(1) 4(1) by (simp add: serve_client_def fd)
    moreover have "broker_serve te cfg rfds wfds ci (broker_of s) =
      Some (broker_of s4, if ?gone then [cl_fd c] else [], if out = [] then [] else [(cl_fd c, out)])"
      unfolding broker_serve_def peer using 1(2,6) 2(2) 3(2) 4(2) peer3 by (simp add: Let_def)
    ultimately show ?thesis by blast
  qed
qed

lemma serve_all_refines:
  assumes te: "te_ok te" and s: "srv_ok k s" and ci: "\<forall>ci \<in> set cis. ci < length (sv_clients s)"
  shows "\<exists>s' closed sent. serve_all te cfg rfds wfds cis s = Some (s', closed, sent) \<and>
    broker_serve_all te cfg rfds wfds cis (broker_of s) = Some (broker_of s', closed, sent)"
  using s ci
proof (induction cis arbitrary: s)
  case (Cons ci cis)
  have ci: "ci < length (sv_clients s)" and inv: "server_inv s" using Cons.prems by (simp_all add: srv_ok_def)
  from serve_client_refines [OF te inv ci, of cfg rfds wfds] obtain s1 cl sent where
    1: "serve_client te cfg rfds wfds ci s = Some (s1, cl, sent)"
      "broker_serve te cfg rfds wfds ci (broker_of s) = Some (broker_of s1, cl, sent)" by blast
  with serve_client_spec [OF te Cons.prems(1) ci, of cfg rfds wfds]
  have "srv_ok k s1" "length (sv_clients s1) = length (sv_clients s)" by (auto simp: served_def)
  with Cons.IH [of s1] Cons.prems(2) 1 show ?case by auto
qed simp

section \<open>Accepting\<close>

lemma peer_of_none: "peer_of c \<noteq> None \<longleftrightarrow> cl_used c"
  by (simp add: peer_of_def)

lemma free_slot_peers: "length (takeWhile (\<lambda>q. q \<noteq> None) (map peer_of cs)) = free_slot cs"
  by (induction cs) (auto simp: peer_of_none peer_of_def)

lemma admit_refines:
  assumes "admit al s fd = (s', closed)"
  shows "broker_admit al (broker_of s) fd = (broker_of s', closed)"
proof -
  let ?i = "free_slot (sv_clients s)"
  let ?c = "zero_client\<lparr>cl_used := True, cl_fd := fd, cl_id := sv_next_client_id s,
    cl_input := fresh (Suc KS_INPUT_CAP), cl_output := fresh KS_OUTPUT_CAP\<rparr>"
  have i: "length (takeWhile (\<lambda>q. q \<noteq> None) (bk_peers (broker_of s))) = ?i" by (simp only: broker_of_simps free_slot_peers)
  have p: "peer_of ?c = Some \<lparr>pr_fd = fd, pr_id = sv_next_client_id s, pr_closing = False, pr_dropped = False,
      pr_inbox = [], pr_outbox = []\<rparr>"
    by (simp add: peer_of_def inbox_def outbox_def pending_def zero_client_def)
  consider "?i = length (sv_clients s) \<or> int FD_SETSIZE \<le> fd"
    | "\<not> (?i = length (sv_clients s) \<or> int FD_SETSIZE \<le> fd)"
      "c_malloc al Site_client_input (KS_INPUT_CAP + 1) \<and> c_malloc al Site_client_output KS_OUTPUT_CAP"
    | "\<not> (?i = length (sv_clients s) \<or> int FD_SETSIZE \<le> fd)"
      "\<not> (c_malloc al Site_client_input (KS_INPUT_CAP + 1) \<and> c_malloc al Site_client_output KS_OUTPUT_CAP)" by blast
  then show ?thesis
  proof cases
    case 1
    then have "s' = reject_connection s" "closed = [fd]" using assms by (auto simp: admit_def Let_def)
    moreover have "broker_of (reject_connection s) = broker_of s\<lparr>bk_rejected := bk_rejected (broker_of s) + 1\<rparr>"
      by (simp add: broker_of_def reject_connection_def)
    ultimately show ?thesis using 1 unfolding broker_admit_def i by (auto simp: Let_def)
  next
    case 2
    let ?m = "sv_metrics s"
    have "s' = (put_client (s\<lparr>sv_next_client_id := next_id (sv_next_client_id s)\<rparr>) ?i ?c)\<lparr>sv_metrics := ?m\<lparr>
        mt_connected_clients := mt_connected_clients ?m + 1, mt_total_connections := mt_total_connections ?m + 1\<rparr>\<rparr>"
      "closed = []" using 2 assms by (auto simp: admit_def Let_def client_init_def)
    moreover from this have "broker_of s' = broker_of s\<lparr>bk_peers := (bk_peers (broker_of s))[?i := peer_of ?c],
        bk_accepted := bk_accepted (broker_of s) + 1, bk_next_id := next_id (sv_next_client_id s)\<rparr>"
      by (simp add: broker_of_def map_update)
    ultimately show ?thesis using 2 unfolding broker_admit_def i by (simp add: Let_def p)
  next
    case 3
    have "s' = reject_connection (s\<lparr>sv_next_client_id := next_id (sv_next_client_id s)\<rparr>)" "closed = [fd]"
      using 3 assms by (auto simp: admit_def Let_def client_init_def)
    moreover from this have "broker_of s' = broker_of s\<lparr>bk_rejected := bk_rejected (broker_of s) + 1,
        bk_next_id := next_id (sv_next_client_id s)\<rparr>"
      by (simp add: broker_of_def reject_connection_def)
    ultimately show ?thesis using 3 unfolding broker_admit_def i by (simp add: Let_def)
  qed
qed

lemma accept_loop_refines:
  "broker_accept stop al n (broker_of s) os =
     map_option (\<lambda>(r, s', closed). (r \<noteq> 0, broker_of s', closed)) (accept_loop stop al n s os)"
proof (induction n arbitrary: s os)
  case (Suc n)
  show ?case
  proof (cases "stop n \<or> ks_accept os = None")
    case True
    then show ?thesis by auto
  next
    case False
    then obtain fd closed os' where a: "ks_accept os = Some (fd, closed, os')" by auto
    obtain s1 cl where ad: "admit (al n) s fd = (s1, cl)" by (rule prod.exhaust)
    show ?thesis
      using False a ad admit_refines [OF ad] Suc.IH [of s1 os']
      by (cases "accept_loop stop al n s1 os'")
        (auto simp: KS_NET_ACCEPT_ERROR_def KS_NET_ACCEPT_WOULD_BLOCK_def)
  qed
qed simp

section \<open>A round\<close>

lemma polled_clients:
  assumes "\<forall>c \<in> set (sv_clients s). client_ok c"
  shows "map pr_fd (filter awaits_input (present (broker_of s))) = map cl_fd (filter wants_read (sv_clients s))"
    "map pr_fd (filter awaits_output (present (broker_of s))) = map cl_fd (filter wants_write (sv_clients s))"
proof -
  have w: "outbox c \<noteq> [] \<longleftrightarrow> cl_output_offset c < cl_output_len c" if "client_ok c" "cl_used c" for c
    using client_okD(4,7) [OF that] unfolding pending_def length_greater_0_conv [symmetric] by simp
  have "map pr_fd (filter awaits_input (map (\<lambda>c. the (peer_of c)) (filter cl_used cs))) = map cl_fd (filter wants_read cs) \<and>
      map pr_fd (filter awaits_output (map (\<lambda>c. the (peer_of c)) (filter cl_used cs))) = map cl_fd (filter wants_write cs)"
    if "\<forall>c \<in> set cs. client_ok c" for cs
    using that by (induction cs)
      (auto simp: peer_of_used awaits_input_def awaits_output_def wants_read_def wants_write_def w pending_outbox)
  from this [OF assms] show
    "map pr_fd (filter awaits_input (present (broker_of s))) = map cl_fd (filter wants_read (sv_clients s))"
    "map pr_fd (filter awaits_output (present (broker_of s))) = map cl_fd (filter wants_write (sv_clients s))"
    by (simp_all add: present_of)
qed

definition shown :: "tick_result \<Rightarrow> round_output" where
  "shown t = \<lparr>ro_exit = tr_exit t, ro_closed = tr_closed t, ro_sent = tr_sent t\<rparr>"

lemma tick_refines:
  assumes te: "te_ok te" and s: "srv_ok (KS_ACCEPT_BUDGET + k) s"
  shows "\<exists>t. tick te cfg listen_fd backoff s = Some t \<and> srv_ok k (tr_server t) \<and>
    broker_round cfg listen_fd te (backoff, broker_of s) = Some (shown t, tr_backoff t, broker_of (tr_server t))"
proof -
  obtain t fds where t: "tick te cfg listen_fd backoff s = Some t"
    "accounted k s fds (tr_closed t) (tr_server t)" by (rule tick_spec [OF te s, of cfg listen_fd backoff])
  obtain r store where r: "ks_kv_reap (sv_store s) KS_REAPER_BUDGET = Some (r, store)"
    "srv_ok (KS_ACCEPT_BUDGET + k) (s\<lparr>sv_store := store\<rparr>)" by (rule reap_server [OF s])
  let ?s = "s\<lparr>sv_store := store\<rparr>"
  have b: "broker_of s\<lparr>bk_store := store\<rparr> = broker_of ?s" by (simp add: broker_of_def)
  have inv: "server_inv ?s" using r(2) by (simp add: srv_ok_def)
  note polls = polled_clients [OF server_invD(1) [OF inv]]
  have "broker_round cfg listen_fd te (backoff, broker_of s) = Some (shown t, tr_backoff t, broker_of (tr_server t))"
  proof (cases "te_select te")
    case (Inl errno)
    with t(1) r(1) show ?thesis by (auto simp: tick_def broker_round_def shown_def Let_def b)
  next
    case (Inr fds)
    let ?listening = "if backoff = 0 then [listen_fd] else []"
    obtain rfds wfds where sel: "c_select fds (?listening @ map cl_fd (filter wants_read (sv_clients s)))
      (map cl_fd (filter wants_write (sv_clients s))) = (rfds, wfds)" by (rule prod.exhaust)
    have acc: "settles (te_accept te)" "\<forall>fd nb. Inr (fd, nb) \<in> set (te_accept te) \<longrightarrow> 0 \<le> fd"
      using te by (simp_all add: te_ok_def)
    let ?go = "backoff - 1 = 0 \<and> listen_fd \<in> set rfds"
    from accept_stage_spec [OF r(2) acc, of ?go "te_stop te" "te_accept_alloc te"] obtain q s1 cl fds' where
      1: "(if ?go then accept_clients (te_stop te) (te_accept_alloc te) ?s (te_accept te) else Some (0, ?s, [])) = Some (q, s1, cl)"
        "accounted k ?s fds' cl s1" by metis
    then have ok1: "srv_ok k s1" by (simp add: accounted_def)
    have 2: "(if ?go then broker_accept (te_stop te) (te_accept_alloc te) KS_ACCEPT_BUDGET (broker_of ?s) (te_accept te)
        else Some (False, broker_of ?s, [])) = Some (q \<noteq> 0, broker_of s1, cl)"
      using 1(1) by (auto simp: accept_loop_refines accept_clients_def split: if_splits)
    from serve_all_refines [OF te ok1, of "[0..<length (sv_clients s1)]" cfg rfds wfds] obtain s2 cl' sent where
      3: "serve_all te cfg rfds wfds [0..<length (sv_clients s1)] s1 = Some (s2, cl', sent)"
        "broker_serve_all te cfg rfds wfds [0..<length (sv_clients s1)] (broker_of s1) = Some (broker_of s2, cl', sent)" by auto
    have "t = \<lparr>tr_exit = None, tr_server = s2, tr_backoff = if q \<noteq> 0 then 10 else backoff - 1,
        tr_closed = cl @ cl', tr_sent = sent\<rparr>"
      using t(1) r(1) Inr sel 1(1) 3(1) by (cases "q = 0") (simp_all add: tick_def Let_def)
    moreover have "broker_round cfg listen_fd te (backoff, broker_of s) =
        Some (\<lparr>ro_exit = None, ro_closed = cl @ cl', ro_sent = sent\<rparr>, if q \<noteq> 0 then 10 else backoff - 1, broker_of s2)"
    proof -
      define go where "go \<longleftrightarrow> ?go"
      have g: "(backoff \<le> 1 \<and> listen_fd \<in> set rfds) = go" by (auto simp: go_def)
      show ?thesis using r(1) Inr sel 2 [folded go_def] 3(2) polls
        unfolding broker_round_def by (cases go; cases "q = 0") (simp_all add: Let_def b g [simplified])
    qed
    ultimately show ?thesis by (simp add: shown_def)
  qed
  with t show ?thesis by (auto simp: accounted_def)
qed

end
