(* ===== verification/Kessel_Broker_Run.thy ===== *)
theory Kessel_Broker_Run
  imports Kessel_Broker_Loop Kessel_Server_Correct
begin

text \<open>
  Whole runs. A locale states when one system with outputs refines another: each step of the
  first is the step of the second on the abstracted states, with the same output. Then the outputs
  of whole runs agree. The event loop of the server and the rounds of the broker are an instance,
  so what \<open>ks_server_run\<close> sends and returns is what the broker prescribes.
\<close>

section \<open>Refinement of systems\<close>

text \<open>A run over a list of events, which ends early with a final output.\<close>

fun rounds :: "('e \<Rightarrow> 's \<Rightarrow> ('o \<times> 's) option) \<Rightarrow> ('o \<Rightarrow> bool) \<Rightarrow> 'e list \<Rightarrow> 's \<Rightarrow> ('o list \<times> 's) option" where
  "rounds step final [] s = Some ([], s)"
| "rounds step final (e # es) s = do {
     (out, s) \<leftarrow> step e s;
     if final out then Some ([out], s)
     else do { (outs, s) \<leftarrow> rounds step final es s; Some (out # outs, s) } }"

locale system_refinement =
  fixes step :: "'e \<Rightarrow> 's \<Rightarrow> ('o \<times> 's) option"
    and spec :: "'e \<Rightarrow> 'a \<Rightarrow> ('o \<times> 'a) option"
    and abs :: "'s \<Rightarrow> 'a"
    and allowed :: "'e \<Rightarrow> bool"
    and inv :: "nat \<Rightarrow> 's \<Rightarrow> bool"
    and cost :: nat
  assumes simulates: "inv (cost + k) s \<Longrightarrow> allowed e \<Longrightarrow>
      \<exists>out s'. step e s = Some (out, s') \<and> spec e (abs s) = Some (out, abs s') \<and> inv k s'"
    and inv_less: "inv k s \<Longrightarrow> j \<le> k \<Longrightarrow> inv j s"
begin

lemma rounds_refine:
  assumes "inv (length es * cost) s" "\<forall>e \<in> set es. allowed e"
  shows "\<exists>outs s'. rounds step final es s = Some (outs, s') \<and> rounds spec final es (abs s) = Some (outs, abs s') \<and> inv 0 s'"
  using assms
proof (induction es arbitrary: s)
  case (Cons e es)
  have "inv (cost + length es * cost) s" using Cons.prems(1) by simp
  from simulates [OF this, of e] Cons.prems(2) obtain out s1 where
    1: "step e s = Some (out, s1)" "spec e (abs s) = Some (out, abs s1)" "inv (length es * cost) s1" by auto
  show ?case
  proof (cases "final out")
    case True
    with 1 inv_less [OF 1(3), of 0] show ?thesis by simp
  next
    case False
    from Cons.IH [OF 1(3)] Cons.prems(2) obtain outs s2 where
      "rounds step final es s1 = Some (outs, s2)" "rounds spec final es (abs s1) = Some (outs, abs s2)" "inv 0 s2" by auto
    with 1 False show ?thesis by simp
  qed
qed simp

end

section \<open>The event loop refines the rounds of the broker\<close>

definition server_step :: "ks_config \<Rightarrow> int \<Rightarrow> tick_env \<Rightarrow> nat \<times> ks_server \<Rightarrow> (round_output \<times> nat \<times> ks_server) option" where
  "server_step cfg listen_fd te bs =
     map_option (\<lambda>t. (shown t, tr_backoff t, tr_server t)) (tick te cfg listen_fd (fst bs) (snd bs))"

definition ends :: "round_output \<Rightarrow> bool" where
  "ends out \<longleftrightarrow> ro_exit out \<noteq> None"

interpretation brk: system_refinement "server_step cfg listen_fd" "broker_round cfg listen_fd" "apsnd broker_of" te_ok
  "\<lambda>k bs. srv_ok k (snd bs)" KS_ACCEPT_BUDGET for cfg listen_fd
proof unfold_locales
  fix k and bs :: "nat \<times> ks_server" and te assume a: "srv_ok (KS_ACCEPT_BUDGET + k) (snd bs)" "te_ok te"
  obtain backoff s where bs: "bs = (backoff, s)" by (rule prod.exhaust)
  with tick_refines [OF a(2), of k s cfg listen_fd backoff] a(1) show "\<exists>out s'. server_step cfg listen_fd te bs = Some (out, s') \<and>
      broker_round cfg listen_fd te (apsnd broker_of bs) = Some (out, apsnd broker_of s') \<and> srv_ok k (snd s')"
    by (auto simp: server_step_def)
next
  fix k j and bs :: "nat \<times> ks_server" assume "srv_ok k (snd bs)" "j \<le> k"
  then show "srv_ok j (snd bs)" by (rule srv_ok_less)
qed

text \<open>The result of the loop: that of the round which ended it, 0 if none did.\<close>

definition loop_result :: "round_output list \<Rightarrow> int" where
  "loop_result outs = (if outs = [] then 0 else case ro_exit (last outs) of None \<Rightarrow> 0 | Some r \<Rightarrow> r)"

lemma event_loop_rounds:
  "event_loop cfg listen_fd tes backoff s =
     map_option (\<lambda>(outs, bs). (loop_result outs, snd bs, concat (map ro_closed outs), concat (map ro_sent outs)))
       (rounds (server_step cfg listen_fd) ends tes (backoff, s))"
proof (induction tes arbitrary: backoff s)
  case (Cons te tes)
  show ?case
  proof (cases "tick te cfg listen_fd backoff s")
    case None
    then show ?thesis by (simp add: server_step_def)
  next
    case (Some t)
    then have step: "server_step cfg listen_fd te (backoff, s) = Some (shown t, tr_backoff t, tr_server t)"
      by (simp add: server_step_def)
    have o: "ends (shown t) \<longleftrightarrow> tr_exit t \<noteq> None" "ro_closed (shown t) = tr_closed t" "ro_sent (shown t) = tr_sent t"
      "ro_exit (shown t) = tr_exit t" by (simp_all add: ends_def shown_def)
    show ?thesis
    proof (cases "tr_exit t")
      case None
      have r: "loop_result (shown t # outs) = loop_result outs" for outs
        using None by (simp add: loop_result_def o)
      show ?thesis
        using Some None step Cons.IH [of "tr_backoff t" "tr_server t"]
        by (cases "rounds (server_step cfg listen_fd) ends tes (tr_backoff t, tr_server t)") (auto simp: r o)
    next
      case (Some x)
      with \<open>tick te cfg listen_fd backoff s = Some t\<close> step show ?thesis
        by (simp add: loop_result_def o)
    qed
  qed
qed (simp add: loop_result_def)

text \<open>The broker at the start: nobody is connected.\<close>

definition broker_start :: "ks_config \<Rightarrow> ks_kv \<Rightarrow> int \<Rightarrow> broker" where
  "broker_start cfg st started_at =
     \<lparr>bk_peers = replicate (unat (cfg_max_clients cfg)) None, bk_store = st, bk_subs = {}, bk_commands = 0,
      bk_accepted = 0, bk_rejected = 0, bk_started_at = started_at, bk_next_id = 1\<rparr>"

lemma broker_initial:
  assumes "ks_pubsub_create al = Some pubsub"
  shows "broker_of (initial_server cfg st pubsub started_at) = broker_start cfg st started_at"
proof -
  have "pubsub = \<lparr>ps_channels = [], ps_channel_count = 0, ps_subscription_count = 0\<rparr>"
    using assms by (simp add: ks_pubsub_create_def split: if_splits)
  moreover have "peer_of zero_client = None" by (simp add: peer_of_def zero_client_def)
  ultimately show ?thesis by (simp add: broker_of_def broker_start_def initial_server_def ps_members_def)
qed

text \<open>What a run needs in order to get to the event loop.\<close>

definition starts :: "run_env \<Rightarrow> ks_config \<Rightarrow> int \<Rightarrow> ks_kv \<Rightarrow> bool" where
  "starts re cfg listen_fd st \<longleftrightarrow>
     config_ok cfg \<and> ks_listen (re_listen re) (Some (cfg_host cfg)) = (listen_fd, []) \<and>
     0 \<le> listen_fd \<and> listen_fd < int FD_SETSIZE \<and> ks_kv_init (re_alloc re) (re_clock re) = Some st \<and>
     ks_pubsub_create (re_alloc re) \<noteq> None \<and> c_calloc (re_alloc re) Site_clients (cfg_max_clients cfg) sizeof_ks_client"

lemma present_fds: "map pr_fd (present (broker_of s)) = open_fds (sv_clients s)"
  by (simp add: present_of open_fds_def peer_of_used)

lemma run_refines:
  assumes re: "starts re cfg listen_fd st" and te: "\<forall>te \<in> set (re_ticks re). te_ok te"
    and n: "length (re_ticks re) * KS_ACCEPT_BUDGET \<le> 2 ^ 64 - 2"
    and clk: "monotonic (ks_ttl_system_clock (re_clock re))" and t0: "time_ok (re_started_at re)"
  obtains rr outs kb where "ks_server_run re (Some cfg) = Some rr"
    "rounds (broker_round cfg listen_fd) ends (re_ticks re) (0, broker_start cfg st (re_started_at re)) = Some (outs, kb)"
    "rr_result rr = loop_result outs" "rr_sent rr = concat (map ro_sent outs)"
    "rr_closed rr = concat (map ro_closed outs) @ map pr_fd (present (snd kb)) @ [listen_fd]"
proof -
  from re obtain pubsub where o: "ks_kv_init (re_alloc re) (re_clock re) = Some st"
    "ks_pubsub_create (re_alloc re) = Some pubsub" by (auto simp: starts_def)
  let ?s = "initial_server cfg st pubsub (re_started_at re)"
  have mc: "\<not> (cfg_max_clients cfg = 0 \<or> unat (cfg_max_clients cfg) \<ge> FD_SETSIZE)" "unat (cfg_max_clients cfg) < FD_SETSIZE"
    using re by (auto simp: starts_def config_ok_def)
  have s: "srv_ok (2 ^ 64 - 2) ?s" by (rule initial_server_ok [OF o clk t0 mc(2)]) simp
  have "srv_ok (length (re_ticks re) * KS_ACCEPT_BUDGET) (snd (0 :: nat, ?s))" using srv_ok_less [OF s n] by simp
  from brk.rounds_refine [OF this te, of cfg listen_fd ends] obtain outs bs where
    r: "rounds (server_step cfg listen_fd) ends (re_ticks re) (0, ?s) = Some (outs, bs)"
      "rounds (broker_round cfg listen_fd) ends (re_ticks re) (0, broker_start cfg st (re_started_at re)) = Some (outs, apsnd broker_of bs)"
    by (auto simp: broker_initial [OF o(2)])
  from run_loop [OF te n s, of listen_fd] obtain s' closed sent p freed where
    l: "event_loop cfg listen_fd (re_ticks re) 0 ?s = Some (if list_ex select_failed (re_ticks re) then 1 else 0, s', closed, sent)"
      "shutdown_clients (sv_clients s') (sv_pubsub s') = Some (p, freed, open_fds (sv_clients s'))" by blast
  from l(1) r(1) have e: "loop_result outs = (if list_ex select_failed (re_ticks re) then 1 else 0)" "s' = snd bs"
    "sent = concat (map ro_sent outs)" "closed = concat (map ro_closed outs)"
    by (simp_all add: event_loop_rounds split: if_splits)
  have "\<exists>rr. ks_server_run re (Some cfg) = Some rr \<and> rr_result rr = loop_result outs \<and> rr_sent rr = concat (map ro_sent outs) \<and>
    rr_closed rr = concat (map ro_closed outs) @ map pr_fd (present (snd (apsnd broker_of bs))) @ [listen_fd]"
    using re o mc(1) l e by (auto simp: ks_server_run_def starts_def Let_def present_fds ks_close_def)
  with r(2) show thesis by (auto intro: that)
qed

section \<open>Properties\<close>

text \<open>
  C1. The server is a message broker. Whatever the clients send and the system answers, a run of
  \<open>ks_server_run\<close> that got to its event loop returns the result of the abstract broker, sends
  exactly the bytes the broker sends, on the same descriptors and in the same order, and closes
  exactly the descriptors the broker closes, in order: those the rounds close, then at the end those of the
  peers still connected, and the listener. The broker has queues of bytes, a store and a set of
  subscriptions, and carries out one request after the other; buffers that are compacted, lines
  rewritten in place, linked lists and counters are gone.
\<close>

theorem server_refines_broker:
  assumes "starts re cfg listen_fd st" "\<forall>te \<in> set (re_ticks re). te_ok te"
    and "length (re_ticks re) * KS_ACCEPT_BUDGET \<le> 2 ^ 64 - 2"
    and "monotonic (ks_ttl_system_clock (re_clock re))" "time_ok (re_started_at re)"
  shows "\<exists>rr outs kb. ks_server_run re (Some cfg) = Some rr \<and>
    rounds (broker_round cfg listen_fd) ends (re_ticks re) (0, broker_start cfg st (re_started_at re)) = Some (outs, kb) \<and>
    rr_result rr = loop_result outs \<and> rr_sent rr = concat (map ro_sent outs) \<and>
    rr_closed rr = concat (map ro_closed outs) @ map pr_fd (present (snd kb)) @ [listen_fd]"
  by (rule run_refines [OF assms]) blast

lemma ex_run_starts: "\<exists>st. starts ex_run ks_config_init 3 st"
  using ex_enters_loop by (simp add: starts_def enters_loop_def ex_listen FD_SETSIZE_def)

theorem server_refines_broker_witness:
  "\<exists>st rr outs kb. starts ex_run ks_config_init 3 st \<and> ks_server_run ex_run (Some ks_config_init) = Some rr \<and>
     rounds (broker_round ks_config_init 3) ends [ex_tick] (0, broker_start ks_config_init st (re_started_at ex_run)) = Some (outs, kb) \<and>
     rr_result rr = loop_result outs \<and> rr_closed rr = concat (map ro_closed outs) @ map pr_fd (present (snd kb)) @ [3]"
proof -
  obtain st where st: "starts ex_run ks_config_init 3 st" using ex_run_starts by blast
  from server_refines_broker [OF st] ex_run_ok ex_tick_ok st show ?thesis by (auto simp: KS_ACCEPT_BUDGET_def)
qed

end
