(* ===== verification/Kessel_Broker_Example.thy ===== *)
theory Kessel_Broker_Example
  imports Kessel_Broker_Run
begin

text \<open>
  A connection of three rounds, evaluated on the broker: a client connects, sends \<open>PING\<close>, and is
  sent its answer.
\<close>

definition ex_config :: ks_config where
  "ex_config = ks_config_init\<lparr>cfg_max_clients := 1\<rparr>"

definition ex_tick_read :: tick_env where
  "ex_tick_read = ex_tick\<lparr>te_select := Inr ([5], []), te_accept := [Inl EAGAIN], te_recv := \<lambda>i. [Inr (''PING'' @ [LF]), Inl EAGAIN]\<rparr>"

definition ex_tick_write :: tick_env where
  "ex_tick_write = ex_tick\<lparr>te_select := Inr ([], [5]), te_accept := [Inl EAGAIN], te_send := \<lambda>i. [Inr 7, Inl EAGAIN]\<rparr>"

definition ex_peer :: "bytes \<Rightarrow> peer" where
  "ex_peer out = \<lparr>pr_fd = 5, pr_id = 1, pr_closing = False, pr_dropped = False, pr_inbox = [], pr_outbox = out\<rparr>"

definition ex_broker :: "ks_kv \<Rightarrow> u64 \<Rightarrow> bytes \<Rightarrow> broker" where
  "ex_broker st n out = \<lparr>bk_peers = [Some (ex_peer out)], bk_store = st, bk_subs = {}, bk_commands = n,
     bk_accepted = 1, bk_rejected = 0, bk_started_at = 0, bk_next_id = 2\<rparr>"

lemma ex_ticks_ok: "te_ok ex_tick_read" "te_ok ex_tick_write"
  by (auto simp: te_ok_def ex_tick_read_def ex_tick_write_def ex_tick_def)

lemma ex_would_block: "ks_recv [Inl EAGAIN] (Suc n) = Some (KS_IO_WOULD_BLOCK, [], [])"
  "ks_send [Inl EAGAIN] (Suc n) = Some (KS_IO_WOULD_BLOCK, 0, [])"
  by (simp_all add: ks_recv_def ks_send_def ks_error_interrupted_def ks_error_would_block_def)

text \<open>A round on a peer with an empty inbox whose socket is not ready.\<close>

lemma ex_idle: "broker_requests env cfg 0 (ex_broker st n out) = Some (ex_broker st n out)"
  by (rule broker_requests_stop [where p = "ex_peer out"]) (simp_all add: ex_broker_def ex_peer_def peer_at_def)

lemma ex_round_accept:
  assumes "ks_kv_reap st KS_REAPER_BUDGET = Some (r, st')"
  shows "broker_round ex_config 3 ex_tick (0, broker_start ex_config st 0) =
    Some (\<lparr>ro_exit = None, ro_closed = [], ro_sent = []\<rparr>, 0, ex_broker st' 0 [])"
proof -
  have b: "broker_start ex_config st 0\<lparr>bk_store := st'\<rparr> = \<lparr>bk_peers = [None], bk_store = st', bk_subs = {},
      bk_commands = 0, bk_accepted = 0, bk_rejected = 0, bk_started_at = 0, bk_next_id = 1\<rparr>" (is "_ = ?b")
    by (simp add: broker_start_def ex_config_def)
  have ad: "broker_admit mem_ok ?b 5 = (ex_broker st' 0 [], [])"
    by (simp add: broker_admit_def ex_broker_def ex_peer_def next_id_def FD_SETSIZE_def Let_def c_malloc_def mem_ok_def KS_INPUT_CAP_def KS_OUTPUT_CAP_def KS_MAX_REQUEST_def)
  have "broker_accept (\<lambda>n. False) (\<lambda>n. mem_ok) (Suc (Suc n)) ?b [Inr (5, ex_nonblock), Inl EAGAIN] =
      Some (False, ex_broker st' 0 [], [])" for n
    by (simp add: ad KS_NET_ACCEPT_WOULD_BLOCK_def KS_NET_ACCEPT_ERROR_def ks_set_nonblock_def ex_nonblock_def
        ks_error_interrupted_def ks_error_would_block_def)
  from this [of 62] have acc: "broker_accept (\<lambda>n. False) (\<lambda>n. mem_ok) KS_ACCEPT_BUDGET ?b [Inr (5, ex_nonblock), Inl EAGAIN] =
      Some (False, ex_broker st' 0 [], [])" by (simp add: KS_ACCEPT_BUDGET_def)
  have "peer_at (ex_broker st' 0 []) 0 = Some (ex_peer [])" by (simp add: ex_broker_def peer_at_def)
  then have srv: "broker_serve ex_tick ex_config [3] [] 0 (ex_broker st' 0 []) = Some (ex_broker st' 0 [], [], [])"
    by (simp add: broker_serve_def ex_idle Let_def) (simp add: ex_peer_def)
  have len: "length (bk_peers (ex_broker st' 0 [])) = 1" by (simp add: ex_broker_def)
  have p: "present ?b = []" by (simp add: present_def map_filter_simps)
  have one: "replicate (unat (cfg_max_clients ex_config)) None = [None :: peer option]" by (simp add: ex_config_def)
  show ?thesis
    using assms acc srv len p
    by (simp add: broker_round_def broker_start_def one Let_def ex_tick_def c_select_def)
qed

lemma ex_ping: "request_of al (''PING'' @ [LF]) = Req_Static (simple_text ''PONG'')"
proof -
  have "trimmed (''PING'' @ [LF]) = ''PING''" "words ''PING'' = Some [''PING'']" "map c_toupper ''PING'' = ''PING''"
    by code_simp+
  then have "parse_spec (''PING'' @ [LF]) = Some (''PING'', [])"
    by (simp add: parse_spec_def KS_MAX_REQUEST_def KS_MAX_ARGS_def)
  then show ?thesis by (simp add: request_of_def static_reply_def arity_def)
qed

lemma ex_serve_ping:
  "broker_requests env cfg 0 (set_inbox 0 (''PING'' @ [LF]) (ex_broker st n [])) =
     Some (ex_broker st (n + 1) (simple_text ''PONG''))"
proof -
  let ?b = "ex_broker st n []"
  have p: "peer_at (set_inbox 0 (''PING'' @ [LF]) ?b) 0 = Some (ex_peer []\<lparr>pr_inbox := ''PING'' @ LF # []\<rparr>)"
    by (simp add: ex_broker_def peer_at_def set_inbox_def on_peer_def)
  have same: "set_inbox 0 [] ?b = ?b" by (simp add: ex_broker_def ex_peer_def set_inbox_def on_peer_def)
  have "serve_line env cfg 0 ''PING'' ?b = Some (ex_broker st (n + 1) (simple_text ''PONG''))"
    using ex_ping by (simp add: serve_line_def oversized_def KS_MAX_REQUEST_def serve_request_def ex_broker_def
        ex_peer_def peer_at_def say_def on_peer_def Let_def)
  with broker_requests_line [OF p, of "''PING''" "[]" env cfg] same ex_idle show ?thesis
    by (simp add: ex_peer_def KS_OUTPUT_HIGH_WATER_def KS_OUTPUT_CAP_def)
qed

lemma ex_peer_at: "peer_at (ex_broker st n out) 0 = Some (ex_peer out)"
  by (simp add: ex_broker_def peer_at_def)

lemma ex_read:
  "broker_read env cfg 0 (ex_broker st n []) [Inr (''PING'' @ [LF]), Inl EAGAIN] =
     Some (False, ex_broker st (n + 1) (simple_text ''PONG''))"
proof -
  let ?b = "ex_broker st (n + 1) (simple_text ''PONG'')"
  have c: "KS_INPUT_CAP = Suc (KS_INPUT_CAP - 1)" "5 \<le> KS_INPUT_CAP" by (simp_all add: KS_INPUT_CAP_def KS_MAX_REQUEST_def)
  have r: "ks_recv [Inr (''PING'' @ [LF]), Inl EAGAIN] KS_INPUT_CAP = Some (KS_IO_OK, ''PING'' @ [LF], [Inl EAGAIN])"
    using c(2) by (simp add: ks_recv_def)
  have low: "length (simple_text ''PONG'') < KS_OUTPUT_HIGH_WATER"
    by (simp add: simple_text_def KS_OUTPUT_HIGH_WATER_def KS_OUTPUT_CAP_def)
  have "ks_recv [Inl EAGAIN] KS_INPUT_CAP = Some (KS_IO_WOULD_BLOCK, [], [])"
    using ex_would_block(1) c(1) by metis
  then have "broker_read env cfg 0 ?b [Inl EAGAIN] = Some (False, ?b)"
    using low c(2) by (subst broker_read.simps) (simp add: ex_peer_at ex_peer_def)
  then show ?thesis using r c(2) ex_serve_ping
    by (subst broker_read.simps) (simp add: ex_peer_at ex_peer_def KS_OUTPUT_HIGH_WATER_def KS_OUTPUT_CAP_def)
qed

lemma ex_polls:
  "map pr_fd (filter awaits_input (present (ex_broker st n []))) = [5]"
  "map pr_fd (filter awaits_output (present (ex_broker st n []))) = []"
  "map pr_fd (filter awaits_input (present (ex_broker st n (simple_text ''PONG'')))) = [5]"
  "map pr_fd (filter awaits_output (present (ex_broker st n (simple_text ''PONG'')))) = [5]"
  by (simp_all add: present_def map_filter_simps ex_broker_def ex_peer_def awaits_input_def awaits_output_def
      simple_text_def KS_OUTPUT_HIGH_WATER_def KS_OUTPUT_CAP_def)

lemma ex_store_upd: "ex_broker st n out\<lparr>bk_store := st'\<rparr> = ex_broker st' n out" "bk_store (ex_broker st n out) = st"
  "length (bk_peers (ex_broker st n out)) = 1"
  by (simp_all add: ex_broker_def)

lemma ex_round_read:
  assumes "ks_kv_reap st KS_REAPER_BUDGET = Some (r, st')"
  shows "broker_round ex_config 3 ex_tick_read (0, ex_broker st 0 []) =
    Some (\<lparr>ro_exit = None, ro_closed = [], ro_sent = []\<rparr>, 0, ex_broker st' 1 (simple_text ''PONG''))"
proof -
  have "broker_serve ex_tick_read ex_config [5] [] 0 (ex_broker st' 0 []) = Some (ex_broker st' 1 (simple_text ''PONG''), [], [])"
    using ex_read [of "te_commands ex_tick_read" ex_config st' 0]
    by (simp add: broker_serve_def ex_peer_at ex_idle Let_def) (simp add: ex_peer_def ex_tick_read_def ex_idle ex_peer_at)
  then show ?thesis using assms ex_polls
    by (simp add: broker_round_def ex_store_upd Let_def ex_tick_read_def c_select_def)
qed

lemma ex_push: "push (simple_text ''PONG'') [Inr 7, Inl EAGAIN] = Some (False, [], simple_text ''PONG'')"
  by (subst push.simps, subst push.simps) (simp add: simple_text_def ks_send_def)

lemma ex_round_write:
  assumes "ks_kv_reap st KS_REAPER_BUDGET = Some (r, st')"
  shows "broker_round ex_config 3 ex_tick_write (0, ex_broker st n (simple_text ''PONG'')) =
    Some (\<lparr>ro_exit = None, ro_closed = [], ro_sent = [(5, simple_text ''PONG'')]\<rparr>, 0, ex_broker st' n [])"
proof -
  have w: "broker_write 0 [Inr 7, Inl EAGAIN] (ex_broker st' n (simple_text ''PONG'')) =
      Some (False, ex_broker st' n [], simple_text ''PONG'')"
    using ex_push by (simp add: broker_write_def ex_peer_at) (simp add: ex_broker_def ex_peer_def on_peer_def)
  have "broker_serve ex_tick_write ex_config [] [5] 0 (ex_broker st' n (simple_text ''PONG'')) =
      Some (ex_broker st' n [], [], [(5, simple_text ''PONG'')])"
    using w by (simp add: broker_serve_def ex_peer_at ex_idle Let_def)
      (simp add: ex_peer_def ex_tick_write_def ex_idle ex_peer_at)
  then show ?thesis using assms ex_polls
    by (simp add: broker_round_def ex_store_upd Let_def ex_tick_write_def c_select_def)
qed

end
