(* ===== verification/Kessel_Broker_Stream.thy ===== *)
theory Kessel_Broker_Stream
  imports Kessel_Broker_Example Kessel_Cli_Correct
begin

text \<open>
  What a client receives. Everything the broker ever puts into an outbox is a whole frame: a
  response or a published message. So the bytes sent on a connection over many rounds, followed by
  those still owed, are a sequence of frames, whatever the other clients do, however the sockets
  cut the bytes and however often a peer runs out of room, and the command-line client prints
  them one by one.
\<close>

section \<open>Frames\<close>

datatype frame =
    Fr_Simple string
  | Fr_Error string
  | Fr_Int int
  | Fr_Bulk bytes
  | Fr_Nil
  | Fr_Message string bytes

fun frame_text :: "frame \<Rightarrow> bytes" where
  "frame_text (Fr_Simple t) = simple_text t"
| "frame_text (Fr_Error t) = error_text t"
| "frame_text (Fr_Int i) = int_text i"
| "frame_text (Fr_Bulk d) = bulk_text d"
| "frame_text Fr_Nil = nil_text"
| "frame_text (Fr_Message ch m) = message_text ch m"

fun frame_ok :: "frame \<Rightarrow> bool" where
  "frame_ok (Fr_Simple t) \<longleftrightarrow> LF \<notin> set t \<and> NUL \<notin> set t \<and> length t < 1000"
| "frame_ok (Fr_Error t) \<longleftrightarrow> LF \<notin> set t \<and> NUL \<notin> set t \<and> length t < 1000"
| "frame_ok (Fr_Int i) \<longleftrightarrow> - (2 ^ 63) \<le> i \<and> i < 2 ^ 63"
| "frame_ok (Fr_Bulk d) \<longleftrightarrow> length d \<le> KS_MAX_REQUEST"
| "frame_ok Fr_Nil \<longleftrightarrow> True"
| "frame_ok (Fr_Message ch m) \<longleftrightarrow> length ch \<le> KS_MAX_REQUEST \<and> length m \<le> KS_MAX_REQUEST"

text \<open>What the client prints for a frame.\<close>

fun frame_view :: "frame \<Rightarrow> string" where
  "frame_view (Fr_Simple t) = t @ [LF]"
| "frame_view (Fr_Error t) = ''(error) ERR '' @ t @ [LF]"
| "frame_view (Fr_Int i) = ''(integer) '' @ fmt_int i @ [LF]"
| "frame_view (Fr_Bulk d) = d @ [LF]"
| "frame_view Fr_Nil = ''(nil)'' @ [LF]"
| "frame_view (Fr_Message ch m) = ''message '' @ ch @ '' '' @ m @ [LF]"

definition texts :: "frame list \<Rightarrow> bytes" where
  "texts fs = concat (map frame_text fs)"

definition views :: "frame list \<Rightarrow> string" where
  "views fs = concat (map frame_view fs)"

lemma texts_simps [simp]: "texts [] = []" "texts (f # fs) = frame_text f @ texts fs" "texts (fs @ gs) = texts fs @ texts gs"
  by (simp_all add: texts_def)

lemma views_simps [simp]: "views [] = []" "views (f # fs) = frame_view f @ views fs"
  by (simp_all add: views_def)

lemma max_line: "KS_MAX_REQUEST = KESSEL_CLI_MAX_LINE"
  by (simp add: KS_MAX_REQUEST_def KESSEL_CLI_MAX_LINE_def)

lemma frame_rendered:
  assumes "frame_ok f"
  shows "\<exists>k. response_spec (frame_text f @ s) = Some (RESPONSE_OK, Some k, frame_view f, s)"
  using assms response_simple response_int response_bulk response_nil response_message
  by (cases f) (simp_all add: max_line)

lemma render_frames:
  assumes "flows c" "unread c = texts fs @ rest" "\<forall>f \<in> set fs. frame_ok f"
  shows "\<exists>c'. render_all (length fs) c = Some (RESPONSE_OK, c') \<and> printed c (views fs) rest c'"
  using assms
proof (induction fs arbitrary: c)
  case Nil
  with printed_refl [OF Nil(1)] show ?case by simp
next
  case (Cons f fs)
  then have u: "unread c = frame_text f @ texts fs @ rest" by simp
  from frame_rendered [of f "texts fs @ rest"] Cons.prems(3) obtain k where
    "response_spec (unread c) = Some (RESPONSE_OK, Some k, frame_view f, texts fs @ rest)" unfolding u by auto
  with response_flows [OF Cons.prems(1)] obtain c1 where
    1: "render_response c = Some (RESPONSE_OK, Some k, c1)" "printed c (frame_view f) (texts fs @ rest) c1" by auto
  from Cons.IH [of c1] printedD [OF 1(2)] Cons.prems(3) obtain c2 where
    2: "render_all (length fs) c1 = Some (RESPONSE_OK, c2)" "printed c1 (views fs) rest c2" by auto
  from printed_trans [OF 1(2) 2(2)] 1(1) 2(1) show ?case by simp
qed

section \<open>Requests are answered by frames\<close>

definition request_ok :: "request \<Rightarrow> bool" where
  "request_ok r = (case r of
     Req_Data op \<Rightarrow> (\<forall>b. op \<noteq> Op_Reap b) \<and> op \<noteq> Op_Size \<and>
       (\<forall>al k v ttl. op = Op_Set al k v ttl \<longrightarrow> length v \<le> KS_MAX_REQUEST)
   | Req_Static tx \<Rightarrow> \<exists>f. frame_ok f \<and> tx = frame_text f
   | Req_Publish ch m \<Rightarrow> length ch \<le> KS_MAX_REQUEST \<and> length m \<le> KS_MAX_REQUEST
   | _ \<Rightarrow> True)"

lemma static_frame:
  assumes "static_reply cmd args = Some tx" "\<forall>a \<in> set args. length a \<le> KS_MAX_REQUEST"
  shows "\<exists>f. frame_ok f \<and> tx = frame_text f"
proof -
  have w: "frame_ok (Fr_Error (wrong_arguments d))" if "d \<in> commands" for d
    using that unfolding commands_def by (elim insertE emptyE; hypsubst) (simp_all add: wrong_arguments_def)
  consider (unknown) "tx = error_text ''unknown command''"
    | (wrong) "cmd \<in> commands" "tx = error_text (wrong_arguments cmd)"
    | (pong) "tx = simple_text ''PONG''"
    | (echo) "arity cmd = Some (length args)" "cmd = ''ECHO''" "tx = bulk_text (args ! 0)"
    | (hlp) "tx = bulk_text help_text" | (exp) "tx = error_text ''invalid expire time''"
    using assms(1) unfolding static_reply_def arity_None by (simp split: if_split_asm)
  then show ?thesis
  proof cases
    case unknown
    then show ?thesis by (intro exI [of _ "Fr_Error ''unknown command''"]) simp
  next
    case wrong
    with w show ?thesis by (intro exI [of _ "Fr_Error (wrong_arguments cmd)"]) simp
  next
    case pong
    then show ?thesis by (intro exI [of _ "Fr_Simple ''PONG''"]) simp
  next
    case echo
    then have "length args = 1" by (simp add: arity_def)
    with assms(2) have "length (args ! 0) \<le> KS_MAX_REQUEST" by simp
    with echo show ?thesis by (intro exI [of _ "Fr_Bulk (args ! 0)"]) simp
  next
    case hlp
    then show ?thesis using help_fits by (intro exI [of _ "Fr_Bulk help_text"]) simp
  next
    case exp
    then show ?thesis by (intro exI [of _ "Fr_Error ''invalid expire time''"]) simp
  qed
qed

lemma request_of_ok: "request_ok (request_of al line)"
proof (cases "parse_spec line")
  case None
  then show ?thesis by (auto simp: request_of_def request_ok_def intro!: exI [of _ "Fr_Error ''invalid command''"])
next
  case (Some q)
  obtain cmd args where p: "parse_spec line = Some (cmd, args)" using Some by (cases q) simp
  have len: "sum_list (map length args) \<le> KS_MAX_REQUEST" using parse_spec_length [OF p] by simp
  have small: "\<forall>a \<in> set args. length a \<le> KS_MAX_REQUEST" using in_args_length len by fastforce
  show ?thesis
  proof (cases "static_reply cmd args")
    case (Some tx)
    with static_frame [OF Some small] p show ?thesis by (simp add: request_of_def request_ok_def)
  next
    case None
    show ?thesis
    proof (rule request_cases [OF p None, of al])
      fix op assume op: "kv_command al cmd args = Some op" "request_of al line = Req_Data op"
      have "op \<noteq> Op_Reap b" "op \<noteq> Op_Size" for b
        using op(1) by (auto simp: kv_command_def split: list.splits if_splits option.splits)
      moreover have "length v \<le> KS_MAX_REQUEST" if "op = Op_Set al' k v ttl" for al' k v ttl
        using kv_command_value [of al cmd args] op(1) small that by blast
      ultimately show ?thesis using op(2) by (simp add: request_ok_def)
    qed (use small in \<open>simp_all add: request_ok_def\<close>)
  qed
qed

fun answer_frame :: "kv_answer \<Rightarrow> frame" where
  "answer_frame (Ans_Set r) = (if r = KS_KV_SET_ERROR then Fr_Error ''unable to store value'' else Fr_Simple ''OK'')"
| "answer_frame (Ans_Get d n) = (case d of None \<Rightarrow> Fr_Nil | Some d \<Rightarrow> Fr_Bulk (take (unat n) d))"
| "answer_frame (Ans_Bool b) = Fr_Int (if b then 1 else 0)"
| "answer_frame (Ans_Expire r) =
     (if r = KS_KV_EXPIRE_ERROR then Fr_Error ''invalid expire time'' else Fr_Int (if r = KS_KV_EXPIRE_UPDATED then 1 else 0))"
| "answer_frame (Ans_Ttl i) = Fr_Int i"
| "answer_frame (Ans_Count n) = Fr_Int (int (unat n))"

lemma answer_frame:
  assumes "answer_ok a" shows "frame_ok (answer_frame a)" "answer_text a = frame_text (answer_frame a)"
proof -
  show "answer_text a = frame_text (answer_frame a)" by (cases a) (auto split: option.split)
  show "frame_ok (answer_frame a)" using assms
    by (cases a) (auto split: option.splits intro: order_trans [of _ 0])
qed

section \<open>Outboxes grow by frames\<close>

definition grows :: "peer \<Rightarrow> peer \<Rightarrow> bool" where
  "grows p p' \<longleftrightarrow> pr_fd p' = pr_fd p \<and> pr_id p' = pr_id p \<and>
     (\<exists>fs. (\<forall>f \<in> set fs. frame_ok f) \<and> pr_outbox p' = pr_outbox p @ texts fs)"

lemma growsI:
  "pr_fd p' = pr_fd p \<Longrightarrow> pr_id p' = pr_id p \<Longrightarrow> \<forall>f \<in> set fs. frame_ok f \<Longrightarrow> pr_outbox p' = pr_outbox p @ texts fs \<Longrightarrow> grows p p'"
  by (auto simp: grows_def)

lemma grows_same: "pr_fd p' = pr_fd p \<Longrightarrow> pr_id p' = pr_id p \<Longrightarrow> pr_outbox p' = pr_outbox p \<Longrightarrow> grows p p'"
  by (rule growsI [of _ _ "[]"]) simp_all

lemma grows_trans: "grows p p' \<Longrightarrow> grows p' p'' \<Longrightarrow> grows p p''"
  unfolding grows_def by (elim conjE exE, intro conjI) (simp, simp, metis Un_iff append.assoc set_append texts_simps(3))

definition grown :: "broker \<Rightarrow> broker \<Rightarrow> bool" where
  "grown b b' \<longleftrightarrow> length (bk_peers b') = length (bk_peers b) \<and> (\<forall>i. rel_option grows (peer_at b i) (peer_at b' i))"

lemma grown_refl [simp]: "grown b b"
  by (auto simp: grown_def grows_same intro: option.rel_refl)

lemma grown_trans: "grown b b' \<Longrightarrow> grown b' b'' \<Longrightarrow> grown b b''"
  unfolding grown_def by (auto intro: option.rel_transp [unfolded transp_def, rule_format] grows_trans)

lemma grown_on_peer:
  assumes "\<And>p. peer_at b i = Some p \<Longrightarrow> grows p (f p)" shows "grown b (on_peer i f b)"
proof -
  have "rel_option grows (peer_at b j) (peer_at (on_peer i f b) j)" for j
    using assms by (cases "j = i"; cases "peer_at b j") (simp_all add: peer_at_other grows_same)
  then show ?thesis by (simp add: grown_def)
qed

lemma grown_say: "frame_ok f \<Longrightarrow> grown b (say i (frame_text f) b)"
  unfolding say_def by (rule grown_on_peer) (rule growsI [of _ _ "[f]"]; simp)

lemma grown_set_inbox: "grown b (set_inbox i x b)"
  unfolding set_inbox_def by (rule grown_on_peer) (simp add: grows_same)

lemma grown_broadcast:
  assumes "frame_ok f" shows "grown b (broadcast I (frame_text f) b)"
proof -
  have "grows p (hand I (frame_text f) p)" for p
    using assms growsI [of "hand I (frame_text f) p" p "[f]"]
    by (cases "has_room I (frame_text f) p") (auto simp: hand_def intro: grows_same)
  moreover have "peer_at (broadcast I fr b) i = map_option (hand I fr) (peer_at b i)" for fr i
    by (simp add: peer_at_def broadcast_def)
  ultimately show ?thesis by (auto simp: grown_def broadcast_def option.rel_map intro: option.rel_refl)
qed

lemma grown_fields [simp]:
  "grown b (b'\<lparr>bk_store := st\<rparr>) = grown b b'" "grown b (b'\<lparr>bk_subs := u\<rparr>) = grown b b'"
  "grown b (b'\<lparr>bk_commands := n\<rparr>) = grown b b'" "grown (b\<lparr>bk_store := st\<rparr>) b' = grown b b'"
  "grown (b\<lparr>bk_subs := u\<rparr>) b' = grown b b'" "grown (b\<lparr>bk_commands := n\<rparr>) b' = grown b b'"
  by (simp_all add: grown_def)

definition broker_ok :: "broker \<Rightarrow> bool" where
  "broker_ok b \<longleftrightarrow> store_inv (bk_store b) \<and> small_values (bk_store b) \<and> length (bk_peers b) < FD_SETSIZE \<and>
     time_ok (bk_started_at b)"

lemma broker_ok_simps [simp]:
  "broker_ok (on_peer i f b) = broker_ok b" "broker_ok (say i tx b) = broker_ok b" "broker_ok (set_inbox i x b) = broker_ok b"
  "broker_ok (broadcast I fr b) = broker_ok b" "broker_ok (b\<lparr>bk_subs := u\<rparr>) = broker_ok b"
  "broker_ok (b\<lparr>bk_commands := n\<rparr>) = broker_ok b" "broker_ok (give_up i tx b) = broker_ok b"
  by (simp_all add: broker_ok_def say_def set_inbox_def broadcast_def give_up_def)

lemma broker_ok_of: "server_inv s \<Longrightarrow> broker_ok (broker_of s)"
  using server_invD [of s] by (simp add: broker_ok_def)

lemma info_short:
  assumes "broker_ok b" "time_ok now" shows "length (broker_info now cfg keys b) \<le> KS_MAX_REQUEST"
proof -
  have "length (fmt_int (uptime now (bk_started_at b))) \<le> 20"
    using uptime_range [of now "bk_started_at b"] assms by (intro fmt_int_word) (simp_all add: broker_ok_def)
  moreover have "length (present b) \<le> length (bk_peers b)"
  proof -
    have "length (List.map_filter id qs) \<le> length qs" for qs :: "'a option list"
      by (induction qs) (simp_all add: map_filter_simps split: option.splits)
    then show ?thesis by (simp add: present_def)
  qed
  then have "length (present b) < 100000" using assms(1) by (simp add: broker_ok_def FD_SETSIZE_def)
  from fmt_nat_short [OF this] have "length (fmt_nat (length (present b))) \<le> 5" .
  ultimately show ?thesis
    using fmt_nat_word [of "cfg_max_clients cfg"] fmt_nat_word [of "bk_accepted b"] fmt_nat_word [of "bk_rejected b"]
      fmt_nat_word [of "bk_commands b"] fmt_nat_word [of keys]
      fmt_nat_word [of "of_nat (card (fst ` bk_subs b))"] fmt_nat_word [of "of_nat (card (bk_subs b))"]
    by (simp add: broker_info_def info_text_def KS_MAX_REQUEST_def)
qed

lemma serve_request_grown:
  assumes b: "broker_ok b" and r: "request_ok r" and now: "time_ok now" and s: "serve_request cfg al now i r b = Some b'"
  shows "grown b b' \<and> broker_ok b'"
proof -
  note d = b [unfolded broker_ok_def]
  from s obtain p where p: "peer_at b i = Some p" by (auto simp: serve_request_def split: bind_splits)
  note f = grown_say [of _ b i]
  show ?thesis
  proof (cases r)
    case (Req_Data op)
    with s p obtain a st where st: "kv_step op (bk_store b) = Some (a, st)" "b' = say i (answer_text a) (b\<lparr>bk_store := st\<rparr>)"
      by (auto simp: serve_request_def split: bind_splits)
    have op: "\<And>b. op \<noteq> Op_Reap b" "op \<noteq> Op_Size" "\<And>al k v ttl. op = Op_Set al k v ttl \<Longrightarrow> length v \<le> KS_MAX_REQUEST"
      using r Req_Data by (auto simp: request_ok_def)
    have "store_inv st" "small_values st"
      using kv.step_invar [of "bk_store b"] small_step [of "bk_store b"] d st(1) op(3) by blast+
    moreover have "answer_ok a" by (rule kv_step_answer [OF _ _ st(1)]) (use d op in auto)
    note answer_frame [OF this]
    moreover from calculation have "broker_ok (b\<lparr>bk_store := st\<rparr>)" using d by (simp add: broker_ok_def)
    ultimately show ?thesis using st(2) grown_say [of "answer_frame a" "b\<lparr>bk_store := st\<rparr>" i] by simp
  next
    case (Req_Static tx)
    with r obtain f where "frame_ok f" "tx = frame_text f" by (auto simp: request_ok_def)
    with s p Req_Static b grown_say show ?thesis by (auto simp: serve_request_def)
  next
    case (Req_Subscribe ch)
    have "grown b (say i (error_text ''invalid channel'') b)" "grown b (say i (simple_text ''OK'') b)"
      "grown b (say i (error_text ''unable to subscribe'') b)"
      using f [of "Fr_Error ''invalid channel''"] f [of "Fr_Simple ''OK''"] f [of "Fr_Error ''unable to subscribe''"] by simp_all
    moreover have "grown b (say i (simple_text ''OK'') (b\<lparr>bk_subs := u\<rparr>))" for u
      using grown_say [of "Fr_Simple ''OK''" "b\<lparr>bk_subs := u\<rparr>" i] by simp
    ultimately show ?thesis using s p Req_Subscribe b by (auto simp: serve_request_def split: if_splits)
  next
    case (Req_Unsubscribe ch)
    have "grown b (say i (int_text (if q then 1 else 0)) (b\<lparr>bk_subs := u\<rparr>))" for q u
      using grown_say [of "Fr_Int (if q then 1 else 0)" "b\<lparr>bk_subs := u\<rparr>" i] by simp
    with s p Req_Unsubscribe b show ?thesis by (auto simp: serve_request_def)
  next
    case (Req_Publish ch m)
    let ?I = "bk_subs b `` {ch}" and ?f = "message_text ch m"
    have m: "frame_ok (Fr_Message ch m)" using r Req_Publish by (simp add: request_ok_def)
    have "length (filter (has_room ?I ?f) (present b)) \<le> length (filter (\<lambda>y. y) (map (\<lambda>q. case q of None \<Rightarrow> False | Some p \<Rightarrow> has_room ?I ?f p) (bk_peers b)))"
      unfolding present_count by simp
    also have "\<dots> \<le> length (bk_peers b)" using length_filter_le [of "\<lambda>y. y"] by (metis length_map)
    finally have n: "audience ?I ?f b < 1024" using d by (simp add: audience_def FD_SETSIZE_def)
    have "grown b (broadcast ?I ?f b)" using grown_broadcast [OF m] by simp
    moreover have "grown (broadcast ?I ?f b) (say i (int_text (int (audience ?I ?f b))) (broadcast ?I ?f b))"
      using grown_say [of "Fr_Int (int (audience ?I ?f b))"] n by simp
    ultimately show ?thesis using s p Req_Publish b grown_trans by (auto simp: serve_request_def Let_def)
  next
    case Req_Info
    with s p obtain keys st where st: "ks_kv_size (bk_store b) = Some (keys, st)"
      "b' = say i (bulk_text (broker_info now cfg keys b)) (b\<lparr>bk_store := st\<rparr>)"
      by (auto simp: serve_request_def split: bind_splits)
    then have "kv_step Op_Size (bk_store b) = Some (Ans_Count keys, st)" by simp
    then have "store_inv st" "small_values st"
      using kv.step_invar [of "bk_store b"] small_step [of "bk_store b"] d by blast+
    moreover have "frame_ok (Fr_Bulk (broker_info now cfg keys b))" using info_short [OF b now] by simp
    note grown_say [OF this, of "b\<lparr>bk_store := st\<rparr>" i]
    moreover from calculation have "broker_ok (b\<lparr>bk_store := st\<rparr>)" using d by (simp add: broker_ok_def)
    ultimately show ?thesis using st(2) by simp
  qed
qed

lemma grown_give_up:
  assumes "\<forall>f \<in> set fs. frame_ok f" shows "grown b (give_up i (texts fs) b)"
  unfolding give_up_def say_def on_peer_twice
  by (rule grown_on_peer) (rule growsI [of _ _ fs]; use assms in simp)

lemma give_up_error:
  assumes "frame_ok (Fr_Error t)" shows "grown b (give_up i (error_text t) b)"
  using grown_give_up [of "[Fr_Error t]"] assms by simp

lemma serve_line_grown:
  assumes b: "broker_ok b" and env: "env_ok env" and s: "serve_line env cfg i l b = Some b'"
  shows "grown b b' \<and> broker_ok b'"
proof -
  let ?n = "bk_commands b"
  consider "oversized l" | "\<not> oversized l" "NUL \<in> set l" | "\<not> oversized l" "NUL \<notin> set l" by blast
  then show ?thesis
  proof cases
    case 1
    then have "b' = give_up i (error_text ''request too large'') b" using s by (simp add: serve_line_def)
    with b give_up_error [of "''request too large''"] show ?thesis by simp
  next
    case 2
    then have "b' = say i (error_text ''invalid command'') b" using s by (simp add: serve_line_def)
    with b grown_say [of "Fr_Error ''invalid command''"] show ?thesis by simp
  next
    case 3
    then have 3: "serve_request cfg (ce_alloc env ?n) (ce_time env ?n) i (request_of (ce_alloc env ?n) (l @ [LF])) (b\<lparr>bk_commands := ?n + 1\<rparr>) = Some b'"
      using s by (simp add: serve_line_def Let_def)
    have "time_ok (ce_time env ?n)" using env by (simp add: env_ok_def)
    from serve_request_grown [OF _ request_of_ok this 3] b show ?thesis by simp
  qed
qed

lemma broker_requests_grown:
  "broker_requests env cfg i b = Some b' \<Longrightarrow> broker_ok b \<Longrightarrow> env_ok env \<Longrightarrow> grown b b' \<and> broker_ok b'"
proof (induction env cfg i b arbitrary: b' rule: broker_requests.induct)
  case (1 env cfg i b)
  show ?case
  proof (cases "\<exists>p l rest b1. peer_at b i = Some p \<and> length (pr_outbox p) < KS_OUTPUT_HIGH_WATER \<and>
      split_line (pr_inbox p) = Some (l, rest) \<and> serve_line env cfg i l (set_inbox i rest b) = Some b1")
    case False
    with "1.prems" have "b' = b"
      by (subst (asm) broker_requests.simps) (auto split: option.splits if_splits)
    with "1.prems" show ?thesis by simp
  next
    case True
    then obtain p l rest b1 where l: "peer_at b i = Some p" "\<not> KS_OUTPUT_HIGH_WATER \<le> length (pr_outbox p)"
      "split_line (pr_inbox p) = Some (l, rest)" "serve_line env cfg i l (set_inbox i rest b) = Some b1" by auto
    then have "broker_requests env cfg i b1 = Some b'" using "1.prems"(1)
      by (subst (asm) broker_requests.simps) simp
    moreover have "grown (set_inbox i rest b) b1 \<and> broker_ok b1"
      by (rule serve_line_grown [OF _ "1.prems"(3) l(4)]) (use "1.prems"(2) in simp)
    ultimately show ?thesis
      using "1.IH" [OF l(1,2,3) refl l(4)] "1.prems"(3) grown_set_inbox grown_trans by blast
  qed
qed

lemma broker_read_grown:
  "broker_read env cfg i b os = Some (failed, b') \<Longrightarrow> broker_ok b \<Longrightarrow> env_ok env \<Longrightarrow> grown b b' \<and> broker_ok b'"
proof -
  have "broker_ok b \<longrightarrow> env_ok env \<longrightarrow> grown b (snd r) \<and> broker_ok (snd r)"
    if "broker_read env cfg i b os = Some r" for r
    using that
  proof (induction rule: broker_read.raw_induct [rotated, consumes 1, case_names round])
    case (round rec env cfg i b os r)
    show ?case
    proof (intro impI)
      assume b: "broker_ok b" and env: "env_ok env"
      from round(2) obtain p where p: "peer_at b i = Some p" by (auto split: bind_splits)
      note round = round(2) [unfolded p option.simps bind.bind_lunit]
      have e: "grown b (give_up i (error_text ''request too large'') b)"
        "grown b (give_up i (error_text ''incomplete command'') b)" "grown b (give_up i [] b)"
        using give_up_error [of "''request too large''" b i] give_up_error [of "''incomplete command''" b i]
          grown_give_up [of "[]" b i] by simp_all
      show "grown b (snd r) \<and> broker_ok (snd r)"
      proof (cases "KS_OUTPUT_HIGH_WATER \<le> length (pr_outbox p) \<or> length (pr_inbox p) = KS_INPUT_CAP")
        case True
        with round e b show ?thesis by (cases "KS_OUTPUT_HIGH_WATER \<le> length (pr_outbox p)") auto
      next
        case False
        with round obtain st data os' where rv: "ks_recv os (KS_INPUT_CAP - length (pr_inbox p)) = Some (st, data, os')"
          by (auto split: bind_splits)
        show ?thesis
        proof (cases "st = KS_IO_OK")
          case False
          with round rv e b \<open>\<not> (KS_OUTPUT_HIGH_WATER \<le> length (pr_outbox p) \<or> length (pr_inbox p) = KS_INPUT_CAP)\<close>
          show ?thesis by (cases st) auto
        next
          case True
          with round rv False obtain b1 p1 where
            1: "broker_requests env cfg i (set_inbox i (pr_inbox p @ data) b) = Some b1" "peer_at b1 i = Some p1"
              "(if pr_closing p1 then Some (False, b1) else rec env cfg i b1 os') = Some r"
            by (auto split: bind_splits)
          have "grown (set_inbox i (pr_inbox p @ data) b) b1 \<and> broker_ok b1"
            by (rule broker_requests_grown [OF 1(1) _ env]) (use b in simp)
          then have g: "grown b b1" "broker_ok b1" using grown_set_inbox grown_trans by blast+
          show ?thesis
          proof (cases "pr_closing p1")
            case True
            with 1(3) g show ?thesis by auto
          next
            case False
            with 1(3) have "rec env cfg i b1 os' = Some r" by simp
            from \<open>\<And>env cfg i b os r. rec env cfg i b os = Some r \<Longrightarrow>
                broker_ok b \<longrightarrow> env_ok env \<longrightarrow> grown b (snd r) \<and> broker_ok (snd r)\<close> [OF this] g env
            show ?thesis using grown_trans by blast
          qed
        qed
      qed
    qed
  qed
  then show "broker_read env cfg i b os = Some (failed, b') \<Longrightarrow> broker_ok b \<Longrightarrow> env_ok env \<Longrightarrow> grown b b' \<and> broker_ok b'"
    by fastforce
qed

lemma push_sent: "push tx os = Some (failed, left, sent) \<Longrightarrow> sent @ left = tx"
proof -
  have "snd (snd r) @ fst (snd r) = tx" if "push tx os = Some r" for r
    using that
  proof (induction rule: push.raw_induct [rotated, consumes 1, case_names round])
    case (round rec tx os r)
    show ?case
    proof (cases "tx = []")
      case True
      with round(2) show ?thesis by auto
    next
      case False
      with round(2) obtain st n os' where s: "ks_send os (length tx) = Some (st, n, os')"
        by (auto split: bind_splits)
      show ?thesis
      proof (cases "st = KS_IO_OK")
        case ok: True
        with round(2) s False obtain f l u where "rec (drop n tx) os' = Some (f, l, u)" "r = (f, l, take n tx @ u)"
          by (auto split: bind_splits)
        with round(1) [of "drop n tx" os' "(f, l, u)"] show ?thesis by simp
      next
        case no: False
        with round(2) s False show ?thesis by (cases st) auto
      qed
    qed
  qed
  then show "push tx os = Some (failed, left, sent) \<Longrightarrow> sent @ left = tx" by fastforce
qed

section \<open>What flows to a peer\<close>

text \<open>The peer was sent \<open>tx\<close>; that and what it is owed now is what it was owed, and whole frames.\<close>

definition flowed :: "bytes \<Rightarrow> peer \<Rightarrow> peer \<Rightarrow> bool" where
  "flowed tx p p' \<longleftrightarrow> pr_fd p' = pr_fd p \<and> pr_id p' = pr_id p \<and>
     (\<exists>fs. (\<forall>f \<in> set fs. frame_ok f) \<and> tx @ pr_outbox p' = pr_outbox p @ texts fs)"

lemma flowed_Nil [simp]: "flowed [] p p' = grows p p'"
  by (simp add: flowed_def grows_def)

lemma flowed_trans: "flowed tx p p' \<Longrightarrow> flowed tx' p' p'' \<Longrightarrow> flowed (tx @ tx') p p''"
  unfolding flowed_def
proof (elim conjE exE, intro conjI)
  fix fs gs assume a: "\<forall>f \<in> set fs. frame_ok f" "tx @ pr_outbox p' = pr_outbox p @ texts fs"
    "\<forall>f \<in> set gs. frame_ok f" "tx' @ pr_outbox p'' = pr_outbox p' @ texts gs"
  have "(tx @ tx') @ pr_outbox p'' = (tx @ pr_outbox p') @ texts gs" using a(4) by simp
  also have "\<dots> = pr_outbox p @ texts (fs @ gs)" using a(2) by simp
  finally show "\<exists>fs. (\<forall>f \<in> set fs. frame_ok f) \<and> (tx @ tx') @ pr_outbox p'' = pr_outbox p @ texts fs"
    using a(1,3) by (intro exI [of _ "fs @ gs"]) auto
qed simp_all

lemma grownD: "grown b b' \<Longrightarrow> peer_at b i = Some p \<Longrightarrow> \<exists>p'. peer_at b' i = Some p' \<and> grows p p'"
  unfolding grown_def by (elim conjE allE [of _ i]) (auto simp: option_rel_Some1)

lemma grown_None: "grown b b' \<Longrightarrow> peer_at b i = None \<Longrightarrow> peer_at b' i = None"
  unfolding grown_def by (elim conjE allE [of _ i]) auto

lemma write_flowed:
  assumes "broker_write i os b = Some (gone, b', sent)" "peer_at b i = Some p" "broker_ok b"
  shows "\<exists>p'. peer_at b' i = Some p' \<and> flowed sent p p'" "broker_ok b'" "\<And>j. j \<noteq> i \<Longrightarrow> peer_at b' j = peer_at b j"
    "length (bk_peers b') = length (bk_peers b)"
proof -
  from assms(1,2) obtain failed left where w: "push (pr_outbox p) os = Some (failed, left, sent)"
    "b' = on_peer i (\<lambda>p. p\<lparr>pr_outbox := left\<rparr>) b" by (auto simp: broker_write_def split: bind_splits)
  from push_sent [OF w(1)] have "flowed sent p (p\<lparr>pr_outbox := left\<rparr>)"
    unfolding flowed_def by (intro conjI exI [of _ "[]"]) simp_all
  then show "\<exists>p'. peer_at b' i = Some p' \<and> flowed sent p p'" using assms(2) w(2) by simp
  show "broker_ok b'" "\<And>j. j \<noteq> i \<Longrightarrow> peer_at b' j = peer_at b j" "length (bk_peers b') = length (bk_peers b)"
    using assms(3) w(2) by (simp_all add: peer_at_other)
qed

lemma depart_simps [simp]: "broker_ok (depart i b) = broker_ok b" "length (bk_peers (depart i b)) = length (bk_peers b)"
  by (simp_all add: depart_def broker_ok_def split: option.split)

lemma peer_at_depart: "peer_at (depart i b) j = (if j = i then None else peer_at b j)"
  by (cases "peer_at b i") (auto simp: depart_def peer_at_def)

lemma serve_flowed:
  assumes s: "broker_serve te cfg rfds wfds i b = Some (b', closed, sent)" and p: "peer_at b i = Some p"
    and b: "broker_ok b" and te: "te_ok te"
  obtains tx where "sent = (if tx = [] then [] else [(pr_fd p, tx)])" "broker_ok b'"
    "\<forall>p'. peer_at b' i = Some p' \<longrightarrow> flowed tx p p'" "\<forall>j. j \<noteq> i \<longrightarrow> rel_option grows (peer_at b j) (peer_at b' j)"
proof -
  have env: "env_ok (te_commands te)" using te by (simp add: te_ok_def)
  from s p obtain g1 b1 where
    1: "(if pr_fd p \<in> set rfds then broker_read (te_commands te) cfg i b (te_recv te i) else Some (False, b)) = Some (g1, b1)"
    by (auto simp: broker_serve_def split: bind_splits)
  let ?g = "pr_dropped p \<or> g1"
  from s p 1 obtain x where
    x: "(if \<not> ?g \<and> pr_fd p \<in> set wfds then broker_write i (te_send te i) b1 else Some (?g, b1, [])) = Some x"
    unfolding broker_serve_def by (simp split: bind_splits)
  obtain g2 b2 out where "x = (g2, b2, out)" by (rule prod_cases3)
  note 2 = x [unfolded this]
  from s p 1 2 obtain b3 where 3: "(if g2 then Some b2 else broker_requests (te_commands te) cfg i b2) = Some b3"
    unfolding broker_serve_def by (simp split: bind_splits)
  from s p 1 2 3 obtain p3 where
    4: "peer_at b3 i = Some p3" "sent = (if out = [] then [] else [(pr_fd p, out)])"
      "b' = (if g2 \<or> pr_closing p3 \<and> pr_outbox p3 = [] then depart i b3 else b3)"
    unfolding broker_serve_def by (auto simp: Let_def split: bind_splits)
  have r1: "grown b b1" "broker_ok b1"
    using 1 broker_read_grown [OF _ b env] b by (auto split: if_splits)
  from grownD [OF r1(1) p] obtain p1 where p1: "peer_at b1 i = Some p1" "grows p p1" by blast
  have r2: "\<exists>p2. peer_at b2 i = Some p2 \<and> flowed out p1 p2" "broker_ok b2" "\<And>j. j \<noteq> i \<Longrightarrow> peer_at b2 j = peer_at b1 j"
  proof -
    show "\<exists>p2. peer_at b2 i = Some p2 \<and> flowed out p1 p2" "broker_ok b2" "\<And>j. j \<noteq> i \<Longrightarrow> peer_at b2 j = peer_at b1 j"
      using 2 write_flowed [OF _ p1(1) r1(2)] p1(1) r1(2) grows_same [of p1 p1]
      by (auto split: if_splits)
  qed
  then obtain p2 where p2: "peer_at b2 i = Some p2" "flowed out p1 p2" by blast
  have r3: "grown b2 b3" "broker_ok b3" using 3 broker_requests_grown [OF _ r2(2) env] r2(2) by (auto split: if_splits)
  from grownD [OF r3(1) p2(1)] 4(1) have "grows p2 p3" by simp
  with p1(2) p2(2) have fl: "flowed out p p3"
    using flowed_trans [of "[]" p p1 out p2] flowed_trans [of out p p2 "[]" p3] by simp
  have oth: "rel_option grows (peer_at b j) (peer_at b3 j)" if "j \<noteq> i" for j
  proof (cases "peer_at b j")
    case None
    with r1(1) r2(3) [OF that] r3(1) grown_None show ?thesis by simp
  next
    case (Some q)
    from grownD [OF r1(1) Some] obtain q1 where q1: "peer_at b1 j = Some q1" "grows q q1" by blast
    from grownD [OF r3(1), of j q1] r2(3) [OF that] q1 obtain q3 where "peer_at b3 j = Some q3" "grows q1 q3" by auto
    with Some q1 grows_trans show ?thesis by auto
  qed
  show thesis
    by (rule that [OF 4(2)]) (use 4(1,3) r3(2) fl oth in \<open>auto simp: peer_at_depart split: if_splits\<close>)
qed

lemma serve_absent:
  "broker_serve te cfg rfds wfds i b = Some (b', closed, sent) \<Longrightarrow> peer_at b i = None \<Longrightarrow> b' = b \<and> sent = []"
  by (simp add: broker_serve_def split: if_splits)

section \<open>A round\<close>

definition bytes_to :: "int \<Rightarrow> (int \<times> bytes) list \<Rightarrow> bytes" where
  "bytes_to fd sent = concat (map snd (filter (\<lambda>x. fst x = fd) sent))"

lemma bytes_to_simps [simp]:
  "bytes_to fd [] = []" "bytes_to fd ((fd', tx) # sent) = (if fd' = fd then tx @ bytes_to fd sent else bytes_to fd sent)"
  "bytes_to fd (xs @ ys) = bytes_to fd xs @ bytes_to fd ys"
  by (simp_all add: bytes_to_def)

definition fds_distinct :: "broker \<Rightarrow> bool" where
  "fds_distinct b \<longleftrightarrow> (\<forall>j k p q. peer_at b j = Some p \<longrightarrow> peer_at b k = Some q \<longrightarrow> pr_fd p = pr_fd q \<longrightarrow> j = k)"

lemma fds_distinct_less:
  assumes "fds_distinct b" "\<And>j p'. peer_at b' j = Some p' \<Longrightarrow> \<exists>p. peer_at b j = Some p \<and> pr_fd p = pr_fd p'"
  shows "fds_distinct b'"
  unfolding fds_distinct_def
proof (intro allI impI)
  fix j k p' q' assume a: "peer_at b' j = Some p'" "peer_at b' k = Some q'" "pr_fd p' = pr_fd q'"
  from assms(2) [OF a(1)] assms(2) [OF a(2)] obtain p q where
    "peer_at b j = Some p" "pr_fd p = pr_fd p'" "peer_at b k = Some q" "pr_fd q = pr_fd q'" by blast
  with assms(1) a(3) show "j = k" unfolding fds_distinct_def by metis
qed

text \<open>The peers that are still there received, by their descriptors, what \<open>sent\<close> says.\<close>

definition streamed :: "(int \<times> bytes) list \<Rightarrow> broker \<Rightarrow> broker \<Rightarrow> bool" where
  "streamed sent b b' \<longleftrightarrow> (\<forall>j p'. peer_at b' j = Some p' \<longrightarrow>
     (\<exists>p. peer_at b j = Some p \<and> flowed (bytes_to (pr_fd p) sent) p p'))"

lemma streamedD: "streamed sent b b' \<Longrightarrow> peer_at b' j = Some p' \<Longrightarrow> \<exists>p. peer_at b j = Some p \<and> flowed (bytes_to (pr_fd p) sent) p p'"
  unfolding streamed_def by blast

lemma streamed_refl [simp]: "streamed [] b b"
  by (simp add: streamed_def grows_same)

lemma flowed_fd: "flowed tx p p' \<Longrightarrow> pr_fd p' = pr_fd p"
  by (simp add: flowed_def)

lemma streamed_distinct: "streamed sent b b' \<Longrightarrow> fds_distinct b \<Longrightarrow> fds_distinct b'"
  by (rule fds_distinct_less, assumption) (auto dest!: streamedD flowed_fd)

lemma streamed_trans:
  assumes "streamed sent b b1" "streamed sent' b1 b'" shows "streamed (sent @ sent') b b'"
  unfolding streamed_def
proof (intro allI impI)
  fix j p' assume "peer_at b' j = Some p'"
  from streamedD [OF assms(2) this] obtain p1 where p1: "peer_at b1 j = Some p1" "flowed (bytes_to (pr_fd p1) sent') p1 p'" by blast
  from streamedD [OF assms(1) p1(1)] obtain p where p: "peer_at b j = Some p" "flowed (bytes_to (pr_fd p) sent) p p1" by blast
  from flowed_trans [OF p(2)] p1(2) flowed_fd [OF p(2)] p(1)
  show "\<exists>p. peer_at b j = Some p \<and> flowed (bytes_to (pr_fd p) (sent @ sent')) p p'" by auto
qed

lemma serve_streamed:
  assumes s: "broker_serve te cfg rfds wfds i b = Some (b', closed, sent)" and b: "broker_ok b" and te: "te_ok te"
    and fds: "fds_distinct b"
  shows "broker_ok b' \<and> streamed sent b b'"
proof (cases "peer_at b i")
  case None
  with serve_absent [OF s] b show ?thesis by simp
next
  case (Some p)
  obtain tx where t: "sent = (if tx = [] then [] else [(pr_fd p, tx)])" "broker_ok b'"
    "\<forall>p'. peer_at b' i = Some p' \<longrightarrow> flowed tx p p'" "\<forall>j. j \<noteq> i \<longrightarrow> rel_option grows (peer_at b j) (peer_at b' j)"
    by (rule serve_flowed [OF s Some b te])
  have "\<exists>q. peer_at b j = Some q \<and> flowed (bytes_to (pr_fd q) sent) q q'" if q': "peer_at b' j = Some q'" for j q'
  proof (cases "j = i")
    case True
    with q' Some t(1,3) show ?thesis by (simp split: if_splits)
  next
    case False
    with t(4) have "rel_option grows (peer_at b j) (Some q')" unfolding q' [symmetric] by blast
    then obtain q where q: "peer_at b j = Some q" "grows q q'" by (auto simp: option_rel_Some2)
    with fds Some False have "pr_fd p \<noteq> pr_fd q" unfolding fds_distinct_def by metis
    then have "bytes_to (pr_fd q) sent = []" by (simp add: t(1))
    with q show ?thesis by simp
  qed
  with t(2) show ?thesis unfolding streamed_def by blast
qed

lemma serve_all_streamed:
  assumes "broker_serve_all te cfg rfds wfds is b = Some (b', closed, sent)" "broker_ok b" "te_ok te" "fds_distinct b"
  shows "broker_ok b' \<and> streamed sent b b'"
  using assms
proof (induction "is" arbitrary: b b' closed sent)
  case (Cons i "is")
  from Cons.prems(1) obtain b1 cl1 sent1 cl2 sent2 where
    1: "broker_serve te cfg rfds wfds i b = Some (b1, cl1, sent1)"
      "broker_serve_all te cfg rfds wfds is b1 = Some (b', cl2, sent2)" "sent = sent1 @ sent2"
    by (auto split: bind_splits)
  from serve_streamed [OF 1(1) Cons.prems(2-4)] have 2: "broker_ok b1" "streamed sent1 b b1" by simp_all
  from Cons.IH [OF 1(2) 2(1) Cons.prems(3) streamed_distinct [OF 2(2) Cons.prems(4)]] streamed_trans [OF 2(2)] 1(3)
  show ?case by simp
qed simp

text \<open>The system does not give out a descriptor that is open.\<close>

fun accepts_new :: "(nat \<Rightarrow> allocator) \<Rightarrow> nat \<Rightarrow> broker \<Rightarrow> accept_answer list \<Rightarrow> bool" where
  "accepts_new al 0 b os \<longleftrightarrow> True"
| "accepts_new al (Suc n) b os \<longleftrightarrow>
     (case ks_accept os of None \<Rightarrow> True
      | Some (fd, closed, os') \<Rightarrow> fd \<in> {KS_NET_ACCEPT_WOULD_BLOCK, KS_NET_ACCEPT_ERROR} \<or>
          (\<forall>p \<in> set (present b). pr_fd p \<noteq> fd) \<and> accepts_new al n (fst (broker_admit (al n) b fd)) os')"

lemma peer_present: "peer_at b i = Some p \<Longrightarrow> p \<in> set (present b)"
proof -
  have "i < length qs \<Longrightarrow> qs ! i = Some p \<Longrightarrow> p \<in> set (List.map_filter id qs)" for qs
    by (induction qs arbitrary: i) (auto simp: map_filter_simps nth_Cons split: option.splits nat.splits)
  then show "peer_at b i = Some p \<Longrightarrow> p \<in> set (present b)" by (auto simp: peer_at_def present_def split: if_splits)
qed

lemma admit_keeps:
  assumes a: "broker_admit al b fd = (b', closed)" and b: "broker_ok b"
    and fds: "fds_distinct b" "\<forall>p \<in> set (present b). pr_fd p \<noteq> fd"
  shows "broker_ok b' \<and> fds_distinct b' \<and> (\<forall>j p. peer_at b j = Some p \<longrightarrow> peer_at b' j = Some p)"
proof -
  let ?i = "length (takeWhile (\<lambda>q. q \<noteq> None) (bk_peers b))"
  consider "bk_peers b' = bk_peers b"
    | q where "?i < length (bk_peers b)" "bk_peers b' = (bk_peers b)[?i := Some q]" "pr_fd q = fd"
    using a length_takeWhile_le [of "\<lambda>q. q \<noteq> None" "bk_peers b"]
    by (auto simp: broker_admit_def Let_def split: if_splits)
  then have "length (bk_peers b') = length (bk_peers b) \<and> fds_distinct b' \<and> (\<forall>j p. peer_at b j = Some p \<longrightarrow> peer_at b' j = Some p)"
  proof cases
    case 1
    with fds(1) show ?thesis by (simp add: fds_distinct_def peer_at_def)
  next
    case (2 q)
    have free: "bk_peers b ! ?i = None" using nth_length_takeWhile [OF 2(1)] by simp
    have at: "peer_at b' j = (if j = ?i then Some q else peer_at b j)" for j
      using 2(1,2) by (simp add: peer_at_def)
    have "fds_distinct b'" unfolding fds_distinct_def at
      using fds 2(3) peer_present unfolding fds_distinct_def by (auto split: if_splits)
    moreover have "peer_at b ?i = None" using free by (simp add: peer_at_def)
    ultimately show ?thesis using 2(2) at by auto
  qed
  moreover have "bk_store b' = bk_store b" "bk_started_at b' = bk_started_at b"
    using a by (auto simp: broker_admit_def Let_def split: if_splits)
  ultimately show ?thesis using b by (simp add: broker_ok_def)
qed

lemma accept_keeps:
  assumes "broker_accept stop al n b os = Some (r, b', closed)" "broker_ok b" "fds_distinct b" "accepts_new al n b os"
  shows "broker_ok b' \<and> fds_distinct b' \<and> (\<forall>j p. peer_at b j = Some p \<longrightarrow> peer_at b' j = Some p)"
  using assms
proof (induction n arbitrary: b os r closed)
  case (Suc n)
  show ?case
  proof (cases "stop n")
    case True
    with Suc.prems show ?thesis by simp
  next
    case False
    with Suc.prems(1) obtain fd cl os' where a: "ks_accept os = Some (fd, cl, os')" by (auto split: bind_splits)
    obtain b1 cl1 where ad: "broker_admit (al n) b fd = (b1, cl1)" by (rule prod.exhaust)
    show ?thesis
    proof (cases "fd \<in> {KS_NET_ACCEPT_WOULD_BLOCK, KS_NET_ACCEPT_ERROR}")
      case True
      with Suc.prems False a show ?thesis by (auto split: if_splits)
    next
      case new: False
      with Suc.prems(4) a ad have f: "\<forall>p \<in> set (present b). pr_fd p \<noteq> fd" "accepts_new al n b1 os'" by auto
      note k = admit_keeps [OF ad Suc.prems(2,3) f(1)]
      from Suc.prems(1) False new a ad obtain r' cl2 where "broker_accept stop al n b1 os' = Some (r', b', cl2)"
        by (auto split: bind_splits)
      from Suc.IH [OF this _ _ f(2)] k show ?thesis by blast
    qed
  qed
qed simp

lemma present_store [simp]: "present (b\<lparr>bk_store := st\<rparr>) = present b"
  by (simp add: present_def)

lemma admit_store: "broker_admit al (b\<lparr>bk_store := st\<rparr>) fd = apfst (\<lambda>b. b\<lparr>bk_store := st\<rparr>) (broker_admit al b fd)"
  by (simp add: broker_admit_def Let_def)

lemma accepts_new_store: "accepts_new al n (b\<lparr>bk_store := st\<rparr>) os = accepts_new al n b os"
  by (induction n arbitrary: b os) (auto simp: admit_store split: option.split)

lemma round_streamed:
  assumes r: "broker_round cfg listen_fd te (k, b) = Some (out, k', b')" and b: "broker_ok b" and te: "te_ok te"
    and fds: "fds_distinct b" and new: "accepts_new (te_accept_alloc te) KS_ACCEPT_BUDGET b (te_accept te)"
  shows "broker_ok b' \<and> fds_distinct b' \<and> (\<forall>j p p'. peer_at b j = Some p \<longrightarrow> peer_at b' j = Some p' \<longrightarrow>
    flowed (bytes_to (pr_fd p) (ro_sent out)) p p')"
proof -
  from r obtain n st where st: "ks_kv_reap (bk_store b) KS_REAPER_BUDGET = Some (n, st)"
    by (auto simp: broker_round_def split: bind_splits)
  then obtain a where a: "kv_step (Op_Reap KS_REAPER_BUDGET) (bk_store b) = Some (a, st)" by auto
  let ?b = "b\<lparr>bk_store := st\<rparr>"
  have d: "store_inv (bk_store b)" "small_values (bk_store b)" using b by (simp_all add: broker_ok_def)
  have ok: "broker_ok ?b"
    using kv.step_invar [OF d(1) a] small_step [OF d a] b by (simp add: broker_ok_def)
  have f: "fds_distinct ?b" using fds by (simp add: fds_distinct_def)
  show ?thesis
  proof (cases "te_select te")
    case (Inl errno)
    with r st have "b' = ?b" "ro_sent out = []" by (auto simp: broker_round_def Let_def)
    with ok f show ?thesis by (simp add: grows_same)
  next
    case (Inr fds')
    let ?polled = "(if k = 0 then [listen_fd] else []) @ map pr_fd (filter awaits_input (present b))"
    obtain rfds wfds where sel: "c_select fds' ?polled (map pr_fd (filter awaits_output (present b))) = (rfds, wfds)"
      by (rule prod.exhaust)
    obtain x where x: "(if k \<le> 1 \<and> listen_fd \<in> set rfds
        then broker_accept (te_stop te) (te_accept_alloc te) KS_ACCEPT_BUDGET ?b (te_accept te) else Some (False, ?b, [])) = Some x"
      using r st Inr sel by (simp add: broker_round_def Let_def split: bind_splits)
    obtain q b1 cl where 1: "x = (q, b1, cl)" by (rule prod_cases3)
    have k1: "broker_ok b1 \<and> fds_distinct b1 \<and> (\<forall>j p. peer_at ?b j = Some p \<longrightarrow> peer_at b1 j = Some p)"
      using x accept_keeps [OF _ ok f] new ok f by (auto simp: 1 accepts_new_store split: if_splits)
    obtain cl' where 2: "broker_serve_all te cfg rfds wfds [0..<length (bk_peers b1)] b1 = Some (b', cl', ro_sent out)"
      using r st Inr sel x by (auto simp: broker_round_def Let_def 1 split: bind_splits)
    from serve_all_streamed [OF 2 _ te] k1 have s: "broker_ok b'" "streamed (ro_sent out) b1 b'" by simp_all
    have "flowed (bytes_to (pr_fd p) (ro_sent out)) p p'" if "peer_at b j = Some p" "peer_at b' j = Some p'" for j p p'
      using streamedD [OF s(2) that(2)] k1 that(1) by auto
    with s streamed_distinct [OF s(2)] k1 show ?thesis by blast
  qed
qed

section \<open>Over the life of a connection\<close>

text \<open>
  The client at place \<open>i\<close> was connected over the last rounds of a run, from a moment when nothing
  was owed to it, and was sent \<open>tx\<close> since then; \<open>n\<close> is the number of rounds since the start.
\<close>

inductive conversation :: "ks_config \<Rightarrow> int \<Rightarrow> nat \<Rightarrow> nat \<Rightarrow> nat \<times> ks_server \<Rightarrow> bytes \<Rightarrow> bool" for cfg listen_fd i where
  meet: "reachable cfg listen_fd n (k, s) \<Longrightarrow> get_client s i = Some c \<Longrightarrow> cl_used c \<Longrightarrow> outbox c = [] \<Longrightarrow>
    distinct (open_fds (sv_clients s)) \<Longrightarrow> conversation cfg listen_fd i n (k, s) []"
| go_on: "conversation cfg listen_fd i n (k, s) tx \<Longrightarrow> te_ok te \<Longrightarrow>
    accepts_new (te_accept_alloc te) KS_ACCEPT_BUDGET (broker_of s) (te_accept te) \<Longrightarrow>
    tick te cfg listen_fd k s = Some t \<Longrightarrow> tr_exit t = None \<Longrightarrow>
    get_client s i = Some c \<Longrightarrow> get_client (tr_server t) i = Some c' \<Longrightarrow> cl_used c' \<Longrightarrow>
    conversation cfg listen_fd i (Suc n) (tr_backoff t, tr_server t) (tx @ bytes_to (cl_fd c) (tr_sent t))"

lemma open_fds_inj:
  "distinct (open_fds cs) \<Longrightarrow> j < length cs \<Longrightarrow> k < length cs \<Longrightarrow> cl_used (cs ! j) \<Longrightarrow> cl_used (cs ! k) \<Longrightarrow>
    cl_fd (cs ! j) = cl_fd (cs ! k) \<Longrightarrow> j = k"
proof (induction cs arbitrary: j k)
  case (Cons c cs)
  have m: "cl_fd (cs ! m) \<in> set (open_fds cs)" if "m < length cs" "cl_used (cs ! m)" for m
    using that by (simp add: open_fds_def)
  have d: "distinct (open_fds cs)" "cl_used c \<Longrightarrow> cl_fd c \<notin> set (open_fds cs)"
    using Cons.prems(1) by (simp_all add: open_fds_def split: if_splits)
  show ?case
  proof (cases j)
    case 0
    show ?thesis
    proof (cases k)
      case (Suc k')
      with 0 Cons.prems m [of k'] d(2) show ?thesis by simp
    qed (simp add: 0)
  next
    case (Suc j')
    show ?thesis
    proof (cases k)
      case 0
      with Suc Cons.prems m [of j'] d(2) show ?thesis by simp
    next
      case (Suc k')
      with \<open>j = Suc j'\<close> Cons.prems Cons.IH [OF d(1), of j' k'] show ?thesis by simp
    qed
  qed
qed simp

lemma distinct_open:
  assumes "distinct (open_fds (sv_clients s))" shows "fds_distinct (broker_of s)"
  unfolding fds_distinct_def
proof (intro allI impI)
  fix j k p q assume a: "peer_at (broker_of s) j = Some p" "peer_at (broker_of s) k = Some q" "pr_fd p = pr_fd q"
  have u: "i < length (sv_clients s) \<and> cl_used (sv_clients s ! i) \<and> pr_fd r = cl_fd (sv_clients s ! i)"
    if "peer_at (broker_of s) i = Some r" for i r
    using that by (auto simp: peer_at_def peer_of_def split: if_splits)
  from u [OF a(1)] u [OF a(2)] a(3) open_fds_inj [OF assms, of j k] show "j = k" by simp
qed

lemma conversation_spec:
  assumes "conversation cfg listen_fd i n (k, s) tx" "n * KS_ACCEPT_BUDGET \<le> 2 ^ 64 - 2"
  shows "reachable cfg listen_fd n (k, s) \<and> fds_distinct (broker_of s) \<and>
    (\<exists>c fs. get_client s i = Some c \<and> cl_used c \<and> (\<forall>f \<in> set fs. frame_ok f) \<and> tx @ outbox c = texts fs)"
  using assms
proof (induction n "(k, s)" tx arbitrary: k s rule: conversation.induct)
  case (meet n k s c)
  then show ?case using distinct_open [of s] by (auto intro!: exI [of _ "[]"])
next
  case (go_on n k s tx te t c c')
  from go_on.prems go_on.hyps(2) obtain fs where IH: "reachable cfg listen_fd n (k, s)" "fds_distinct (broker_of s)" "cl_used c"
    "\<forall>f \<in> set fs. frame_ok f" "tx @ outbox c = texts fs" using go_on.hyps(7) by auto
  have "srv_ok (KS_ACCEPT_BUDGET + 0) s"
    using srv.reach_inv [OF reachable_reach [OF IH(1)], of "KS_ACCEPT_BUDGET + 0"] go_on.prems by (simp add: add.commute)
  from tick_refines [OF go_on.hyps(3) this, of cfg listen_fd k] go_on.hyps(5) this have
    r: "broker_round cfg listen_fd te (k, broker_of s) = Some (shown t, tr_backoff t, broker_of (tr_server t))"
    and inv: "server_inv s" by (auto simp: srv_ok_def)
  have p: "peer_at (broker_of s) i = Some (the (peer_of c))" "peer_at (broker_of (tr_server t)) i = Some (the (peer_of c'))"
    "pr_fd (the (peer_of c)) = cl_fd c" "ro_sent (shown t) = tr_sent t"
    using peer_at_used go_on.hyps(7-9) IH(3) by (simp_all add: peer_of_used shown_def)
  note st = round_streamed [OF r broker_ok_of [OF inv] go_on.hyps(3) IH(2) go_on.hyps(4)]
  then have "fds_distinct (broker_of (tr_server t))" by blast
  moreover from st p(1,2) have "flowed (bytes_to (cl_fd c) (tr_sent t)) (the (peer_of c)) (the (peer_of c'))"
    unfolding p(3,4) [symmetric] by blast
  moreover from this obtain gs where g: "\<forall>f \<in> set gs. frame_ok f" "bytes_to (cl_fd c) (tr_sent t) @ outbox c' = outbox c @ texts gs"
    using IH(3) go_on.hyps(9) by (auto simp: flowed_def peer_of_used)
  moreover have "(tx @ bytes_to (cl_fd c) (tr_sent t)) @ outbox c' = texts (fs @ gs)"
    using g(2) IH(5) by (metis append.assoc texts_simps(3))
  ultimately show ?case using reachable.round [OF IH(1) go_on.hyps(3,5,6)] go_on.hyps(8,9) IH(4)
    by (intro conjI exI [of _ c'] exI [of _ "fs @ gs"]) auto
qed

section \<open>An example\<close>

lemma ex_reachable:
  obtains s st where "reachable ex_config 3 0 (0, s)" "broker_of s = broker_start ex_config st 0"
proof -
  have "ks_kv_init mem_ok (re_clock ex_run) \<noteq> None" "ks_pubsub_create mem_ok \<noteq> None"
    using ex_run_starts by (auto simp: starts_def ex_run_def)
  then obtain st pubsub where o: "ks_kv_init mem_ok (re_clock ex_run) = Some st" "ks_pubsub_create mem_ok = Some pubsub" by auto
  have "fresh_server ex_config (0, initial_server ex_config st pubsub 0)"
    unfolding fresh_server_def using o ex_run_ok(2) by (intro exI conjI) (auto simp: time_ok_def)
  moreover have "config_ok ex_config" by (simp add: config_ok_def ex_config_def FD_SETSIZE_def)
  ultimately show thesis
    using that reachable.start broker_initial [OF o(2), of ex_config st 0] by blast
qed

text \<open>A round, by what it is for the broker.\<close>

lemma ex_next:
  assumes r: "reachable cfg listen_fd n (k, s)" "Suc n * KS_ACCEPT_BUDGET \<le> 2 ^ 64 - 2" and te: "te_ok te"
    and b: "\<And>q st. ks_kv_reap (sv_store s) KS_REAPER_BUDGET = Some (q, st) \<Longrightarrow>
      broker_round cfg listen_fd te (k, broker_of s) = Some (\<lparr>ro_exit = None, ro_closed = [], ro_sent = sent\<rparr>, 0, f st)"
  obtains t st where "tick te cfg listen_fd k s = Some t" "tr_exit t = None" "tr_sent t = sent" "tr_backoff t = 0"
    "broker_of (tr_server t) = f st" "reachable cfg listen_fd (Suc n) (0, tr_server t)"
proof -
  have ok: "srv_ok (KS_ACCEPT_BUDGET + 0) s"
    using srv.reach_inv [OF reachable_reach [OF r(1)], of "KS_ACCEPT_BUDGET + 0"] r(2) by (simp add: add.commute)
  obtain q st where "ks_kv_reap (sv_store s) KS_REAPER_BUDGET = Some (q, st)" by (rule reap_server [OF ok])
  note b = b [OF this]
  from tick_refines [OF te ok, of cfg listen_fd k] obtain t where
    t: "tick te cfg listen_fd k s = Some t"
      "broker_round cfg listen_fd te (k, broker_of s) = Some (shown t, tr_backoff t, broker_of (tr_server t))" by blast
  with b have e: "tr_exit t = None" "tr_sent t = sent" "tr_backoff t = 0" "broker_of (tr_server t) = f st"
    by (simp_all add: shown_def)
  with reachable.round [OF r(1) te t(1)] t(1) show thesis by (intro that) simp_all
qed

lemma ex_client_of:
  assumes "broker_of s = ex_broker st n out"
  obtains c where "get_client s 0 = Some c" "cl_used c" "cl_fd c = 5" "outbox c = out" "open_fds (sv_clients s) = [5]"
    "sv_store s = st"
proof -
  from assms have "map peer_of (sv_clients s) = [Some (ex_peer out)]" "sv_store s = st"
    by (simp_all add: broker_of_def ex_broker_def)
  moreover from this obtain c where "sv_clients s = [c]" "peer_of c = Some (ex_peer out)" by auto
  ultimately show thesis
    by (intro that [of c]) (simp_all add: get_client_def peer_of_def ex_peer_def open_fds_def split: if_splits)
qed

lemma ex_conversation:
  obtains s c where "conversation ex_config 3 0 3 (0, s) (simple_text ''PONG'')" "get_client s 0 = Some c" "outbox c = []"
proof -
  have n: "Suc m * KS_ACCEPT_BUDGET \<le> 2 ^ 64 - 2" if "m < 9" for m using that by (simp add: KS_ACCEPT_BUDGET_def)
  obtain s0 st0 where 0: "reachable ex_config 3 0 (0, s0)" "broker_of s0 = broker_start ex_config st0 0" by (rule ex_reachable)
  have st0: "sv_store s0 = st0" using 0(2) by (simp add: broker_of_def broker_start_def)
  have b1: "broker_round ex_config 3 ex_tick (0, broker_of s0) =
      Some (\<lparr>ro_exit = None, ro_closed = [], ro_sent = []\<rparr>, 0, ex_broker st 0 [])"
    if "ks_kv_reap (sv_store s0) KS_REAPER_BUDGET = Some (q, st)" for q st
    using ex_round_accept that 0(2) st0 by simp
  obtain t1 :: tick_result and st1 where 1: "broker_of (tr_server t1) = ex_broker st1 0 []" "reachable ex_config 3 (Suc 0) (0, tr_server t1)"
    by (rule ex_next [where f = "\<lambda>st. ex_broker st 0 []", OF 0(1) n ex_tick_ok b1]) auto
  obtain c1 where c1: "get_client (tr_server t1) 0 = Some c1" "cl_used c1" "cl_fd c1 = 5" "outbox c1 = []"
    "open_fds (sv_clients (tr_server t1)) = [5]" "sv_store (tr_server t1) = st1" by (rule ex_client_of [OF 1(1)])
  have m: "conversation ex_config 3 0 (Suc 0) (0, tr_server t1) []"
    by (rule conversation.meet [OF 1(2) c1(1,2,4)]) (simp add: c1(5))
  have b2: "broker_round ex_config 3 ex_tick_read (0, broker_of (tr_server t1)) =
      Some (\<lparr>ro_exit = None, ro_closed = [], ro_sent = []\<rparr>, 0, ex_broker st 1 (simple_text ''PONG''))"
    if "ks_kv_reap (sv_store (tr_server t1)) KS_REAPER_BUDGET = Some (q, st)" for q st
    using ex_round_read that 1(1) c1(6) by simp
  obtain t2 st2 where 2: "tick ex_tick_read ex_config 3 0 (tr_server t1) = Some t2" "tr_exit t2 = None" "tr_sent t2 = []"
    "tr_backoff t2 = 0" "broker_of (tr_server t2) = ex_broker st2 1 (simple_text ''PONG'')"
    "reachable ex_config 3 (Suc (Suc 0)) (0, tr_server t2)"
    by (rule ex_next [where f = "\<lambda>st. ex_broker st 1 (simple_text ''PONG'')", OF 1(2) n ex_ticks_ok(1) b2]) auto
  obtain c2 where c2: "get_client (tr_server t2) 0 = Some c2" "cl_used c2" "cl_fd c2 = 5" "sv_store (tr_server t2) = st2"
    by (rule ex_client_of [OF 2(5)])
  have a: "accepts_new al KS_ACCEPT_BUDGET b [Inl EAGAIN]" for al b
  proof -
    have "accepts_new al m b [Inl EAGAIN]" for m by (cases m) (simp_all add: ks_error_interrupted_def ks_error_would_block_def)
    then show ?thesis .
  qed
  have "conversation ex_config 3 0 (Suc (Suc 0)) (tr_backoff t2, tr_server t2) ([] @ bytes_to (cl_fd c1) (tr_sent t2))"
    by (rule conversation.go_on [OF m ex_ticks_ok(1) _ 2(1,2) c1(1) c2(1,2)]) (simp add: ex_tick_read_def a)
  then have m2: "conversation ex_config 3 0 (Suc (Suc 0)) (0, tr_server t2) []" using 2(3,4) by simp
  have b3: "broker_round ex_config 3 ex_tick_write (0, broker_of (tr_server t2)) =
      Some (\<lparr>ro_exit = None, ro_closed = [], ro_sent = [(5, simple_text ''PONG'')]\<rparr>, 0, ex_broker st 1 [])"
    if "ks_kv_reap (sv_store (tr_server t2)) KS_REAPER_BUDGET = Some (q, st)" for q st
    using ex_round_write that 2(5) c2(4) by simp
  obtain t3 st3 where 3: "tick ex_tick_write ex_config 3 0 (tr_server t2) = Some t3" "tr_exit t3 = None"
    "tr_sent t3 = [(5, simple_text ''PONG'')]" "tr_backoff t3 = 0" "broker_of (tr_server t3) = ex_broker st3 1 []"
    by (rule ex_next [where f = "\<lambda>st. ex_broker st 1 []", OF 2(6) n ex_ticks_ok(2) b3]) auto
  obtain c3 where c3: "get_client (tr_server t3) 0 = Some c3" "cl_used c3" "outbox c3 = []" by (rule ex_client_of [OF 3(5)])
  have "conversation ex_config 3 0 (Suc (Suc (Suc 0))) (tr_backoff t3, tr_server t3) ([] @ bytes_to (cl_fd c2) (tr_sent t3))"
    by (rule conversation.go_on [OF m2 ex_ticks_ok(2) _ 3(1,2) c2(1) c3(1,2)]) (simp add: ex_tick_write_def a)
  then have "conversation ex_config 3 0 3 (0, tr_server t3) (simple_text ''PONG'')"
    using 3(3,4) c2(3) by (simp add: numeral_3_eq_3)
  with c3 show thesis by (intro that)
qed

section \<open>Properties\<close>

text \<open>
  C2. What a client receives is a sequence of whole frames. Over any number of rounds of the
  server, whatever this and all the other clients send and publish and however the sockets cut the
  bytes, the bytes sent on the connection of a client together with those still in its buffer are
  the texts of responses and messages, each complete. When nothing is owed, the command-line client
  that reads these bytes, in any pieces, prints exactly these frames in their form for people, one
  by one, and has read nothing behind them.
\<close>

theorem stream_of_frames:
  assumes "conversation cfg listen_fd i n (k, s) tx" "n * KS_ACCEPT_BUDGET \<le> 2 ^ 64 - 2" "get_client s i = Some c"
  shows "\<exists>fs. (\<forall>f \<in> set fs. frame_ok f) \<and> tx @ outbox c = texts fs \<and>
    (outbox c = [] \<longrightarrow> (\<forall>cli rest. flows cli \<and> unread cli = tx @ rest \<longrightarrow>
      (\<exists>cli'. render_all (length fs) cli = Some (RESPONSE_OK, cli') \<and> unread cli' = rest \<and>
        cli_stdout cli' = cli_stdout cli @ views fs)))"
proof -
  from conversation_spec [OF assms(1,2)] assms(3) obtain fs where
    fs: "\<forall>f \<in> set fs. frame_ok f" "tx @ outbox c = texts fs" by auto
  have "\<exists>cli'. render_all (length fs) cli = Some (RESPONSE_OK, cli') \<and> unread cli' = rest \<and>
      cli_stdout cli' = cli_stdout cli @ views fs"
    if "outbox c = []" "flows cli" "unread cli = tx @ rest" for cli rest
  proof -
    have "unread cli = texts fs @ rest" using that(1,3) fs(2) by simp
    from render_frames [OF that(2) this fs(1)] obtain cli' where
      "render_all (length fs) cli = Some (RESPONSE_OK, cli')" "printed cli (views fs) rest cli'" by blast
    with printedD printed_stdout(1) show ?thesis by metis
  qed
  with fs show ?thesis by blast
qed

theorem stream_of_frames_witness:
  "\<exists>s c fs. conversation ex_config 3 0 3 (0, s) (simple_text ''PONG'') \<and> get_client s 0 = Some c \<and> outbox c = [] \<and>
     (\<forall>f \<in> set fs. frame_ok f) \<and> simple_text ''PONG'' = texts fs"
proof -
  obtain s c where s: "conversation ex_config 3 0 3 (0, s) (simple_text ''PONG'')" "get_client s 0 = Some c" "outbox c = []"
    by (rule ex_conversation)
  from stream_of_frames [OF s(1) _ s(2)] s show ?thesis by (auto simp: KS_ACCEPT_BUDGET_def)
qed

end
