(* ===== verification/Spec2Isabelle.thy ===== *)
theory Spec2Isabelle
  imports Kessel_Server_Correct Kessel_Cli_Subscribe Kessel_Broker_Stream
begin

text \<open>
  Kessel is an in-memory key-value store and publish/subscribe broker in C: a single-threaded
  server that speaks a line protocol over TCP, and a command-line client. This development models
  the program function by function and proves it correct.

  \<^bold>\<open>The program.\<close> \<^verbatim>\<open>main_server.c\<close> loads a configuration (\<^verbatim>\<open>ks_config.c\<close>) and calls
  \<^verbatim>\<open>ks_server_run\<close> (\<^verbatim>\<open>ks_server.c\<close>), which opens a listener (\<^verbatim>\<open>ks_net.c\<close>) and runs
  an event loop around \<^verbatim>\<open>select\<close>. A round reaps expired keys, accepts connections, and for
  each client reads, writes and carries out the complete request lines in its input buffer. A line
  is parsed in place (\<^verbatim>\<open>ks_protocol.c\<close>) and dispatched to a command, which works on the
  store (\<^verbatim>\<open>ks_kv.c\<close>, a layer with deadlines from \<^verbatim>\<open>ks_ttl.c\<close> on the hash table
  \<^verbatim>\<open>ks_ds.c\<close>) or on the registry of subscriptions (\<^verbatim>\<open>ks_pubsub.c\<close>), and queues a
  response in the output buffer of the client, or a message in those of the subscribers.
  \<^verbatim>\<open>cli/kessel_cli.c\<close> sends the commands of a user and renders the responses.

  \<^bold>\<open>The model.\<close> A structure is a record, an enumeration a datatype, \<^verbatim>\<open>size_t\<close> and
  \<^verbatim>\<open>uint64_t\<close> are 64-bit words wherever they can wrap around (natural numbers where the code
  bounds them), buffers are lists of bytes with a check at every access, strings are known by their
  content. State is passed explicitly. The option monad is the effect of a C function: \<open>None\<close>
  is undefined behaviour (an access out of bounds, a null pointer) or not returning, so a result
  \<open>Some\<close> says that the function returns and stays in its buffers. Errors that the code reports
  are values; that the client frees or reads memory which is not alive is recorded in its state
  (\<open>cli_fault\<close>). Loops are structural recursions where they are bounded, and \<open>partial_function\<close>
  where nothing in the code bounds them; for those it is proved that they return. There is no
  fuel: the lists of the system's answers are consumed one by one, and a call that needs an answer
  that is not there does not return.

  What is not under \<^verbatim>\<open>src/\<close> is a parameter: whether an allocation succeeds (by the place of
  the code and the size), the readings of the clock, the answers of \<open>select\<close>, \<open>accept\<close>,
  \<open>recv\<close>, \<open>send\<close>, \<open>poll\<close> and of the calls that open sockets, the times at which the
  stop flag or the interrupt flag is found set, the environment and the arguments. The hypotheses
  about them are named: \<open>monotonic\<close> (the monotonic clock does not go back), \<open>settles\<close> (a call
  on a non-blocking socket is interrupted only finitely often before it says that it would
  block), \<open>te_ok\<close> (both, for all the calls of a round, and \<open>accept\<close> gives descriptors),
  \<open>accepts_new\<close> (never that of the listener), \<open>sockets_ok\<close> (so does \<open>socket\<close> in the client),
  \<open>time_ok\<close> (the wall clock fits in 64 bits), \<open>flows\<close> (the connection of the client delivers).

  \<^bold>\<open>The theories.\<close>
  \<^item> \<open>Kessel_Prelude\<close>: types, the allocator, lemmas on lists and words, and the predicate
    \<open>returns\<close> with its rules (the collection \<open>wp\<close>). \<open>Kessel_C\<close>: the functions of the C library on
    strings, with the conversions between numbers and decimal text.
  \<^item> \<open>Kessel_Ds\<close>: \<^verbatim>\<open>ks_ds.c\<close>, operation by operation. \<open>Kessel_Ds_Probe\<close>: the invariant of
    open addressing with tombstones and what a probe finds; \<open>Kessel_Ds_Map\<close>: every operation, resizes
    included, on the finite map and the bag of pairs; the locale \<open>table\<close>, the interface of a
    table, interpreted on the hash table.
  \<^item> \<open>Kessel_Ttl\<close>, \<open>Kessel_Kv\<close>: \<^verbatim>\<open>ks_ttl.c\<close>, \<^verbatim>\<open>ks_kv.c\<close>. \<open>Kessel_Kv_Correct\<close> and \<open>Kessel_Kv_Reap\<close>: every
    operation on the bindings that are live at a time; \<open>Kessel_Kv_Store\<close>: the locale
    \<open>expiring_store\<close>, histories of operations, and the properties of the store.
  \<^item> \<open>Kessel_Protocol\<close>: \<^verbatim>\<open>ks_protocol.c\<close>, and the request grammar. \<open>Kessel_Protocol_Correct\<close>:
    the in-place parser implements the grammar, the formatters write exactly their response;
    \<open>Kessel_Protocol_Frame\<close>: the parser changes no byte outside the line.
  \<^item> \<open>Kessel_Pubsub\<close>: \<^verbatim>\<open>ks_pubsub.c\<close>, the set of memberships it stands for, and the locale
    \<open>registry\<close>. \<open>Kessel_Config\<close>: \<^verbatim>\<open>ks_config.c\<close> and \<^verbatim>\<open>ks_log.c\<close>. \<open>Kessel_Net\<close>: \<^verbatim>\<open>ks_net.c\<close>.
  \<^item> \<open>Kessel_Server\<close>: clients, commands, framing, reading and writing of \<^verbatim>\<open>ks_server.c\<close>;
    \<open>Kessel_Event_Loop\<close>: accepting, a round, the loop, start and shutdown, \<^verbatim>\<open>main_server.c\<close>. The
    state is the record \<open>ks_server\<close>; a pointer to a client is an index into its array.
  \<^item> \<open>Kessel_Server_Buffers\<close> (queueing and writing), \<open>Kessel_Server_Commands\<close> and
    \<open>Kessel_Server_Publish\<close> (what each command answers and changes), \<open>Kessel_Server_Handle\<close> (a line),
    \<open>Kessel_Server_Invariant\<close> (the invariant \<open>server_inv\<close>, kept by every command),
    \<open>Kessel_Server_Requests\<close> (framing), \<open>Kessel_Server_Pipeline\<close> (a buffer of requests as a history
    of store operations), \<open>Kessel_Event_Loop_Correct\<close> (a round returns, keeps the invariant and
    accounts for every descriptor), \<open>Kessel_Server_Run\<close> (the locale \<open>budgeted_system\<close>, the
    reachable states, a whole run), \<open>Kessel_Server_Correct\<close> (the properties of the server).
  \<^item> \<open>Kessel_Cli\<close> and \<open>Kessel_Cli_Session\<close>: \<^verbatim>\<open>kessel_cli.c\<close>. \<open>Kessel_Cli_Reader\<close> and \<open>Kessel_Cli_Decoder\<close>: the
    buffered reader against a decoder on byte streams; \<open>Kessel_Cli_Correct\<close>: the client and the server
    together, and the subscription mode. \<open>Kessel_Cli_Program\<close>: the whole client, what it holds and gives
    back, and a session from the keyboard to the store and back; \<open>Kessel_Cli_Subscribe\<close>: the end of the
    subscription mode.
  \<^item> \<open>Kessel_Broker\<close>: the specification of the server, a broker: peers with an inbox and an outbox,
    the store, the registry, the counters, and what a request, a line, a buffer, a peer and a round
    do to them; no buffer positions, no terminators, no in-place parsing. \<open>Kessel_Broker_Requests\<close>,
    \<open>Kessel_Broker_Loop\<close> and \<open>Kessel_Broker_Run\<close>: the server refines the broker, operation by
    operation up to whole runs (the locale \<open>system_refinement\<close> gives the runs from the rounds).
    \<open>Kessel_Broker_Stream\<close>: the stream of a client over any number of rounds is a sequence of frames,
    which the client prints one by one. \<open>Kessel_Broker_Example\<close>: concrete rounds for the witnesses.

  \<^bold>\<open>What is shown.\<close> The table is a finite map; the store is a map with deadlines under any
  history of operations; the parser implements the grammar and every request can be expressed;
  the registry delivers each message once. The server never fails on input from its clients: in
  every reachable state every round returns, the invariant holds, the buffers stay in bounds;
  requests on keys are carried out exactly as the history of operations on the store; the only
  line that is refused for its length is one above the limit; and the descriptors a run closes are
  exactly the listener and the connections that \<open>accept\<close> gave it. Identifiers of clients are unique as long as fewer than \<open>2 ^ 64\<close>
  connections were accepted, after which the code would reuse them: this is the budget of
  \<open>budgeted_system\<close>, 64 a round. A run of the server shows exactly what a run of the broker does: the
  bytes sent, the descriptors closed, the exit code; and every client receives whole frames
  whatever the others do. The client prints what the server answered, however the bytes arrive.

  \<^bold>\<open>Found while modelling.\<close> The subscription mode of the client prints nothing until it is
  interrupted (\<open>subscription_stalls\<close>); the number parsers of the configuration and of the
  client accept negative texts, which wrap around (stated by \<open>config_parsers_roundtrip\<close>); an option value can hide an environment variable.

  \<^bold>\<open>Not modelled.\<close> The branches for Windows; the lines written to the log by the server after
  its start (the filter and the form of a log line are in \<open>Kessel_Config\<close>); the installation of the
  server's signal handlers; the release of the memory of the server's clients (that of the table,
  the registry and the command-line client is modelled). The programs under \<^verbatim>\<open>benches/\<close> and
  \<^verbatim>\<open>tests/\<close> are not part of the product.
\<close>

end
